(* ===== verification/Prelude.thy ===== *)
theory Prelude
  imports
    Main
    "HOL-Library.Word"
    "HOL-Library.AList"
    "HOL-Library.Monad_Syntax"
    "HOL-Library.Multiset"
begin

text \<open>
  Shared vocabulary of the development: the collections of rewrite rules the component
  theories extend, the machine-integer type synonyms of \<^verbatim>\<open>src/src/types.h\<close>, a model of
  the hash maps of the C++ standard library as association lists, and the generic facts on
  lists, options and words that more than one component needs.

  Code that can run into undefined behaviour returns \<open>'a option\<close>: \<open>None\<close> stands for a
  dereference of a null or dangling pointer, an index outside a vector, an allocation that
  gave no object, or a loop that never ends. Every statement that an operation works
  therefore has the form \<open>op \<dots> = Some \<dots>\<close>.
\<close>

named_theorems rec_defs \<open>constructor functions of the message records\<close>
named_theorems book_defs \<open>the definitions of the order books, to be unfolded together\<close>
named_theorems spec_defs \<open>the definitions of the abstract order book\<close>

section \<open>Machine integers\<close>

type_synonym uint8 = "8 word"
type_synonym uint16 = "16 word"
type_synonym uint32 = "32 word"
type_synonym uint64 = "64 word"

lemma word_min_diff_eq_0 [simp]:
  fixes q r :: "'a::len word"
  shows "r - min q r = 0 \<longleftrightarrow> r \<le> q"
  by (auto simp: min_def)

lemma unat_diff_min [simp]:
  fixes q r :: "'a::len word"
  shows "unat (q - min q r) = unat q - min (unat q) (unat r)"
  by (auto simp: min_def unat_sub word_le_nat_alt)

lemma unat_diff_min_right [simp]:
  fixes q r :: "'a::len word"
  shows "unat (r - min q r) = unat r - min (unat q) (unat r)"
  by (auto simp: min_def unat_sub word_le_nat_alt)

lemma unat_min:
  fixes q r :: "'a::len word"
  shows "unat (min q r) = min (unat q) (unat r)"
  by (auto simp: min_def word_le_nat_alt)

lemma unat_of_nat_small:
  assumes "n < 2 ^ LENGTH('a::len)"
  shows "unat (of_nat n :: 'a word) = n"
  using assms by (simp add: unsigned_of_nat take_bit_nat_eq_self)

lemma unat_Suc_of_nat:
  assumes "Suc n < 2 ^ LENGTH('a::len)"
  shows "unat (of_nat n + 1 :: 'a word) = Suc n"
  using unat_of_nat_small [OF assms] by (simp add: add.commute)

section \<open>Lists\<close>

text \<open>First and last element of a possibly empty list, as the pointers to them.\<close>

fun first :: "'a list \<Rightarrow> 'a option" where
  "first [] = None"
| "first (x # _) = Some x"

definition final :: "'a list \<Rightarrow> 'a option" where
  "final xs = (if xs = [] then None else Some (last xs))"

lemma first_append: "first (xs @ ys) = (if xs = [] then first ys else first xs)"
  by (cases xs) auto

lemma final_append: "final (xs @ ys) = (if ys = [] then final xs else final ys)"
  by (auto simp: final_def)

lemma first_eq_None [simp]: "first xs = None \<longleftrightarrow> xs = []"
  by (cases xs) auto

lemma final_eq_None [simp]: "final xs = None \<longleftrightarrow> xs = []"
  by (simp add: final_def)

lemma final_Nil [simp]: "final [] = None"
  and final_snoc [simp]: "final (xs @ [x]) = Some x"
  and final_single [simp]: "final [x] = Some x"
  by (auto simp: final_def)

lemma removeAll_notin [simp]: "x \<notin> set xs \<Longrightarrow> removeAll x xs = xs"
  by (induction xs) auto

lemma filter_removeAll: "filter P (removeAll x xs) = removeAll x (filter P xs)"
  by (induction xs) auto

lemma removeAll_filter_neg: "\<not> P x \<Longrightarrow> removeAll x (filter P xs) = filter P xs"
  by (induction xs) auto

lemma distinct_mid: "distinct (us @ a # vs) \<longleftrightarrow> a \<notin> set (us @ vs) \<and> distinct (us @ vs)"
  by auto

lemma sorted_wrt_mid:
  "sorted_wrt P (us @ a # vs) \<longleftrightarrow>
     sorted_wrt P (us @ vs) \<and> (\<forall>x\<in>set us. P x a) \<and> (\<forall>y\<in>set vs. P a y)"
  by (auto simp: sorted_wrt_append)

lemma find_SomeD: "find P xs = Some y \<Longrightarrow> y \<in> set xs \<and> P y"
  by (induction xs) (auto split: if_splits)

section \<open>Options\<close>

lemma bind_Some_conv_map: "Option.bind x (\<lambda>y. Some (f y)) = map_option f x"
  by (cases x) auto

section \<open>Polling\<close>

text \<open>What a sequence of polls of a queue delivered, the empty polls left out.\<close>

definition polled :: "'a option list \<Rightarrow> 'a list" where
  "polled xs = List.map_filter (\<lambda>x. x) xs"

lemma polled_simps [simp]: "polled [] = []" "polled (None # xs) = polled xs" "polled (Some x # xs) = x # polled xs"
  by (simp_all add: polled_def List.map_filter_simps)

lemma polled_map_Some [simp]: "polled (map (\<lambda>x. Some (f x)) xs) = map f xs"
  by (induction xs) simp_all

section \<open>Hash maps\<close>

text \<open>
  A \<^verbatim>\<open>std::unordered_map\<close> is an association list; \<open>map_of\<close> is \<^verbatim>\<open>find\<close>,
  \<open>AList.update\<close> is assignment through \<^verbatim>\<open>operator[]\<close>, \<open>AList.delete\<close> is \<^verbatim>\<open>erase\<close>.
\<close>

lemma map_of_update [simp]: "map_of (AList.update k v al) = (map_of al)(k \<mapsto> v)"
  by (rule AList.update_conv')

lemma map_of_delete [simp]: "map_of (AList.delete k al) = (map_of al)(k := None)"
  by (rule AList.delete_conv')

end
