(* ===== verification/Machine.thy ===== *)
theory Machine
  imports Prelude
begin

text \<open>
  Threads as machines. A thread of the exchange is a loop that reacts to one event after the
  other; a reaction is a partial function on the thread's state, undefined where the code has no
  defined behaviour. Several threads keep 64-bit counters that advance by at most one per event,
  so their invariants hold only as long as a counter cannot wrap. The locale \<open>machine\<close> takes an
  invariant \<open>inv n\<close> that leaves room for \<open>n\<close> more events and shows that a run of that many events is
  defined.
\<close>

primrec steps :: "('e \<Rightarrow> 's \<Rightarrow> 's option) \<Rightarrow> 'e list \<Rightarrow> 's \<Rightarrow> 's option" where
  "steps step [] s = Some s"
| "steps step (e # es) s = do { s \<leftarrow> step e s; steps step es s }"

lemma steps_append: "steps step (es @ es') s = do { s \<leftarrow> steps step es s; steps step es' s }"
  by (induction es arbitrary: s) (simp_all split: Option.bind_split)

inductive reach :: "('e \<Rightarrow> 's \<Rightarrow> 's option) \<Rightarrow> ('e \<Rightarrow> bool) \<Rightarrow> nat \<Rightarrow> 's \<Rightarrow> 's \<Rightarrow> bool" for step good where
  start: "reach step good 0 s s"
| event: "reach step good n s s' \<Longrightarrow> good e \<Longrightarrow> step e s' = Some s'' \<Longrightarrow> reach step good (Suc n) s s''"

lemma reach_steps:
  assumes "reach step good n s s'"
  shows "\<exists>es. length es = n \<and> list_all good es \<and> steps step es s = Some s'"
  using assms
proof induction
  case (event n s s' e s'')
  then obtain es where "length es = n" "list_all good es" "steps step es s = Some s'" by blast
  with event.hyps show ?case by (intro exI [of _ "es @ [e]"]) (simp add: steps_append)
qed simp

locale machine =
  fixes step :: "'e \<Rightarrow> 's \<Rightarrow> 's option"
    and good :: "'e \<Rightarrow> bool"
    and inv :: "nat \<Rightarrow> 's \<Rightarrow> bool"
  assumes step_ok: "inv (Suc n) s \<Longrightarrow> good e \<Longrightarrow> \<exists>s'. step e s = Some s' \<and> inv n s'"
begin

lemma steps_ok:
  assumes "inv (length es + n) s" and "list_all good es"
  shows "\<exists>s'. steps step es s = Some s' \<and> inv n s'"
  using assms
proof (induction es arbitrary: s)
  case (Cons e es)
  then obtain s' where s': "step e s = Some s'" "inv (length es + n) s'"
    using step_ok [of "length es + n" s e] by auto
  from Cons.IH [OF s'(2)] Cons.prems s'(1) show ?case by simp
qed simp

lemma reach_inv:
  assumes "reach step good k s s'" and "inv (k + n) s"
  shows "inv n s'"
proof -
  obtain es where es: "length es = k" "list_all good es" "steps step es s = Some s'"
    using reach_steps [OF assms(1)] by blast
  with steps_ok [of es n s] assms(2) show ?thesis by auto
qed

end

end
