(* ===== verification/Types.thy ===== *)
theory Types
  imports Prelude
begin

text \<open>
  The domain types of \<^verbatim>\<open>src/src/types.h\<close>: the integer aliases, the enumerations, the
  request, response and market-update messages that cross the queues, the resting order
  and the price level. Field names carry a prefix for their struct (\<open>rq_\<close> for
  \<^verbatim>\<open>MEClientRequest\<close>, \<open>rs_\<close> for \<^verbatim>\<open>MEClientResponse\<close>, \<open>mu_\<close> for
  \<^verbatim>\<open>MEMarketUpdate\<close>, \<open>mo_\<close> for \<^verbatim>\<open>MEOrder\<close>, \<open>pl_\<close> for \<^verbatim>\<open>PriceLevel\<close>),
  because several structs share names. A pointer is an optional address, \<open>None\<close> being the
  null pointer.
\<close>

type_synonym OrderId = uint64
type_synonym Price = uint64
type_synonym Quantity = uint32
type_synonym ClientId = uint64
type_synonym TickerId = uint32

type_synonym OrderToken = string

type_synonym addr = nat

definition OUCH_TOKEN_LEN :: nat where
  "OUCH_TOKEN_LEN = 14"

definition ITCH_MAX_MSG_SIZE :: nat where
  "ITCH_MAX_MSG_SIZE = 40"

definition Price_INVALID :: Price where
  "Price_INVALID = - 1"

definition OrderId_INVALID :: OrderId where
  "OrderId_INVALID = - 1"

definition zero_token :: OrderToken where
  "zero_token = replicate OUCH_TOKEN_LEN (CHR 0x00)"

datatype Side = BUY | SELL
datatype OrderType = GoodTillCancel | FillAndKill
datatype ClientRequestType = NEW | CANCEL | MODIFY
datatype ResponseType = ACCEPTED | EXECUTED | CANCELED | CANCEL_REJECTED | MODIFIED
datatype UpdateType =
  U_ADD | U_CANCEL | U_MODIFY | U_TRADE | U_SNAPSHOT_START | U_CLEAR | U_SNAPSHOT_END

record MEClientRequest =
  rq_client_id :: ClientId
  rq_client_order_id :: OrderId
  rq_new_client_order_id :: OrderId
  rq_price :: Price
  rq_ticker_id :: TickerId
  rq_qty :: Quantity
  rq_action :: ClientRequestType
  rq_type :: OrderType
  rq_side :: Side
  rq_order_token :: OrderToken

record MEClientResponse =
  rs_client_id :: ClientId
  rs_client_order_id :: OrderId
  rs_market_order_id :: OrderId
  rs_price :: Price
  rs_execution_price :: Price
  rs_match_id :: OrderId
  rs_ticker_id :: TickerId
  rs_qty :: Quantity
  rs_executed_qty :: Quantity
  rs_leaves_qty :: Quantity
  rs_side :: Side
  rs_type :: OrderType
  rs_status :: ResponseType
  rs_order_token :: OrderToken

record MEMarketUpdate =
  mu_ticker_id :: TickerId
  mu_market_order_id :: OrderId
  mu_type :: UpdateType
  mu_side :: Side
  mu_price :: Price
  mu_qty :: Quantity
  mu_new_order_id :: OrderId
  mu_match_id :: OrderId

record MEOrder =
  mo_clientId :: ClientId
  mo_clientOrderId :: OrderId
  mo_marketOrderId :: OrderId
  mo_price :: Price
  mo_next :: "addr option"
  mo_prev :: "addr option"
  mo_tickerId :: TickerId
  mo_initialQuantity :: Quantity
  mo_remainingQuantity :: Quantity
  mo_orderType :: OrderType
  mo_side :: Side
  mo_order_token :: OrderToken

text \<open>
  A price level links the orders at one price (\<open>pl_head\<close>, \<open>pl_tail\<close>) and, in the vector
  book, the neighbouring active levels, which are identified by their price.
\<close>

record PriceLevel =
  pl_price :: Price
  pl_head :: "addr option"
  pl_tail :: "addr option"
  pl_next :: "Price option"
  pl_prev :: "Price option"

section \<open>Constructors\<close>

text \<open>The parameterised constructors, with the arguments in the order of the source.\<close>

definition mk_response ::
  "ClientId \<Rightarrow> TickerId \<Rightarrow> OrderId \<Rightarrow> OrderId \<Rightarrow> Side \<Rightarrow> Price \<Rightarrow> Quantity \<Rightarrow> OrderType \<Rightarrow>
   ResponseType \<Rightarrow> Quantity \<Rightarrow> Price \<Rightarrow> Quantity \<Rightarrow> OrderId \<Rightarrow> OrderToken \<Rightarrow> MEClientResponse" where
  [rec_defs]: "mk_response client_id ticker_id client_order_id market_order_id side price qty type
     status executed_qty execution_price leaves_qty match_id order_token =
   \<lparr>rs_client_id = client_id, rs_client_order_id = client_order_id,
    rs_market_order_id = market_order_id, rs_price = price,
    rs_execution_price = execution_price, rs_match_id = match_id, rs_ticker_id = ticker_id,
    rs_qty = qty, rs_executed_qty = executed_qty, rs_leaves_qty = leaves_qty, rs_side = side,
    rs_type = type, rs_status = status, rs_order_token = order_token\<rparr>"

definition mk_update ::
  "TickerId \<Rightarrow> OrderId \<Rightarrow> UpdateType \<Rightarrow> Side \<Rightarrow> Price \<Rightarrow> Quantity \<Rightarrow> OrderId \<Rightarrow> OrderId \<Rightarrow>
   MEMarketUpdate" where
  [rec_defs]: "mk_update ticker_id market_order_id type side price qty new_order_id match_id =
   \<lparr>mu_ticker_id = ticker_id, mu_market_order_id = market_order_id, mu_type = type,
    mu_side = side, mu_price = price, mu_qty = qty, mu_new_order_id = new_order_id,
    mu_match_id = match_id\<rparr>"

definition mk_order ::
  "TickerId \<Rightarrow> ClientId \<Rightarrow> OrderId \<Rightarrow> OrderId \<Rightarrow> OrderType \<Rightarrow> Price \<Rightarrow> Quantity \<Rightarrow> Side \<Rightarrow>
   OrderToken \<Rightarrow> MEOrder" where
  [rec_defs]: "mk_order tickerId clientId clientOrderId marketOrderId orderType price
     initialQuantity side orderToken =
   \<lparr>mo_clientId = clientId, mo_clientOrderId = clientOrderId,
    mo_marketOrderId = marketOrderId, mo_price = price, mo_next = None, mo_prev = None,
    mo_tickerId = tickerId, mo_initialQuantity = initialQuantity,
    mo_remainingQuantity = initialQuantity, mo_orderType = orderType, mo_side = side,
    mo_order_token = orderToken\<rparr>"

definition mk_level :: "Price \<Rightarrow> PriceLevel" where
  [rec_defs]: "mk_level price =
   \<lparr>pl_price = price, pl_head = None, pl_tail = None, pl_next = None, pl_prev = None\<rparr>"

text \<open>
  \<^verbatim>\<open>PriceLevel() = default\<close> is value-initialised by \<^verbatim>\<open>std::map::operator[]\<close>, which zeroes the
  price field. \<^verbatim>\<open>MEClientRequest{}\<close> zeroes every field; the zero of each enumeration is its
  first constant.
\<close>

definition default_level :: PriceLevel where
  [rec_defs]: "default_level = mk_level 0"

definition default_request :: MEClientRequest where
  [rec_defs]: "default_request =
   \<lparr>rq_client_id = 0, rq_client_order_id = 0, rq_new_client_order_id = 0, rq_price = 0,
    rq_ticker_id = 0, rq_qty = 0, rq_action = NEW, rq_type = GoodTillCancel, rq_side = BUY,
    rq_order_token = zero_token\<rparr>"

section \<open>Orders without their links\<close>

text \<open>The data of an order, apart from its position in a linked list.\<close>

definition unlinked :: "MEOrder \<Rightarrow> MEOrder" where
  "unlinked r = r\<lparr>mo_next := None, mo_prev := None\<rparr>"

lemma unlinked_sel [simp]:
  "mo_clientId (unlinked r) = mo_clientId r"
  "mo_clientOrderId (unlinked r) = mo_clientOrderId r"
  "mo_marketOrderId (unlinked r) = mo_marketOrderId r"
  "mo_price (unlinked r) = mo_price r"
  "mo_tickerId (unlinked r) = mo_tickerId r"
  "mo_initialQuantity (unlinked r) = mo_initialQuantity r"
  "mo_remainingQuantity (unlinked r) = mo_remainingQuantity r"
  "mo_orderType (unlinked r) = mo_orderType r"
  "mo_side (unlinked r) = mo_side r"
  "mo_order_token (unlinked r) = mo_order_token r"
  "mo_next (unlinked r) = None" "mo_prev (unlinked r) = None"
  by (simp_all add: unlinked_def)

lemma unlinked_update [simp]:
  "unlinked (r\<lparr>mo_next := n\<rparr>) = unlinked r"
  "unlinked (r\<lparr>mo_prev := n\<rparr>) = unlinked r"
  "unlinked (r\<lparr>mo_remainingQuantity := q\<rparr>) = (unlinked r)\<lparr>mo_remainingQuantity := q\<rparr>"
  "unlinked (unlinked r) = unlinked r"
  by (simp_all add: unlinked_def)

lemma unlinked_mk_order [simp]: "unlinked (mk_order t c k m ty p q s tok) = mk_order t c k m ty p q s tok"
  by (simp add: unlinked_def mk_order_def)

section \<open>The two sides of the market\<close>

fun opposite :: "Side \<Rightarrow> Side" where
  "opposite BUY = SELL"
| "opposite SELL = BUY"

text \<open>
  \<open>before s p q\<close>: on side \<open>s\<close> the price \<open>p\<close> is strictly better than \<open>q\<close>. This is the
  comparator of the side's map (\<^verbatim>\<open>std::greater\<close> for bids, \<^verbatim>\<open>std::less\<close> for asks).
\<close>

fun before :: "Side \<Rightarrow> Price \<Rightarrow> Price \<Rightarrow> bool" where
  "before BUY p q = (q < p)"
| "before SELL p q = (p < q)"

lemma opposite_opposite [simp]: "opposite (opposite s) = s"
  by (cases s) auto

lemma opposite_neq [simp]: "opposite s \<noteq> s" "s \<noteq> opposite s"
  by (cases s; simp)+

lemma before_irrefl [simp]: "\<not> before s p p"
  by (cases s) auto

lemma before_trans: "before s p q \<Longrightarrow> before s q r \<Longrightarrow> before s p r"
  by (cases s) auto

lemma before_linear: "before s p q \<or> p = q \<or> before s q p"
  by (cases s) auto

lemma before_asym: "before s p q \<Longrightarrow> \<not> before s q p"
  by (cases s) auto

lemma not_before_trans: "\<not> before s p q \<Longrightarrow> \<not> before s q r \<Longrightarrow> \<not> before s p r"
  by (cases s) auto

lemma not_before_before: "\<not> before s q p \<Longrightarrow> before s q r \<Longrightarrow> before s p r"
  by (cases s) auto

lemma before_not_before: "before s p q \<Longrightarrow> \<not> before s r q \<Longrightarrow> before s p r"
  by (cases s) auto

lemma before_opposite: "before (opposite s) p q \<longleftrightarrow> before s q p"
  by (cases s) auto

lemma Side_all: "(\<forall>s. P s) \<longleftrightarrow> P BUY \<and> P SELL"
  by (metis Side.exhaust)

end
