(* ===== verification/TokenManager.thy ===== *)
theory TokenManager
  imports Types
begin

text \<open>
  The registry of OUCH order tokens, \<^verbatim>\<open>src/src/network/gateway/token_manager.h\<close>. It hands out
  internal order ids 1, 2, 3 and so on, remembers per id the token, ticker and client, and per
  client the newest id of a token. The keys of the inner map are views into the table of
  tokens, which never moves, so the model stores the token itself.
\<close>

record token_info =
  ti_token :: OrderToken
  ti_tickerId :: TickerId
  ti_clientId :: ClientId

record OrderTokenManager =
  id_to_token :: "token_info list"
  token_to_id :: "(ClientId \<times> (OrderToken \<times> OrderId) list) list"
  next_internal_id :: OrderId

section \<open>The operations of the source\<close>

definition token_manager_init :: "nat \<Rightarrow> OrderTokenManager" where
  "token_manager_init sz =
    \<lparr>id_to_token = replicate (sz + 1) \<lparr>ti_token = zero_token, ti_tickerId = 0, ti_clientId = 0\<rparr>,
     token_to_id = [], next_internal_id = 1\<rparr>"

definition registerNewToken :: "ClientId \<Rightarrow> OrderToken \<Rightarrow> TickerId \<Rightarrow> OrderTokenManager \<Rightarrow>
    OrderId \<times> OrderTokenManager" where
  "registerNewToken client_id ouch_token tickerId m =
    (if unat (next_internal_id m) \<ge> length (id_to_token m) then (0, m)
     else
       let i = next_internal_id m;
           token = take OUCH_TOKEN_LEN ouch_token;
           slot = \<lparr>ti_token = token, ti_tickerId = tickerId, ti_clientId = client_id\<rparr>;
           tokens = (case map_of (token_to_id m) client_id of None \<Rightarrow> [] | Some ts \<Rightarrow> ts)
       in (i, m\<lparr>id_to_token := (id_to_token m)[unat i := slot],
                token_to_id := AList.update client_id (AList.update token i tokens) (token_to_id m),
                next_internal_id := i + 1\<rparr>))"

definition getID :: "ClientId \<Rightarrow> OrderToken \<Rightarrow> OrderTokenManager \<Rightarrow> OrderId" where
  "getID client_id ouch_token m =
    (case map_of (token_to_id m) client_id of
       None \<Rightarrow> 0
     | Some ts \<Rightarrow> (case map_of ts (take OUCH_TOKEN_LEN ouch_token) of None \<Rightarrow> 0 | Some i \<Rightarrow> i))"

definition getToken :: "OrderId \<Rightarrow> OrderTokenManager \<Rightarrow> OrderToken option" where
  "getToken internal_id m =
    (if internal_id > 0 \<and> internal_id < next_internal_id m
     then Some (ti_token (id_to_token m ! unat internal_id)) else None)"

section \<open>The invariant\<close>

text \<open>
  Ids are handed out below the size of the table, and every entry of the token maps names an
  id whose slot holds that client and token.
\<close>

definition tokens_ok :: "OrderTokenManager \<Rightarrow> bool" where
  "tokens_ok m \<longleftrightarrow> 0 < next_internal_id m \<and> unat (next_internal_id m) \<le> length (id_to_token m) \<and>
     length (id_to_token m) < 2 ^ 64 \<and>
     (\<forall>c ts tok i. map_of (token_to_id m) c = Some ts \<longrightarrow> map_of ts tok = Some i \<longrightarrow>
        0 < i \<and> i < next_internal_id m \<and> ti_token (id_to_token m ! unat i) = tok \<and>
        ti_clientId (id_to_token m ! unat i) = c)"

lemma tokens_init_ok: "sz + 1 < 2 ^ 64 \<Longrightarrow> tokens_ok (token_manager_init sz)"
  by (simp add: tokens_ok_def token_manager_init_def)

lemma getID_alt:
  "getID c tok m = (case Option.bind (map_of (token_to_id m) c) (\<lambda>ts. map_of ts (take OUCH_TOKEN_LEN tok)) of
     None \<Rightarrow> 0 | Some i \<Rightarrow> i)"
  by (simp add: getID_def split: option.split)

text \<open>Registering succeeds exactly while the table has room.\<close>

lemma register_cases:
  assumes ok: "tokens_ok m" and reg: "registerNewToken c tok tick m = (i, m')"
  shows "i = 0 \<and> m' = m \<and> unat (next_internal_id m) = length (id_to_token m) \<or>
    i = next_internal_id m \<and> 0 < i \<and> next_internal_id m' = i + 1 \<and> i < i + 1 \<and>
    unat (i + 1) \<le> length (id_to_token m)"
proof (cases "unat (next_internal_id m) \<ge> length (id_to_token m)")
  case True
  with assms show ?thesis by (auto simp: registerNewToken_def tokens_ok_def)
next
  case False
  let ?n = "next_internal_id m"
  have "Suc (unat ?n) < 2 ^ 64" using False ok by (simp add: tokens_ok_def)
  then have s: "unat (?n + 1) = Suc (unat ?n)" by (simp add: unat_word_ariths(1))
  with False ok reg show ?thesis
    by (auto simp: registerNewToken_def tokens_ok_def Let_def word_less_nat_alt)
qed

lemma register_ok:
  assumes ok: "tokens_ok m" and reg: "registerNewToken c tok tick m = (i, m')"
  shows "tokens_ok m'"
proof (cases "unat (next_internal_id m) \<ge> length (id_to_token m)")
  case True
  with reg ok show ?thesis by (auto simp: registerNewToken_def)
next
  case False
  let ?n = "next_internal_id m"
  have i: "i = ?n" "next_internal_id m' = ?n + 1" "?n < ?n + 1" "unat (?n + 1) \<le> length (id_to_token m)" "0 < ?n"
    using register_cases [OF assms] False ok by (auto simp: tokens_ok_def)
  have m': "m' = m\<lparr>id_to_token := (id_to_token m)[unat ?n := \<lparr>ti_token = take OUCH_TOKEN_LEN tok, ti_tickerId = tick, ti_clientId = c\<rparr>],
      token_to_id := AList.update c (AList.update (take OUCH_TOKEN_LEN tok) ?n
        (case map_of (token_to_id m) c of None \<Rightarrow> [] | Some ts \<Rightarrow> ts)) (token_to_id m), next_internal_id := ?n + 1\<rparr>"
    using reg False by (auto simp: registerNewToken_def Let_def)
  show ?thesis
    unfolding tokens_ok_def
  proof (intro conjI allI impI)
    show "0 < next_internal_id m'" using i by (simp add: i(2))
    show "unat (next_internal_id m') \<le> length (id_to_token m')" using i by (simp add: m')
    show "length (id_to_token m') < 2 ^ 64" using ok by (simp add: m' tokens_ok_def)
    fix c' ts tok' j assume ts: "map_of (token_to_id m') c' = Some ts" and j: "map_of ts tok' = Some j"
    have "j = ?n \<and> c' = c \<and> tok' = take OUCH_TOKEN_LEN tok \<or>
        (\<exists>ts'. map_of (token_to_id m) c' = Some ts' \<and> map_of ts' tok' = Some j)"
      using ts j by (auto simp: m' split: if_splits option.splits)
    then consider "j = ?n" "c' = c" "tok' = take OUCH_TOKEN_LEN tok"
      | "0 < j" "j < ?n" "ti_token (id_to_token m ! unat j) = tok'" "ti_clientId (id_to_token m ! unat j) = c'"
      using ok unfolding tokens_ok_def by blast
    then have "0 < j \<and> j < next_internal_id m' \<and> ti_token (id_to_token m' ! unat j) = tok' \<and>
      ti_clientId (id_to_token m' ! unat j) = c'"
    proof cases
      case 1
      then show ?thesis using i False by (simp add: m')
    next
      case 2
      then have "unat ?n \<noteq> unat j" "j < ?n + 1" using i(3) by (auto simp: word_less_nat_alt)
      with 2 show ?thesis by (simp add: m')
    qed
    then show "0 < j" "j < next_internal_id m'" "ti_token (id_to_token m' ! unat j) = tok'"
      "ti_clientId (id_to_token m' ! unat j) = c'" by blast+
  qed
qed

text \<open>The newest order of a token is found again, for this client only.\<close>

lemma getID_register:
  assumes "tokens_ok m" and "registerNewToken c tok tick m = (i, m')" and "i \<noteq> 0"
  shows "getID c' tok' m' =
    (if c' = c \<and> take OUCH_TOKEN_LEN tok' = take OUCH_TOKEN_LEN tok then i else getID c' tok' m)"
  using assms by (auto simp: registerNewToken_def getID_def Let_def split: if_splits option.split)

lemma getToken_register:
  assumes "tokens_ok m" and "registerNewToken c tok tick m = (i, m')" and "i \<noteq> 0"
  shows "getToken i m' = Some (take OUCH_TOKEN_LEN tok)" and "ti_tickerId (id_to_token m' ! unat i) = tick"
    and "getToken j m \<noteq> None \<Longrightarrow> getToken j m' = getToken j m"
proof -
  have i: "i = next_internal_id m" "0 < i" "next_internal_id m' = i + 1" "i < i + 1" "unat i < length (id_to_token m)"
    using register_cases [OF assms(1,2)] assms(2,3) by (auto simp: registerNewToken_def split: if_splits)
  have slot: "id_to_token m' = (id_to_token m)[unat i := \<lparr>ti_token = take OUCH_TOKEN_LEN tok, ti_tickerId = tick, ti_clientId = c\<rparr>]"
    using assms(2,3) i(1) by (auto simp: registerNewToken_def Let_def split: if_splits)
  show "getToken i m' = Some (take OUCH_TOKEN_LEN tok)" "ti_tickerId (id_to_token m' ! unat i) = tick"
    using i by (simp_all add: getToken_def slot)
  show "getToken j m \<noteq> None \<Longrightarrow> getToken j m' = getToken j m"
    using i by (auto simp: getToken_def slot nth_list_update word_less_nat_alt split: if_splits)
qed

text \<open>An id found for a client names an order that this client registered under this token.\<close>

lemma getID_owner:
  assumes "tokens_ok m" and "getID c tok m = i" and "i \<noteq> 0"
  shows "0 < i \<and> i < next_internal_id m \<and> unat i < length (id_to_token m) \<and>
    ti_clientId (id_to_token m ! unat i) = c \<and> getToken i m = Some (take OUCH_TOKEN_LEN tok)"
proof -
  obtain ts where ts: "map_of (token_to_id m) c = Some ts" "map_of ts (take OUCH_TOKEN_LEN tok) = Some i"
    using assms(2,3) by (auto simp: getID_def split: option.splits)
  then have "0 < i" "i < next_internal_id m" "ti_token (id_to_token m ! unat i) = take OUCH_TOKEN_LEN tok"
    "ti_clientId (id_to_token m ! unat i) = c"
    using assms(1) unfolding tokens_ok_def by blast+
  then show ?thesis using assms(1) by (auto simp: getToken_def tokens_ok_def word_less_nat_alt)
qed

end
