(* ===== verification/Ouch.thy ===== *)
theory Ouch
  imports TokenManager
begin

text \<open>
  Decoding of inbound OUCH messages and encoding of responses,
  \<^verbatim>\<open>src/src/network/protocol/ouch_processor.h\<close>. The message structs, their sizes, the byte-swap
  functions and the message type codes belong to the QuantLink library, which is not in the
  repository. They enter as the record \<open>ouch_lib\<close>: \<open>ol_enter\<close>, \<open>ol_cancel\<close> and \<open>ol_replace\<close> are the
  views \<^verbatim>\<open>reinterpret_cast\<close> gives of the bytes, \<open>ol_bytes\<close> is the memory image of an outbound
  struct. Fields hold the values stored in the struct, that is in network byte order.
\<close>

record EnterOrder =
  eo_order_token :: OrderToken
  eo_buy_sell_indicator :: char
  eo_shares :: uint32
  eo_stock :: uint64
  eo_price :: uint32
  eo_time_in_force :: uint32

record CancelOrder =
  co_order_token :: OrderToken
  co_shares :: uint32

record ReplaceOrder =
  ro_existing_order_token :: OrderToken
  ro_replacement_order_token :: OrderToken
  ro_shares :: uint32
  ro_price :: uint32
  ro_time_in_force :: uint32

text \<open>The outbound structs: type, timestamp and token first, then the fields the encoder sets.\<close>

datatype ouch_out =
  OrderAccepted (out_type: char) (out_timestamp: uint64) (out_token: OrderToken)
    (out_buy_sell: char) (out_shares: uint32) (out_stock: uint64) (out_price: uint32)
    (out_time_in_force: uint32) (out_order_reference: uint64)
| OrderExecuted (out_type: char) (out_timestamp: uint64) (out_token: OrderToken)
    (out_executed_shares: uint32) (out_execution_price: uint32) (out_match_number: uint64)
| OrderCanceled (out_type: char) (out_timestamp: uint64) (out_token: OrderToken)
    (out_decrement_shares: uint32) (out_reason: char)
| OrderReplaced (out_type: char) (out_timestamp: uint64) (out_token: OrderToken)
    (out_buy_sell: char) (out_shares: uint32) (out_stock: uint64) (out_price: uint32)
    (out_time_in_force: uint32) (out_order_reference: uint64)
| CancelRejected (out_type: char) (out_timestamp: uint64) (out_token: OrderToken)

record ouch_lib =
  ol_swap32 :: "uint32 \<Rightarrow> uint32"
  ol_swap64 :: "uint64 \<Rightarrow> uint64"
  ol_ENTER_ORDER :: char
  ol_CANCEL_ORDER :: char
  ol_REPLACE_ORDER :: char
  ol_ORDER_ACCEPTED :: char
  ol_ORDER_EXECUTED :: char
  ol_ORDER_CANCELED :: char
  ol_CANCEL_REJECTED :: char
  ol_enter :: "char list \<Rightarrow> EnterOrder"
  ol_cancel :: "char list \<Rightarrow> CancelOrder"
  ol_replace :: "char list \<Rightarrow> ReplaceOrder"
  ol_enter_shares :: "EnterOrder \<Rightarrow> Quantity"
  ol_cancel_shares :: "CancelOrder \<Rightarrow> Quantity"
  ol_replace_shares :: "ReplaceOrder \<Rightarrow> Quantity"
  ol_enter_size :: nat
  ol_cancel_size :: nat
  ol_replace_size :: nat
  ol_bytes :: "ouch_out \<Rightarrow> char list"

section \<open>The operations of the source\<close>

definition tif_type :: "ouch_lib \<Rightarrow> uint32 \<Rightarrow> OrderType" where
  "tif_type lib tif = (if ol_swap32 lib tif = 0 then FillAndKill else GoodTillCancel)"

text \<open>
  The result is the flag the source returns, the request and the token registry; \<open>None\<close> is a
  read outside the buffer or outside the table of tokens.
\<close>

definition decodeOuch :: "ouch_lib \<Rightarrow> char list \<Rightarrow> ClientId \<Rightarrow> OrderTokenManager \<Rightarrow>
    (bool \<times> MEClientRequest \<times> OrderTokenManager) option" where
  "decodeOuch lib data clientId m =
    (case data of
       [] \<Rightarrow> None
     | mssg_type # _ \<Rightarrow>
         let req = default_request\<lparr>rq_client_id := clientId\<rparr> in
         if mssg_type = ol_ENTER_ORDER lib then
           let msg = ol_enter lib data;
               req = req\<lparr>rq_action := NEW, rq_type := tif_type lib (eo_time_in_force msg),
                 rq_ticker_id := ucast (ol_swap64 lib (eo_stock msg))\<rparr>;
               (i, m) = registerNewToken clientId (eo_order_token msg) (rq_ticker_id req) m;
               req = req\<lparr>rq_client_order_id := i\<rparr>
           in if i = 0 then Some (False, req, m)
              else Some (True, req\<lparr>rq_order_token := take OUCH_TOKEN_LEN (eo_order_token msg),
                rq_side := (if eo_buy_sell_indicator msg = CHR ''B'' then BUY else SELL),
                rq_price := ucast (ol_swap32 lib (eo_price msg)), rq_qty := ol_enter_shares lib msg\<rparr>, m)
         else if mssg_type = ol_CANCEL_ORDER lib then
           let msg = ol_cancel lib data;
               i = getID clientId (co_order_token msg) m;
               req = req\<lparr>rq_action := CANCEL, rq_client_order_id := i\<rparr>
           in if i = 0 then Some (False, req, m)
              else if unat i < length (id_to_token m)
              then Some (True, req\<lparr>rq_order_token := take OUCH_TOKEN_LEN (co_order_token msg),
                rq_qty := ol_cancel_shares lib msg, rq_ticker_id := ti_tickerId (id_to_token m ! unat i)\<rparr>, m)
              else None
         else if mssg_type = ol_REPLACE_ORDER lib then
           let msg = ol_replace lib data;
               i = getID clientId (ro_existing_order_token msg) m;
               req = req\<lparr>rq_action := MODIFY, rq_qty := ol_replace_shares lib msg,
                 rq_price := ucast (ol_swap32 lib (ro_price msg)),
                 rq_type := tif_type lib (ro_time_in_force msg), rq_client_order_id := i\<rparr>
           in if i = 0 then Some (False, req, m)
              else if unat i < length (id_to_token m) then
                let req = req\<lparr>rq_ticker_id := ti_tickerId (id_to_token m ! unat i)\<rparr>;
                    (j, m) = registerNewToken clientId (ro_replacement_order_token msg) (rq_ticker_id req) m;
                    req = req\<lparr>rq_new_client_order_id := j\<rparr>
                in if j = 0 then Some (False, req, m)
                   else Some (True, req\<lparr>rq_order_token := take OUCH_TOKEN_LEN (ro_replacement_order_token msg)\<rparr>, m)
              else None
         else Some (False, req, m))"

definition side_char :: "Side \<Rightarrow> char" where
  "side_char s = (if s = BUY then CHR ''B'' else CHR ''S'')"

definition tif_field :: "ouch_lib \<Rightarrow> OrderType \<Rightarrow> uint32" where
  "tif_field lib ty = ol_swap32 lib (if ty = FillAndKill then 0 else 99998)"

definition encodeOuch :: "ouch_lib \<Rightarrow> MEClientResponse \<Rightarrow> uint64 \<Rightarrow> ouch_out" where
  "encodeOuch lib resp current_ts =
    (let token = take 14 (rs_order_token resp); ts = ol_swap64 lib current_ts in
     case rs_status resp of
       ACCEPTED \<Rightarrow> OrderAccepted (ol_ORDER_ACCEPTED lib) ts token (side_char (rs_side resp))
         (ol_swap32 lib (rs_qty resp)) (ol_swap64 lib (ucast (rs_ticker_id resp)))
         (ol_swap32 lib (ucast (rs_price resp))) (tif_field lib (rs_type resp))
         (ol_swap64 lib (rs_market_order_id resp))
     | EXECUTED \<Rightarrow> OrderExecuted (ol_ORDER_EXECUTED lib) ts token
         (ol_swap32 lib (rs_executed_qty resp)) (ol_swap32 lib (ucast (rs_execution_price resp)))
         (ol_swap64 lib (rs_match_id resp))
     | CANCELED \<Rightarrow> OrderCanceled (ol_ORDER_CANCELED lib) ts token
         (ol_swap32 lib (rs_leaves_qty resp)) (CHR ''U'')
     | MODIFIED \<Rightarrow> OrderReplaced (ol_REPLACE_ORDER lib) ts token (side_char (rs_side resp))
         (ol_swap32 lib (rs_qty resp)) (ol_swap64 lib (ucast (rs_ticker_id resp)))
         (ol_swap32 lib (ucast (rs_price resp))) (tif_field lib (rs_type resp))
         (ol_swap64 lib (rs_market_order_id resp))
     | CANCEL_REJECTED \<Rightarrow> CancelRejected (ol_CANCEL_REJECTED lib) ts token)"

section \<open>What the code relies on\<close>

text \<open>Byte swapping is its own inverse; the inbound message codes differ.\<close>

definition ouch_spec :: "ouch_lib \<Rightarrow> bool" where
  "ouch_spec lib \<longleftrightarrow> (\<forall>x. ol_swap32 lib (ol_swap32 lib x) = x) \<and> (\<forall>x. ol_swap64 lib (ol_swap64 lib x) = x) \<and>
     ol_swap32 lib 0 = 0 \<and>
     distinct [ol_ENTER_ORDER lib, ol_CANCEL_ORDER lib, ol_REPLACE_ORDER lib]"

section \<open>Decoding\<close>

text \<open>Decoding never reads outside the token table and keeps the registry's invariant.\<close>

lemma decode_ok:
  assumes ok: "tokens_ok m" and d: "data \<noteq> []"
  obtains flag req m' where "decodeOuch lib data c m = Some (flag, req, m')" and "tokens_ok m'"
    and "rq_client_id req = c"
proof -
  obtain t ds where D: "data = t # ds" using d by (cases data) auto
  have idx: "unat (getID c tok m) < length (id_to_token m)" if "getID c tok m \<noteq> 0" for tok
    using getID_owner [OF ok refl that] by blast
  have "\<exists>flag req m'. decodeOuch lib data c m = Some (flag, req, m') \<and> tokens_ok m' \<and> rq_client_id req = c"
    using ok idx
    by (auto simp: D decodeOuch_def Let_def default_request_def split: prod.splits intro: register_ok)
  then show ?thesis using that by blast
qed

text \<open>
  What a successful decode establishes: a new order gets the next internal id; a cancel or
  replace names an order that the same client registered under the given token, and is routed
  to that order's ticker.
\<close>

definition decode_result :: "ClientId \<Rightarrow> OrderTokenManager \<Rightarrow> MEClientRequest \<Rightarrow> OrderTokenManager \<Rightarrow> bool" where
  "decode_result c m req m' \<longleftrightarrow>
    (case rq_action req of
       NEW \<Rightarrow> rq_client_order_id req = next_internal_id m \<and> getID c (rq_order_token req) m' = next_internal_id m \<and>
         next_internal_id m' = next_internal_id m + 1
     | CANCEL \<Rightarrow> ti_clientId (id_to_token m ! unat (rq_client_order_id req)) = c \<and>
         getToken (rq_client_order_id req) m = Some (rq_order_token req) \<and>
         rq_ticker_id req = ti_tickerId (id_to_token m ! unat (rq_client_order_id req)) \<and> m' = m
     | MODIFY \<Rightarrow> ti_clientId (id_to_token m ! unat (rq_client_order_id req)) = c \<and>
         rq_client_order_id req < next_internal_id m \<and>
         rq_ticker_id req = ti_tickerId (id_to_token m ! unat (rq_client_order_id req)) \<and>
         rq_new_client_order_id req = next_internal_id m \<and>
         getID c (rq_order_token req) m' = next_internal_id m \<and> next_internal_id m' = next_internal_id m + 1)"

lemma decode_success:
  assumes ok: "tokens_ok m" and dec: "decodeOuch lib data c m = Some (True, req, m')"
  shows "decode_result c m req m'"
proof -
  have reg: "i = next_internal_id m \<and> next_internal_id m'' = next_internal_id m + 1 \<and>
      getID c (take OUCH_TOKEN_LEN tok) m'' = next_internal_id m"
    if "registerNewToken c tok tick m = (i, m'')" "i \<noteq> 0" for tok tick i m''
    using register_cases [OF ok that(1)] getID_register [OF ok that(1,2), of c "take OUCH_TOKEN_LEN tok"] that(2) by auto
  obtain t ds where D: "data = t # ds" using dec by (cases data) (auto simp: decodeOuch_def)
  have own: "ti_clientId (id_to_token m ! unat (getID c tok m)) = c" "getToken (getID c tok m) m = Some (take OUCH_TOKEN_LEN tok)"
    "getID c tok m < next_internal_id m" if "getID c tok m \<noteq> 0" for tok
    using getID_owner [OF ok refl that] by blast+
  show ?thesis
    using dec own unfolding D decodeOuch_def decode_result_def
    by (auto simp: Let_def default_request_def split: if_splits prod.splits dest: reg)
qed

section \<open>Encoding\<close>

text \<open>The client reads back the fields of the response; prices only if they fit in 32 bits.\<close>

lemma encode_executed:
  assumes "ouch_spec lib" and "rs_status resp = EXECUTED" and "unat (rs_execution_price resp) < 2 ^ 32"
  shows "ol_swap32 lib (out_executed_shares (encodeOuch lib resp ts)) = rs_executed_qty resp"
    and "ucast (ol_swap32 lib (out_execution_price (encodeOuch lib resp ts))) = rs_execution_price resp"
    and "ol_swap64 lib (out_match_number (encodeOuch lib resp ts)) = rs_match_id resp"
    and "out_token (encodeOuch lib resp ts) = take 14 (rs_order_token resp)"
proof -
  have "unat (rs_execution_price resp) mod 2 ^ 32 = unat (rs_execution_price resp)" using assms(3) by simp
  then have "(ucast (ucast (rs_execution_price resp) :: uint32) :: uint64) = rs_execution_price resp"
    by (simp add: word_unat_eq_iff unsigned_ucast_eq take_bit_eq_mod unat_mod_distrib)
  then show "ucast (ol_swap32 lib (out_execution_price (encodeOuch lib resp ts))) = rs_execution_price resp"
    using assms(1,2) by (simp add: encodeOuch_def Let_def ouch_spec_def)
qed (use assms in \<open>simp_all add: encodeOuch_def Let_def ouch_spec_def\<close>)

end
