(* ===== verification/Fifo.thy ===== *)
theory Fifo
  imports Types
begin

text \<open>
  The FIFO sequencer of the gateway, \<^verbatim>\<open>src/src/network/gateway/fifo_process.h\<close>: decoded requests
  are staged with their receive time, sorted, and pushed to the engine's queue; what the queue
  does not take is kept for a retry.

  Two things are parameters. \<^verbatim>\<open>std::sort\<close> does not say how it orders requests with equal times,
  so any function with \<open>sort_spec\<close> may stand for it. The queue \<^verbatim>\<open>SPSCQueue\<close> is outside the
  repository: \<open>push q r\<close> is \<open>None\<close> when the queue is full, and \<open>queue_spec\<close> says that a queue
  keeps what was pushed, in order.
\<close>

type_synonym RecvClientRequest = "nat \<times> MEClientRequest"

record 'q FifoNdProcess =
  pending_orders :: "RecvClientRequest list"
  pending_size :: nat
  pending_sorted :: bool
  fifo_requests :: 'q

definition sort_spec :: "(RecvClientRequest list \<Rightarrow> RecvClientRequest list) \<Rightarrow> bool" where
  "sort_spec srt \<longleftrightarrow> (\<forall>xs. mset (srt xs) = mset xs \<and> sorted (map fst (srt xs)))"

definition queue_spec :: "('q \<Rightarrow> MEClientRequest \<Rightarrow> 'q option) \<Rightarrow> ('q \<Rightarrow> MEClientRequest list) \<Rightarrow> bool" where
  "queue_spec push view \<longleftrightarrow> (\<forall>q r q'. push q r = Some q' \<longrightarrow> view q' = view q @ [r])"

section \<open>The operations of the source\<close>

definition fifo_init :: "nat \<Rightarrow> 'q \<Rightarrow> 'q FifoNdProcess" where
  "fifo_init max_pending q = \<lparr>pending_orders = replicate (max max_pending 1) (0, default_request),
     pending_size = 0, pending_sorted = True, fifo_requests = q\<rparr>"

definition addToPending :: "nat \<Rightarrow> MEClientRequest \<Rightarrow> 'q FifoNdProcess \<Rightarrow> bool \<times> 'q FifoNdProcess" where
  "addToPending time_nanos request s =
    (if pending_size s \<ge> length (pending_orders s) then (False, s)
     else (True, s\<lparr>pending_orders := (pending_orders s)[pending_size s := (time_nanos, request)],
                   pending_size := pending_size s + 1, pending_sorted := False\<rparr>))"

text \<open>The publishing loop: how many requests the queue took, and the queue afterwards.\<close>

fun push_loop :: "('q \<Rightarrow> MEClientRequest \<Rightarrow> 'q option) \<Rightarrow> RecvClientRequest list \<Rightarrow> 'q \<Rightarrow> nat \<times> 'q" where
  "push_loop push [] q = (0, q)"
| "push_loop push (x # xs) q =
    (case push q (snd x) of
       None \<Rightarrow> (0, q)
     | Some q' \<Rightarrow> (case push_loop push xs q' of (n, q'') \<Rightarrow> (n + 1, q'')))"

definition publishPendingOrders :: "(RecvClientRequest list \<Rightarrow> RecvClientRequest list) \<Rightarrow>
    ('q \<Rightarrow> MEClientRequest \<Rightarrow> 'q option) \<Rightarrow> 'q FifoNdProcess \<Rightarrow> 'q FifoNdProcess" where
  "publishPendingOrders srt push s =
    (if pending_size s = 0 then s
     else
       let n = pending_size s;
           v = (if pending_sorted s then pending_orders s
                else srt (take n (pending_orders s)) @ drop n (pending_orders s));
           (published, q) = push_loop push (take n v) (fifo_requests s);
           v = (if published = 0 then v else drop published (take n v) @ drop (n - published) v)
       in s\<lparr>pending_orders := v, pending_size := n - published, pending_sorted := True, fifo_requests := q\<rparr>)"

text \<open>The vector is doubled; that memory runs out is not modelled.\<close>

definition growPending :: "'q FifoNdProcess \<Rightarrow> 'q FifoNdProcess" where
  "growPending s = s\<lparr>pending_orders :=
     pending_orders s @ replicate (length (pending_orders s)) (0, default_request)\<rparr>"

text \<open>
  What the gateway does with a decoded request (\<^verbatim>\<open>OrderServer::onRecv\<close>): stage it; if the buffer is
  full publish and try again; if it is still full double the buffer. The flag is the value the
  final assertion checks.
\<close>

definition retainRequest :: "(RecvClientRequest list \<Rightarrow> RecvClientRequest list) \<Rightarrow>
    ('q \<Rightarrow> MEClientRequest \<Rightarrow> 'q option) \<Rightarrow> nat \<Rightarrow> MEClientRequest \<Rightarrow> 'q FifoNdProcess \<Rightarrow> bool \<times> 'q FifoNdProcess" where
  "retainRequest srt push t r s =
    (case addToPending t r s of
       (True, s) \<Rightarrow> (True, s)
     | (False, s) \<Rightarrow>
         (case addToPending t r (publishPendingOrders srt push s) of
            (True, s) \<Rightarrow> (True, s)
          | (False, s) \<Rightarrow> addToPending t r (growPending s)))"

section \<open>Invariant and contents\<close>

definition pending :: "'q FifoNdProcess \<Rightarrow> RecvClientRequest list" where
  "pending s = take (pending_size s) (pending_orders s)"

definition fifo_ok :: "'q FifoNdProcess \<Rightarrow> bool" where
  "fifo_ok s \<longleftrightarrow> pending_orders s \<noteq> [] \<and> pending_size s \<le> length (pending_orders s) \<and>
     (pending_sorted s \<longrightarrow> sorted (map fst (pending s)))"

lemma fifo_init_ok: "fifo_ok (fifo_init n q)" "pending (fifo_init n q) = []"
  by (auto simp: fifo_ok_def fifo_init_def pending_def)

lemma addToPending_cases:
  assumes "fifo_ok s" and "addToPending t r s = (ok, s')"
  shows "fifo_ok s'" and "fifo_requests s' = fifo_requests s"
    and "pending s' = (if ok then pending s @ [(t, r)] else pending s)"
    and "ok \<longleftrightarrow> pending_size s < length (pending_orders s)"
  using assms by (auto simp: addToPending_def fifo_ok_def pending_def take_Suc_conv_app_nth split: if_splits)

lemma push_loop_ok:
  assumes "queue_spec push view" and "push_loop push xs q = (n, q')"
  shows "n \<le> length xs \<and> view q' = view q @ map snd (take n xs)"
  using assms(2,1)
proof (induction push xs q arbitrary: n q' rule: push_loop.induct)
  case (2 push x xs q)
  show ?case
  proof (cases "push q (snd x)")
    case None
    with 2(2) show ?thesis by simp
  next
    case (Some q1)
    obtain k where k: "push_loop push xs q1 = (k, q')" "n = k + 1"
      using 2(2) Some by (auto split: prod.splits)
    have "view q1 = view q @ [snd x]" using 2(3) Some by (simp add: queue_spec_def)
    with 2(1) [OF Some k(1) 2(3)] k(2) show ?thesis by simp
  qed
qed simp

text \<open>
  \<open>moved view s out s'\<close>: from \<open>s\<close> to \<open>s'\<close> the requests \<open>out\<close> went to the queue, in this order, and
  those and the ones still pending are exactly the ones that were pending.
\<close>

definition moved :: "('q \<Rightarrow> MEClientRequest list) \<Rightarrow> 'q FifoNdProcess \<Rightarrow> RecvClientRequest list \<Rightarrow>
    'q FifoNdProcess \<Rightarrow> bool" where
  "moved view s out s' \<longleftrightarrow> view (fifo_requests s') = view (fifo_requests s) @ map snd out \<and>
     mset (out @ pending s') = mset (pending s)"

lemma publish_ok:
  assumes ok: "fifo_ok s" and srt: "sort_spec srt" and q: "queue_spec push view"
    and s': "s' = publishPendingOrders srt push s"
  shows "fifo_ok s'" and "\<exists>out. moved view s out s' \<and> sorted (map fst (out @ pending s'))"
    and "length (pending_orders s') = length (pending_orders s)"
proof -
  let ?n = "pending_size s"
  define v where "v = (if pending_sorted s then pending_orders s
    else srt (take ?n (pending_orders s)) @ drop ?n (pending_orders s))"
  define P where "P = take ?n v"
  have n: "?n \<le> length (pending_orders s)" using ok by (simp add: fifo_ok_def)
  have ls: "length (srt xs) = length xs" for xs
    using srt by (metis mset_eq_length sort_spec_def)
  have P: "mset P = mset (pending s)" "sorted (map fst P)" "length P = ?n" "length v = length (pending_orders s)"
    using ok srt n ls unfolding P_def v_def by (auto simp: pending_def fifo_ok_def sort_spec_def min_def)
  obtain k q' where kq: "push_loop push P (fifo_requests s) = (k, q')" by fastforce
  have k: "k \<le> ?n" "view q' = view (fifo_requests s) @ map snd (take k P)"
    using push_loop_ok [OF q kq] P(3) by auto
  define v' where "v' = (if k = 0 then v else drop k P @ drop (?n - k) v)"
  have lv': "length v' = length (pending_orders s)" using k(1) P(3,4) n by (auto simp: v'_def)
  have "fifo_ok s' \<and> moved view s (if ?n = 0 then [] else take k P) s' \<and>
    sorted (map fst ((if ?n = 0 then [] else take k P) @ pending s')) \<and> length (pending_orders s') = length (pending_orders s)"
  proof (cases "?n = 0")
    case True
    then have "s' = s" "pending s = []" by (simp_all add: s' publishPendingOrders_def pending_def)
    with ok True show ?thesis by (simp add: moved_def)
  next
    case False
    have S: "s' = s\<lparr>pending_orders := v', pending_size := ?n - k, pending_sorted := True, fifo_requests := q'\<rparr>"
      unfolding s' publishPendingOrders_def if_not_P [OF False] Let_def v_def [symmetric] P_def [symmetric] kq
        prod.case v'_def ..
    have pend: "pending s' = drop k P" using k(1) P(3) by (simp add: pending_def S v'_def P_def)
    have "sorted (map fst (take k P @ drop k P))" using P(2) by simp
    moreover have "mset (take k P @ drop k P) = mset (pending s)" using P(1) by simp
    moreover have "sorted (map fst (drop k P))" using P(2) sorted_wrt_drop [of "(\<le>)" "map fst P" k] by (simp add: drop_map)
    moreover have "v' \<noteq> []" using lv' ok by (auto simp: fifo_ok_def)
    ultimately show ?thesis
      using k False lv' n unfolding fifo_ok_def moved_def pend by (simp add: S)
  qed
  then show "fifo_ok s'" "\<exists>out. moved view s out s' \<and> sorted (map fst (out @ pending s'))"
    "length (pending_orders s') = length (pending_orders s)" by blast+
qed

text \<open>When the queue takes everything, nothing stays behind.\<close>

lemma push_loop_all: "(\<And>q r. push q r \<noteq> None) \<Longrightarrow> fst (push_loop push xs q) = length xs"
proof (induction push xs q rule: push_loop.induct)
  case (2 push x xs q)
  then obtain q1 where q1: "push q (snd x) = Some q1" by blast
  with 2 show ?case by (simp split: prod.split) (metis fst_conv)
qed simp

lemma growPending_ok:
  assumes "fifo_ok s"
  shows "fifo_ok (growPending s)" and "pending (growPending s) = pending s"
    and "pending_size (growPending s) < length (pending_orders (growPending s))"
  using assms by (auto simp: fifo_ok_def growPending_def pending_def Suc_le_eq intro: le_less_trans)

text \<open>A decoded request is never lost: the assertion in the gateway cannot fail.\<close>

lemma retain_ok:
  assumes ok: "fifo_ok s" and srt: "sort_spec srt" and q: "queue_spec push view"
    and r: "retainRequest srt push t r s = (flag, s')"
  shows "flag" and "fifo_ok s'"
    and "\<exists>out. view (fifo_requests s') = view (fifo_requests s) @ map snd out \<and>
      mset (out @ pending s') = add_mset (t, r) (mset (pending s))"
proof -
  let ?s1 = "publishPendingOrders srt push s"
  obtain out where out: "moved view s out ?s1" and ok1: "fifo_ok ?s1"
    using publish_ok [OF ok srt q refl] by blast
  obtain a sa where a: "addToPending t r s = (a, sa)" by fastforce
  obtain b sb where b: "addToPending t r ?s1 = (b, sb)" by fastforce
  obtain c sc where c: "addToPending t r (growPending ?s1) = (c, sc)" by fastforce
  note A = addToPending_cases [OF ok a] and B = addToPending_cases [OF ok1 b]
    and C = addToPending_cases [OF growPending_ok(1) [OF ok1] c]
  have sa: "\<not> a \<Longrightarrow> sa = s" and sb: "\<not> b \<Longrightarrow> sb = ?s1"
    using a b by (auto simp: addToPending_def split: if_splits)
  have c: "c" using C(4) growPending_ok(3) [OF ok1] by simp
  have R: "(flag, s') = (if a then (True, sa) else if b then (True, sb) else (True, sc))"
    using r a b c \<open>addToPending t r (growPending ?s1) = (c, sc)\<close> sa sb by (auto simp: retainRequest_def)
  show "flag" "fifo_ok s'" using R A(1) B(1) C(1) by (auto split: if_splits)
  have pg: "pending (growPending ?s1) = pending ?s1" "fifo_requests (growPending ?s1) = fifo_requests ?s1"
    using growPending_ok(2) [OF ok1] by (simp_all add: growPending_def)
  show "\<exists>out. view (fifo_requests s') = view (fifo_requests s) @ map snd out \<and>
      mset (out @ pending s') = add_mset (t, r) (mset (pending s))"
  proof (cases a)
    case True
    with R A show ?thesis by (intro exI [of _ "[]"]) simp
  next
    case False
    with R B C c pg out show ?thesis by (intro exI [of _ out]) (auto simp: moved_def split: if_splits)
  qed
qed

end
