(* ===== verification/OrderServer.thy ===== *)
theory OrderServer
  imports Machine Ouch Fifo
begin

text \<open>
  The order gateway, \<^verbatim>\<open>src/src/network/gateway/order_server.h\<close>: one thread that frames and decodes
  the bytes of each client connection, stages the requests in the sequencer, and routes the
  engine's responses back. The TCP server is outside the repository; a socket is its address
  and file descriptor, and its inbound buffer is the list of its valid bytes. What the gateway
  hands to \<^verbatim>\<open>TCPSocket::send\<close> is a log.
\<close>

type_synonym TCPSocket = "nat \<times> int"

record 'q OrderServer =
  fdToClientId :: "(int \<times> ClientId) list"
  clientToSocket :: "(ClientId \<times> TCPSocket) list"
  nextClientId :: ClientId
  tokenManager :: OrderTokenManager
  os_fifo :: "'q FifoNdProcess"
  inbound_data :: "nat \<Rightarrow> char list"
  os_sent :: "(TCPSocket \<times> ouch_out) list"

section \<open>The operations of the source\<close>

definition order_server_init :: "nat \<Rightarrow> nat \<Rightarrow> 'q \<Rightarrow> 'q OrderServer" where
  "order_server_init fifoPending tokenPoolSz q =
    \<lparr>fdToClientId = [], clientToSocket = [], nextClientId = 1,
     tokenManager = token_manager_init tokenPoolSz, os_fifo = fifo_init fifoPending q,
     inbound_data = (\<lambda>_. []), os_sent = []\<rparr>"

definition ouchMsgSize :: "ouch_lib \<Rightarrow> char \<Rightarrow> nat" where
  "ouchMsgSize lib t =
    (if t = ol_ENTER_ORDER lib then ol_enter_size lib
     else if t = ol_CANCEL_ORDER lib then ol_cancel_size lib
     else if t = ol_REPLACE_ORDER lib then ol_replace_size lib
     else 0)"

definition registerClient :: "TCPSocket \<Rightarrow> 'q OrderServer \<Rightarrow> 'q OrderServer" where
  "registerClient socket s =
    (let cid = nextClientId s in
     s\<lparr>nextClientId := cid + 1,
       fdToClientId := AList.update (snd socket) cid (fdToClientId s),
       clientToSocket := AList.update cid socket (clientToSocket s)\<rparr>)"

definition onDisconnect :: "TCPSocket \<Rightarrow> 'q OrderServer \<Rightarrow> 'q OrderServer" where
  "onDisconnect socket s =
    (case map_of (fdToClientId s) (snd socket) of
       None \<Rightarrow> s
     | Some client_id \<Rightarrow>
         s\<lparr>clientToSocket := AList.delete client_id (clientToSocket s),
           fdToClientId := AList.delete (snd socket) (fdToClientId s)\<rparr>)"

text \<open>
  The framing loop of \<^verbatim>\<open>onRecv\<close>. Its argument is the unprocessed part of the buffer, \<^verbatim>\<open>data + offset\<close>
  up to \<^verbatim>\<open>bufLen\<close>; it returns what is left for the next call. \<open>None\<close> is undefined behaviour or a
  failed assertion.
\<close>

function recv_loop :: "ouch_lib \<Rightarrow> (RecvClientRequest list \<Rightarrow> RecvClientRequest list) \<Rightarrow>
    ('q \<Rightarrow> MEClientRequest \<Rightarrow> 'q option) \<Rightarrow> ClientId \<Rightarrow> nat \<Rightarrow> char list \<Rightarrow>
    OrderTokenManager \<times> 'q FifoNdProcess \<Rightarrow> (char list \<times> OrderTokenManager \<times> 'q FifoNdProcess) option" where
  "recv_loop lib srt push cid kernel_time data S =
    (case data of
       [] \<Rightarrow> Some ([], S)
     | msgType # tail \<Rightarrow>
         let msgLen = ouchMsgSize lib msgType in
         if msgLen = 0 then recv_loop lib srt push cid kernel_time tail S
         else if length data < msgLen then Some (data, S)
         else do {
           (ok, req, m) \<leftarrow> decodeOuch lib data cid (fst S);
           (if ok then
              (case retainRequest srt push kernel_time req (snd S) of (added, f) \<Rightarrow>
                 if added then recv_loop lib srt push cid kernel_time (drop msgLen data) (m, f) else None)
            else recv_loop lib srt push cid kernel_time (drop msgLen data) (m, snd S))
         })"
  by pat_completeness auto
termination
  by (relation "measure (\<lambda>(lib, srt, push, cid, t, data, S). length data)") auto

definition onRecv :: "ouch_lib \<Rightarrow> (RecvClientRequest list \<Rightarrow> RecvClientRequest list) \<Rightarrow>
    ('q \<Rightarrow> MEClientRequest \<Rightarrow> 'q option) \<Rightarrow> TCPSocket \<Rightarrow> nat \<Rightarrow> 'q OrderServer \<Rightarrow> 'q OrderServer option" where
  "onRecv lib srt push socket kernel_time s = do {
     let s = (if map_of (fdToClientId s) (snd socket) = None then registerClient socket s else s);
     cid \<leftarrow> map_of (fdToClientId s) (snd socket);
     (rest, m, f) \<leftarrow> recv_loop lib srt push cid kernel_time (inbound_data s (fst socket)) (tokenManager s, os_fifo s);
     Some (s\<lparr>tokenManager := m, os_fifo := f, inbound_data := (inbound_data s)(fst socket := rest)\<rparr>)
   }"

definition onRecvFinished :: "(RecvClientRequest list \<Rightarrow> RecvClientRequest list) \<Rightarrow>
    ('q \<Rightarrow> MEClientRequest \<Rightarrow> 'q option) \<Rightarrow> 'q OrderServer \<Rightarrow> 'q OrderServer" where
  "onRecvFinished srt push s = s\<lparr>os_fifo := publishPendingOrders srt push (os_fifo s)\<rparr>"

text \<open>
  \<^verbatim>\<open>drainResponses\<close>, over the responses the queue holds when it is called, each with the clock
  reading taken for it. A response is sent when its client is connected and its encoding is
  not empty.
\<close>

fun drainResponses :: "ouch_lib \<Rightarrow> (MEClientResponse \<times> uint64) list \<Rightarrow> 'q OrderServer \<Rightarrow> 'q OrderServer" where
  "drainResponses lib [] s = s"
| "drainResponses lib ((resp, now) # rs) s =
    (case map_of (clientToSocket s) (rs_client_id resp) of
       None \<Rightarrow> drainResponses lib rs s
     | Some socket \<Rightarrow>
         let msg = encodeOuch lib resp now in
         if length (ol_bytes lib msg) > 0
         then drainResponses lib rs (s\<lparr>os_sent := os_sent s @ [(socket, msg)]\<rparr>)
         else drainResponses lib rs s)"

text \<open>
  The loop of \<^verbatim>\<open>run\<close>. In each turn the gateway drains the responses, retries the pending requests
  and lets the TCP server poll; the server calls back for each connection that delivered bytes
  (they are appended to the connection's buffer before the call), once after a round of reads,
  and for each lost connection (whose socket object it then destroys). A turn is the responses
  with their clock readings and the callbacks the server made.
\<close>

datatype gw_event =
  DrainResponses "(MEClientResponse \<times> uint64) list"
| PublishPending
| ServerRecv TCPSocket nat "char list"
| ServerRecvFinished
| ServerDisconnect TCPSocket

definition gw_step :: "ouch_lib \<Rightarrow> (RecvClientRequest list \<Rightarrow> RecvClientRequest list) \<Rightarrow>
    ('q \<Rightarrow> MEClientRequest \<Rightarrow> 'q option) \<Rightarrow> gw_event \<Rightarrow> 'q OrderServer \<Rightarrow> 'q OrderServer option" where
  "gw_step lib srt push e s =
    (case e of
       DrainResponses rs \<Rightarrow> Some (drainResponses lib rs s)
     | PublishPending \<Rightarrow> Some (s\<lparr>os_fifo := publishPendingOrders srt push (os_fifo s)\<rparr>)
     | ServerRecv socket kernel_time bytes \<Rightarrow>
         onRecv lib srt push socket kernel_time
           (s\<lparr>inbound_data := (inbound_data s)(fst socket := inbound_data s (fst socket) @ bytes)\<rparr>)
     | ServerRecvFinished \<Rightarrow> Some (onRecvFinished srt push s)
     | ServerDisconnect socket \<Rightarrow>
         Some ((onDisconnect socket s)\<lparr>inbound_data := (inbound_data s)(fst socket := [])\<rparr>))"

definition server_callback :: "gw_event \<Rightarrow> bool" where
  "server_callback e \<longleftrightarrow> (case e of DrainResponses _ \<Rightarrow> False | PublishPending \<Rightarrow> False | _ \<Rightarrow> True)"

fun order_server_run :: "ouch_lib \<Rightarrow> (RecvClientRequest list \<Rightarrow> RecvClientRequest list) \<Rightarrow>
    ('q \<Rightarrow> MEClientRequest \<Rightarrow> 'q option) \<Rightarrow> ((MEClientResponse \<times> uint64) list \<times> gw_event list) list \<Rightarrow>
    'q OrderServer \<Rightarrow> 'q OrderServer option" where
  "order_server_run lib srt push [] s = Some s"
| "order_server_run lib srt push ((rs, callbacks) # turns) s = do {
     let s = drainResponses lib rs s;
     let s = s\<lparr>os_fifo := publishPendingOrders srt push (os_fifo s)\<rparr>;
     s \<leftarrow> steps (gw_step lib srt push) callbacks s;
     order_server_run lib srt push turns s
   }"

definition turn_events :: "(MEClientResponse \<times> uint64) list \<times> gw_event list \<Rightarrow> gw_event list" where
  "turn_events t = DrainResponses (fst t) # PublishPending # snd t"

lemma gw_step_simps:
  "gw_step lib srt push (DrainResponses rs) s = Some (drainResponses lib rs s)"
  "gw_step lib srt push PublishPending s = Some (s\<lparr>os_fifo := publishPendingOrders srt push (os_fifo s)\<rparr>)"
  by (simp_all add: gw_step_def)

lemma order_server_run_steps:
  "order_server_run lib srt push turns s = steps (gw_step lib srt push) (concat (map turn_events turns)) s"
proof (induction turns arbitrary: s)
  case (Cons t turns)
  then show ?case
    by (cases t) (simp add: turn_events_def steps_append Let_def gw_step_simps cong: Option.bind_cong)
qed simp

section \<open>Connections\<close>

text \<open>
  The two connection tables describe the same connections, a client id belongs to one
  connection, and ids are not reused.
\<close>

definition client_fd :: "'q OrderServer \<Rightarrow> ClientId \<Rightarrow> int option" where
  "client_fd s c = map_option snd (map_of (clientToSocket s) c)"

definition mutual :: "('a \<Rightarrow> 'b option) \<Rightarrow> ('b \<Rightarrow> 'a option) \<Rightarrow> bool" where
  "mutual F G \<longleftrightarrow> (\<forall>x y. F x = Some y \<longleftrightarrow> G y = Some x)"

definition conns_ok :: "'q OrderServer \<Rightarrow> bool" where
  "conns_ok s \<longleftrightarrow> mutual (map_of (fdToClientId s)) (client_fd s) \<and>
     (\<forall>c. client_fd s c \<noteq> None \<longrightarrow> c < nextClientId s)"

lemma conns_ok_cong:
  assumes "clientToSocket s' = clientToSocket s" and "fdToClientId s' = fdToClientId s" and "nextClientId s' = nextClientId s"
  shows "conns_ok s' = conns_ok s"
proof -
  have "client_fd s' = client_fd s" by (simp add: client_fd_def fun_eq_iff assms(1))
  with assms show ?thesis by (simp add: conns_ok_def)
qed

lemma conns_ok_update [simp]:
  "conns_ok (s\<lparr>os_fifo := f\<rparr>) = conns_ok s" "conns_ok (s\<lparr>inbound_data := d\<rparr>) = conns_ok s"
  "conns_ok (s\<lparr>tokenManager := m\<rparr>) = conns_ok s"
  by (rule conns_ok_cong; simp)+

lemma mutual_upd: "mutual F G \<Longrightarrow> F x = None \<Longrightarrow> G y = None \<Longrightarrow> mutual (F(x \<mapsto> y)) (G(y \<mapsto> x))"
  unfolding mutual_def fun_upd_apply by (metis option.inject option.distinct(1))

lemma mutual_del: "mutual F G \<Longrightarrow> F x = Some y \<Longrightarrow> mutual (F(x := None)) (G(y := None))"
  unfolding mutual_def fun_upd_apply by (metis option.inject option.distinct(1))

lemma conns_init: "conns_ok (order_server_init n m q)"
  by (simp add: conns_ok_def mutual_def client_fd_def order_server_init_def)

lemma registerClient_ok:
  assumes ok: "conns_ok s" and new: "map_of (fdToClientId s) (snd sk) = None" and room: "nextClientId s < nextClientId s + 1"
  shows "conns_ok (registerClient sk s)"
proof -
  have "client_fd s (nextClientId s) = None" using ok unfolding conns_ok_def by (metis less_irrefl)
  with ok new have "mutual ((map_of (fdToClientId s))(snd sk \<mapsto> nextClientId s)) ((client_fd s)(nextClientId s \<mapsto> snd sk))"
    by (intro mutual_upd) (simp_all add: conns_ok_def)
  moreover have "client_fd (registerClient sk s) = (client_fd s)(nextClientId s \<mapsto> snd sk)"
    by (auto simp: client_fd_def registerClient_def Let_def fun_eq_iff)
  moreover have "c < nextClientId s + 1" if "client_fd s c \<noteq> None" for c
    using ok room that unfolding conns_ok_def by (meson order_less_trans)
  ultimately show ?thesis using room by (simp add: conns_ok_def registerClient_def Let_def)
qed

lemma onDisconnect_ok:
  assumes ok: "conns_ok s"
  shows "conns_ok (onDisconnect sk s)" and "map_of (fdToClientId (onDisconnect sk s)) (snd sk) = None"
proof -
  show "map_of (fdToClientId (onDisconnect sk s)) (snd sk) = None"
    by (simp add: onDisconnect_def split: option.split)
  show "conns_ok (onDisconnect sk s)"
  proof (cases "map_of (fdToClientId s) (snd sk)")
    case None
    with ok show ?thesis by (simp add: onDisconnect_def)
  next
    case (Some c)
    with ok have "mutual ((map_of (fdToClientId s))(snd sk := None)) ((client_fd s)(c := None))"
      by (intro mutual_del) (simp_all add: conns_ok_def)
    moreover have "client_fd (onDisconnect sk s) = (client_fd s)(c := None)"
      using Some by (auto simp: client_fd_def onDisconnect_def fun_eq_iff)
    ultimately show ?thesis using Some ok by (simp add: conns_ok_def onDisconnect_def)
  qed
qed

text \<open>A socket serves one client.\<close>

lemma client_of_socket:
  assumes "conns_ok s" and "map_of (clientToSocket s) c = Some sk" and "map_of (clientToSocket s) c' = Some sk"
  shows "c' = c"
proof -
  have "client_fd s c = Some (snd sk)" "client_fd s c' = Some (snd sk)" using assms(2,3) by (simp_all add: client_fd_def)
  then show ?thesis using assms(1) unfolding conns_ok_def mutual_def by (metis option.inject)
qed

section \<open>Responses\<close>

lemma drain_sent:
  "os_sent (drainResponses lib rs s) = os_sent s @
     concat (map (\<lambda>(resp, now). case map_of (clientToSocket s) (rs_client_id resp) of
         None \<Rightarrow> []
       | Some socket \<Rightarrow> if ol_bytes lib (encodeOuch lib resp now) = [] then [] else [(socket, encodeOuch lib resp now)]) rs)"
  by (induction lib rs s rule: drainResponses.induct) (auto simp: Let_def split: option.splits)

lemma drain_state:
  "clientToSocket (drainResponses lib rs s) = clientToSocket s"
  "fdToClientId (drainResponses lib rs s) = fdToClientId s"
  "nextClientId (drainResponses lib rs s) = nextClientId s"
  "os_fifo (drainResponses lib rs s) = os_fifo s"
  "tokenManager (drainResponses lib rs s) = tokenManager s"
  by (induction lib rs s rule: drainResponses.induct) (auto simp: Let_def split: option.splits)

lemma drain_conns [simp]: "conns_ok (drainResponses lib rs s) = conns_ok s"
  by (rule conns_ok_cong) (rule drain_state)+

section \<open>Framing\<close>

text \<open>
  The reference for the framing loop: cut the byte stream into messages, decode each, and list
  the requests. A struct view reads only the bytes of its struct (\<open>lib_local\<close>).
\<close>

function gw_decode :: "ouch_lib \<Rightarrow> ClientId \<Rightarrow> char list \<Rightarrow> OrderTokenManager \<Rightarrow>
    (char list \<times> OrderTokenManager \<times> MEClientRequest list) option" where
  "gw_decode lib cid data m =
    (case data of
       [] \<Rightarrow> Some ([], m, [])
     | t # tail \<Rightarrow>
         let n = ouchMsgSize lib t in
         if n = 0 then gw_decode lib cid tail m
         else if length data < n then Some (data, m, [])
         else do {
           (ok, req, m) \<leftarrow> decodeOuch lib data cid m;
           (rest, m, rs) \<leftarrow> gw_decode lib cid (drop n data) m;
           Some (rest, m, if ok then req # rs else rs)
         })"
  by pat_completeness auto
termination
  by (relation "measure (\<lambda>(lib, cid, data, m). length data)") auto

declare recv_loop.simps [simp del] gw_decode.simps [simp del]

text \<open>The loop by what it finds at the front: nothing, an unknown type, an incomplete message, a message.\<close>

lemma framing_induct [case_names none unknown short message]:
  assumes "P []" and "\<And>c ds. ouchMsgSize lib c = 0 \<Longrightarrow> P ds \<Longrightarrow> P (c # ds)"
    and "\<And>c ds. ouchMsgSize lib c \<noteq> 0 \<Longrightarrow> length (c # ds) < ouchMsgSize lib c \<Longrightarrow> P (c # ds)"
    and "\<And>c ds. ouchMsgSize lib c \<noteq> 0 \<Longrightarrow> ouchMsgSize lib c \<le> length (c # ds) \<Longrightarrow> P (drop (ouchMsgSize lib c) (c # ds)) \<Longrightarrow> P (c # ds)"
  shows "P data"
proof (induction "length data" arbitrary: data rule: less_induct)
  case less
  show ?case
  proof (cases data)
    case (Cons c ds)
    have shorter: "length (drop (ouchMsgSize lib c) data) < length data" if "ouchMsgSize lib c \<noteq> 0" using that Cons by simp
    consider "ouchMsgSize lib c = 0" | "ouchMsgSize lib c \<noteq> 0" "length data < ouchMsgSize lib c"
      | "ouchMsgSize lib c \<noteq> 0" "ouchMsgSize lib c \<le> length data" by linarith
    then show ?thesis using assms(2-4) [of c ds] less [of ds] less [OF shorter] unfolding Cons by cases auto
  qed (simp add: assms(1))
qed

lemma recv_loop_steps:
  "recv_loop lib srt push cid t [] S = Some ([], S)"
  "ouchMsgSize lib c = 0 \<Longrightarrow> recv_loop lib srt push cid t (c # ds) S = recv_loop lib srt push cid t ds S"
  "ouchMsgSize lib c \<noteq> 0 \<Longrightarrow> length (c # ds) < ouchMsgSize lib c \<Longrightarrow> recv_loop lib srt push cid t (c # ds) S = Some (c # ds, S)"
  by (subst recv_loop.simps, simp)+

lemma gw_decode_steps:
  "gw_decode lib cid [] m = Some ([], m, [])"
  "ouchMsgSize lib c = 0 \<Longrightarrow> gw_decode lib cid (c # ds) m = gw_decode lib cid ds m"
  "ouchMsgSize lib c \<noteq> 0 \<Longrightarrow> length (c # ds) < ouchMsgSize lib c \<Longrightarrow> gw_decode lib cid (c # ds) m = Some (c # ds, m, [])"
  "ouchMsgSize lib c \<noteq> 0 \<Longrightarrow> ouchMsgSize lib c \<le> length (c # ds) \<Longrightarrow> gw_decode lib cid (c # ds) m = do {
     (ok, req, m) \<leftarrow> decodeOuch lib (c # ds) cid m;
     (rest, m, rs) \<leftarrow> gw_decode lib cid (drop (ouchMsgSize lib c) (c # ds)) m;
     Some (rest, m, if ok then req # rs else rs)}"
  by (subst gw_decode.simps, simp add: Let_def)+

text \<open>A message: it is decoded and, if valid, retained.\<close>

lemma recv_loop_message:
  assumes "ouchMsgSize lib c \<noteq> 0" and "ouchMsgSize lib c \<le> length (c # ds)"
  shows "recv_loop lib srt push cid t (c # ds) (m, f) = do {
    (ok, req, m1) \<leftarrow> decodeOuch lib (c # ds) cid m;
    let (added, f1) = (if ok then retainRequest srt push t req f else (True, f));
    if added then recv_loop lib srt push cid t (drop (ouchMsgSize lib c) (c # ds)) (m1, f1) else None}"
  using assms by (subst recv_loop.simps) (auto simp: Let_def intro!: Option.bind_cong split: prod.split)

definition lib_local :: "ouch_lib \<Rightarrow> bool" where
  "lib_local lib \<longleftrightarrow>
     (\<forall>d e. length d \<ge> ol_enter_size lib \<longrightarrow> ol_enter lib (d @ e) = ol_enter lib d) \<and>
     (\<forall>d e. length d \<ge> ol_cancel_size lib \<longrightarrow> ol_cancel lib (d @ e) = ol_cancel lib d) \<and>
     (\<forall>d e. length d \<ge> ol_replace_size lib \<longrightarrow> ol_replace lib (d @ e) = ol_replace lib d)"

lemma decode_local:
  assumes "lib_local lib" and "ouchMsgSize lib t \<le> length (t # ds)"
  shows "decodeOuch lib (t # ds @ e) c m = decodeOuch lib (t # ds) c m"
proof -
  have "t = ol_ENTER_ORDER lib \<Longrightarrow> ol_enter lib ((t # ds) @ e) = ol_enter lib (t # ds)"
    "t \<noteq> ol_ENTER_ORDER lib \<Longrightarrow> t = ol_CANCEL_ORDER lib \<Longrightarrow> ol_cancel lib ((t # ds) @ e) = ol_cancel lib (t # ds)"
    "t \<noteq> ol_ENTER_ORDER lib \<Longrightarrow> t \<noteq> ol_CANCEL_ORDER lib \<Longrightarrow> t = ol_REPLACE_ORDER lib \<Longrightarrow>
      ol_replace lib ((t # ds) @ e) = ol_replace lib (t # ds)"
    using assms unfolding lib_local_def ouchMsgSize_def by simp_all (simp_all flip: append_Cons)
  then show ?thesis
    by (cases "t = ol_ENTER_ORDER lib"; cases "t = ol_CANCEL_ORDER lib"; cases "t = ol_REPLACE_ORDER lib")
      (simp_all add: decodeOuch_def)
qed

text \<open>How the stream is cut into reads does not matter.\<close>

lemma gw_decode_append:
  assumes "lib_local lib"
  shows "gw_decode lib cid (d @ e) m = do {
      (rest, m1, rs1) \<leftarrow> gw_decode lib cid d m;
      (rest', m2, rs2) \<leftarrow> gw_decode lib cid (rest @ e) m1;
      Some (rest', m2, rs1 @ rs2)
    }"
proof (induction d arbitrary: m rule: framing_induct [where lib = lib])
  case none
  then show ?case by (cases "gw_decode lib cid e m") (auto simp: gw_decode_steps)
next
  case (unknown c ds)
  then show ?case by (simp add: gw_decode_steps)
next
  case (short c ds)
  then show ?case by (cases "gw_decode lib cid ((c # ds) @ e) m") (auto simp: gw_decode_steps)
next
  case (message c ds)
  let ?n = "ouchMsgSize lib c" and ?d = "c # ds"
  have dec: "decodeOuch lib (?d @ e) cid m = decodeOuch lib ?d cid m"
    using decode_local [OF assms, of c ds] message(1,2) by simp
  have dr: "drop ?n (?d @ e) = drop ?n ?d @ e" using message(2) by (simp only: drop_append) simp
  have step: "gw_decode lib cid (?d @ x) m = do {
      (ok, req, m) \<leftarrow> decodeOuch lib (?d @ x) cid m;
      (rest, m, rs) \<leftarrow> gw_decode lib cid (drop ?n (?d @ x)) m;
      Some (rest, m, if ok then req # rs else rs)}" for x
    using message(1,2) gw_decode_steps(4) [of lib c "ds @ x"] by simp
  show ?case
  proof (cases "decodeOuch lib ?d cid m")
    case None
    with step [of e] step [of "[]"] dec show ?thesis by simp
  next
    case (Some x)
    obtain ok req m' where x: "x = (ok, req, m')" by (cases x)
    from message(3) [of m'] step [of e] step [of "[]"] Some dec dr show ?thesis
      by (auto simp: x split: Option.bind_splits)
  qed
qed

text \<open>
  The framing loop never runs into undefined behaviour, and the requests it decodes are exactly
  those of the reference: each goes to the engine's queue or stays pending, none is lost.
\<close>

lemma recv_loop_ok:
  assumes "tokens_ok m" and "fifo_ok f" and srt: "sort_spec srt" and q: "queue_spec push view"
  shows "\<exists>rest m' rs f' out. gw_decode lib cid data m = Some (rest, m', rs) \<and>
    recv_loop lib srt push cid t data (m, f) = Some (rest, m', f') \<and> tokens_ok m' \<and> fifo_ok f' \<and>
    view (fifo_requests f') = view (fifo_requests f) @ map snd out \<and>
    mset (out @ pending f') = mset (pending f) + mset (map (Pair t) rs)"
  using assms(1,2)
proof (induction data arbitrary: m f rule: framing_induct [where lib = lib])
  case none
  then show ?case by (intro exI [of _ "[]"] exI [of _ m] exI [of _ f]) (simp add: gw_decode_steps recv_loop_steps)
next
  case (unknown c ds)
  then show ?case by (simp add: gw_decode_steps recv_loop_steps)
next
  case (short c ds)
  then show ?case by (intro exI [of _ "c # ds"] exI [of _ m] exI [of _ "[]"] exI [of _ f]) (simp add: gw_decode_steps recv_loop_steps)
next
  case (message c ds)
  let ?d = "c # ds" and ?r = "drop (ouchMsgSize lib c) (c # ds)"
  obtain ok req m1 where dec: "decodeOuch lib ?d cid m = Some (ok, req, m1)" and m1: "tokens_ok m1"
    by (rule decode_ok [OF message.prems(1), of ?d lib cid]) (simp, rule that)
  obtain added f1 where ret: "retainRequest srt push t req f = (added, f1)" by fastforce
  note R = retain_ok [OF message.prems(2) srt q ret]
  define f2 where "f2 = (if ok then f1 else f)"
  have f2: "fifo_ok f2" using R(2) message.prems(2) by (simp add: f2_def)
  obtain out1 where o1: "view (fifo_requests f2) = view (fifo_requests f) @ map snd out1"
    "mset (out1 @ pending f2) = mset (pending f) + (if ok then {#(t, req)#} else {#})"
    using R(3) by (cases ok) (auto simp: f2_def intro: exI [of _ "[]"])
  obtain rest m' rs f' out where IH: "gw_decode lib cid ?r m1 = Some (rest, m', rs)"
    "recv_loop lib srt push cid t ?r (m1, f2) = Some (rest, m', f')" "tokens_ok m'" "fifo_ok f'"
    "view (fifo_requests f') = view (fifo_requests f2) @ map snd out" "mset (out @ pending f') = mset (pending f2) + mset (map (Pair t) rs)"
    using message.IH [OF m1 f2] by blast
  have "gw_decode lib cid ?d m = Some (rest, m', if ok then req # rs else rs)"
    unfolding gw_decode_steps(4) [OF message.hyps] using dec IH(1) by simp
  moreover have "recv_loop lib srt push cid t ?d (m, f) = Some (rest, m', f')"
    unfolding recv_loop_message [OF message.hyps] using dec ret R(1) IH(2) by (simp add: f2_def split: if_splits)
  ultimately show ?case
    using IH(3-6) o1 by (intro exI [of _ rest] exI [of _ m'] exI [of _ "if ok then req # rs else rs"] exI [of _ f'] exI [of _ "out1 @ out"])
      (auto simp: ac_simps)
qed

end
