(* ===== verification/Outputs.thy ===== *)
theory Outputs
  imports Types
begin

text \<open>
  What the order books use of the matching engine (\<^verbatim>\<open>src/src/engine/matching_engine.h\<close>): the
  match-id counter and the two outbound channels. The lock-free queues are outside the
  repository, so a channel is modelled by the sequence of messages handed to
  \<^verbatim>\<open>pushBlocking\<close>, oldest first. \<^verbatim>\<open>pushBlocking\<close> returns nothing and the code never looks at
  the queue, so no assumption on the queue is needed here.

  \<open>order_args\<close> bundles the nine arguments that \<^verbatim>\<open>addOrder\<close>, \<^verbatim>\<open>match\<close> and \<^verbatim>\<open>insert\<close> pass along.
\<close>

record engine_io =
  next_match_id :: OrderId
  responses :: "MEClientResponse list"
  marketUpdates :: "MEMarketUpdate list"

definition nextMatchId :: "engine_io \<Rightarrow> OrderId \<times> engine_io" where
  "nextMatchId io = (next_match_id io, io\<lparr>next_match_id := next_match_id io + 1\<rparr>)"

definition sendClientResponse :: "MEClientResponse \<Rightarrow> engine_io \<Rightarrow> engine_io" where
  "sendClientResponse response io = io\<lparr>responses := responses io @ [response]\<rparr>"

definition sendMarketUpdate :: "MEMarketUpdate \<Rightarrow> engine_io \<Rightarrow> engine_io" where
  "sendMarketUpdate update io = io\<lparr>marketUpdates := marketUpdates io @ [update]\<rparr>"

lemma send_simps [simp]:
  "responses (sendClientResponse r io) = responses io @ [r]"
  "marketUpdates (sendClientResponse r io) = marketUpdates io"
  "next_match_id (sendClientResponse r io) = next_match_id io"
  "responses (sendMarketUpdate u io) = responses io"
  "marketUpdates (sendMarketUpdate u io) = marketUpdates io @ [u]"
  "next_match_id (sendMarketUpdate u io) = next_match_id io"
  by (simp_all add: sendClientResponse_def sendMarketUpdate_def)

record order_args =
  oa_tickerId :: TickerId
  oa_clientId :: ClientId
  oa_clientOrderId :: OrderId
  oa_marketOrderId :: OrderId
  oa_orderType :: OrderType
  oa_price :: Price
  oa_initialQuantity :: Quantity
  oa_side :: Side
  oa_orderToken :: OrderToken

text \<open>The rejection both books send when a cancel or replace names no live order.\<close>

definition reject_response :: "TickerId \<Rightarrow> ClientId \<Rightarrow> OrderId \<Rightarrow> OrderToken \<Rightarrow> MEClientResponse" where
  [rec_defs]: "reject_response tickerId clientId clientOrderId orderToken =
     mk_response clientId tickerId clientOrderId OrderId_INVALID BUY Price_INVALID 0 GoodTillCancel
       CANCEL_REJECTED 0 Price_INVALID 0 OrderId_INVALID orderToken"

end
