(* ===== verification/BookSpec.thy ===== *)
theory BookSpec
  imports Outputs
begin

text \<open>
  The contract of an order book, independent of pointers, pools and maps: per side, the
  resting orders in price-time priority, best first. Both implementations in
  \<^verbatim>\<open>src/src/engine/order_book/\<close> are shown to refine these functions. They differ in three of
  the messages they emit; \<open>variant\<close> selects which.
\<close>

datatype variant = MapBook | VectorBook

record abook =
  ab_bids :: "MEOrder list"
  ab_asks :: "MEOrder list"
  ab_next :: OrderId

definition a_empty :: abook where
  "a_empty = \<lparr>ab_bids = [], ab_asks = [], ab_next = 1\<rparr>"

fun a_side :: "Side \<Rightarrow> abook \<Rightarrow> MEOrder list" where
  "a_side BUY A = ab_bids A"
| "a_side SELL A = ab_asks A"

fun a_set_side :: "Side \<Rightarrow> MEOrder list \<Rightarrow> abook \<Rightarrow> abook" where
  "a_set_side BUY L A = A\<lparr>ab_bids := L\<rparr>"
| "a_set_side SELL L A = A\<lparr>ab_asks := L\<rparr>"

definition a_orders :: "abook \<Rightarrow> MEOrder list" where
  "a_orders A = ab_bids A @ ab_asks A"

definition has_key :: "ClientId \<Rightarrow> OrderId \<Rightarrow> MEOrder \<Rightarrow> bool" where
  "has_key c k r \<longleftrightarrow> mo_clientId r = c \<and> mo_clientOrderId r = k"

section \<open>Operations\<close>

text \<open>A new order goes behind every order with a price at least as good.\<close>

definition a_insert :: "Side \<Rightarrow> MEOrder \<Rightarrow> MEOrder list \<Rightarrow> MEOrder list" where
  "a_insert s r L =
     takeWhile (\<lambda>x. \<not> before s (mo_price r) (mo_price x)) L @ r #
     dropWhile (\<lambda>x. \<not> before s (mo_price r) (mo_price x)) L"

definition a_drop :: "ClientId \<Rightarrow> OrderId \<Rightarrow> abook \<Rightarrow> abook" where
  "a_drop c k A = A\<lparr>ab_bids := filter (\<lambda>r. \<not> has_key c k r) (ab_bids A),
                   ab_asks := filter (\<lambda>r. \<not> has_key c k r) (ab_asks A)\<rparr>"

definition a_find :: "ClientId \<Rightarrow> OrderId \<Rightarrow> abook \<Rightarrow> MEOrder option" where
  "a_find c k A = find (has_key c k) (a_orders A)"

definition a_shrink :: "ClientId \<Rightarrow> OrderId \<Rightarrow> Quantity \<Rightarrow> abook \<Rightarrow> abook" where
  "a_shrink c k q A =
     (let f = (\<lambda>r. if has_key c k r then r\<lparr>mo_remainingQuantity := mo_remainingQuantity r - q\<rparr> else r)
      in A\<lparr>ab_bids := map f (ab_bids A), ab_asks := map f (ab_asks A)\<rparr>)"

text \<open>The three messages of one fill, for a resting order \<open>r\<close> that the fill already reduced.\<close>

definition a_report :: "variant \<Rightarrow> order_args \<Rightarrow> MEOrder \<Rightarrow> Quantity \<Rightarrow> Quantity \<Rightarrow> engine_io \<Rightarrow> engine_io" where
  "a_report v t r fill q io =
    (let m = next_match_id io in
     sendMarketUpdate
       (mk_update (oa_tickerId t) (mo_marketOrderId r) U_TRADE (mo_side r) (mo_price r) fill
          OrderId_INVALID (case v of MapBook \<Rightarrow> m | VectorBook \<Rightarrow> OrderId_INVALID))
     (sendClientResponse
       (mk_response (oa_clientId t) (oa_tickerId t) (oa_clientOrderId t) (oa_marketOrderId t)
          (oa_side t) (oa_price t) (oa_initialQuantity t) (oa_orderType t) EXECUTED fill
          (mo_price r) q m (oa_orderToken t))
     (sendClientResponse
       (mk_response (mo_clientId r) (oa_tickerId t) (mo_clientOrderId r) (mo_marketOrderId r)
          (mo_side r) (mo_price r) (mo_initialQuantity r) (mo_orderType r) EXECUTED fill
          (mo_price r) (mo_remainingQuantity r) m (mo_order_token r))
     (io\<lparr>next_match_id := m + 1\<rparr>))))"

fun a_match :: "variant \<Rightarrow> order_args \<Rightarrow> Quantity \<Rightarrow> engine_io \<Rightarrow> MEOrder list \<Rightarrow>
    Quantity \<times> engine_io \<times> MEOrder list" where
  "a_match v t q io [] = (q, io, [])"
| "a_match v t q io (r # rs) =
    (if q = 0 \<or> before (opposite (oa_side t)) (oa_price t) (mo_price r) then (q, io, r # rs)
     else
       let fill = min q (mo_remainingQuantity r);
           r' = r\<lparr>mo_remainingQuantity := mo_remainingQuantity r - fill\<rparr>;
           io' = a_report v t r' fill (q - fill) io
       in if mo_remainingQuantity r' = 0 then a_match v t (q - fill) io' rs
          else (q - fill, io', r' # rs))"

definition order_of :: "order_args \<Rightarrow> Quantity \<Rightarrow> MEOrder" where
  [rec_defs]: "order_of t q = mk_order (oa_tickerId t) (oa_clientId t) (oa_clientOrderId t)
     (oa_marketOrderId t) (oa_orderType t) (oa_price t) q (oa_side t) (oa_orderToken t)"

text \<open>Match an incoming order against the opposite side; \<open>(remaining, book, outputs)\<close>.\<close>

definition a_take :: "variant \<Rightarrow> order_args \<Rightarrow> abook \<Rightarrow> engine_io \<Rightarrow> Quantity \<times> abook \<times> engine_io" where
  "a_take v t A io =
    (case a_match v t (oa_initialQuantity t) io (a_side (opposite (oa_side t)) A) of
      (q, io', L) \<Rightarrow> (q, a_set_side (opposite (oa_side t)) L A, io'))"

definition a_rest :: "order_args \<Rightarrow> Quantity \<Rightarrow> abook \<Rightarrow> abook" where
  "a_rest t q A = a_set_side (oa_side t) (a_insert (oa_side t) (order_of t q) (a_side (oa_side t) A)) A"

text \<open>
  What becomes of an incoming order: match, then rest what is left of a good-till-cancel order
  or drop what is left of a fill-and-kill order. \<open>f\<close> and \<open>g\<close> are the messages of the two cases.
\<close>

definition a_finish :: "variant \<Rightarrow> order_args \<Rightarrow> (Quantity \<Rightarrow> engine_io \<Rightarrow> engine_io) \<Rightarrow>
    (Quantity \<Rightarrow> engine_io \<Rightarrow> engine_io) \<Rightarrow> abook \<Rightarrow> engine_io \<Rightarrow> abook \<times> engine_io" where
  "a_finish v t f g A io =
    (case a_take v t A io of (q, A, io) \<Rightarrow>
       if q = 0 then (A, io)
       else case oa_orderType t of
         GoodTillCancel \<Rightarrow> (a_rest t q A, f q io)
       | FillAndKill \<Rightarrow> (A, g q io))"

text \<open>A report to the owner of an incoming order about the order itself.\<close>

definition own_report :: "order_args \<Rightarrow> ResponseType \<Rightarrow> Quantity \<Rightarrow> MEClientResponse" where
  "own_report t status leaves = mk_response (oa_clientId t) (oa_tickerId t) (oa_clientOrderId t)
     (oa_marketOrderId t) (oa_side t) (oa_price t) (oa_initialQuantity t) (oa_orderType t)
     status 0 (oa_price t) leaves OrderId_INVALID (oa_orderToken t)"

definition a_addOrder :: "variant \<Rightarrow> order_args \<Rightarrow> abook \<Rightarrow> engine_io \<Rightarrow> abook \<times> engine_io" where
  "a_addOrder v args A io =
    (let t = args\<lparr>oa_marketOrderId := ab_next A\<rparr>
     in a_finish v t
       (\<lambda>q. sendMarketUpdate (mk_update (oa_tickerId t) (oa_marketOrderId t) U_ADD (oa_side t)
          (oa_price t) q OrderId_INVALID OrderId_INVALID))
       (\<lambda>q. sendClientResponse (own_report t CANCELED q))
       (A\<lparr>ab_next := ab_next A + 1\<rparr>)
       (sendClientResponse (own_report t ACCEPTED (oa_initialQuantity t)) io))"

definition a_cancelOrder :: "variant \<Rightarrow> TickerId \<Rightarrow> ClientId \<Rightarrow> OrderId \<Rightarrow> Quantity \<Rightarrow> OrderToken \<Rightarrow>
    abook \<Rightarrow> engine_io \<Rightarrow> abook \<times> engine_io" where
  "a_cancelOrder v tick c k qty tok A io =
    (case a_find c k A of
      None \<Rightarrow> (A, sendClientResponse (reject_response tick c k tok) io)
    | Some r \<Rightarrow>
        let canceled = (if qty = 0 then mo_remainingQuantity r else qty);
            reply = (\<lambda>status px leaves. mk_response c tick k (mo_marketOrderId r) (mo_side r)
              (mo_price r) (mo_initialQuantity r) (mo_orderType r) status 0 px leaves
              OrderId_INVALID (mo_order_token r))
        in if mo_remainingQuantity r < canceled
           then (A, sendClientResponse (reply CANCEL_REJECTED Price_INVALID (mo_remainingQuantity r)) io)
           else
             (if mo_remainingQuantity r = canceled then a_drop c k A else a_shrink c k canceled A,
              sendClientResponse (reply CANCELED (mo_price r)
                (case v of MapBook \<Rightarrow> canceled | VectorBook \<Rightarrow> mo_remainingQuantity r - canceled))
              (sendMarketUpdate (mk_update tick (mo_marketOrderId r) U_CANCEL (mo_side r) (mo_price r)
                canceled OrderId_INVALID OrderId_INVALID) io)))"

definition a_replaceOrder :: "variant \<Rightarrow> TickerId \<Rightarrow> ClientId \<Rightarrow> OrderId \<Rightarrow> OrderId \<Rightarrow> OrderType \<Rightarrow>
    Price \<Rightarrow> Quantity \<Rightarrow> OrderToken \<Rightarrow> abook \<Rightarrow> engine_io \<Rightarrow> abook \<times> engine_io" where
  "a_replaceOrder v tick c k k' ty px qty tok A io =
    (case a_find c k A of
      None \<Rightarrow> (A, sendClientResponse (reject_response tick c k tok) io)
    | Some r \<Rightarrow>
        if k' = 0 \<or> qty = 0 then (A, sendClientResponse (reject_response tick c k tok) io)
        else
          let m = ab_next A;
              t = \<lparr>oa_tickerId = tick, oa_clientId = c, oa_clientOrderId = k', oa_marketOrderId = m,
                   oa_orderType = ty, oa_price = px, oa_initialQuantity = qty,
                   oa_side = mo_side r, oa_orderToken = tok\<rparr>;
              io = sendClientResponse (own_report t MODIFIED qty) io;
              io = sendMarketUpdate (mk_update tick (mo_marketOrderId r) U_MODIFY (mo_side r) px qty
                m OrderId_INVALID) io
          in a_finish v t (\<lambda>q io. io)
               (\<lambda>q io. case v of
                  VectorBook \<Rightarrow> io
                | MapBook \<Rightarrow> sendMarketUpdate (mk_update tick m U_CANCEL (mo_side r) px q
                    OrderId_INVALID OrderId_INVALID) (sendClientResponse (own_report t CANCELED q) io))
               (a_drop c k (A\<lparr>ab_next := m + 1\<rparr>)) io)"

section \<open>Lookup and update\<close>

lemma a_drop_shrink: "a_drop c k (a_shrink c k q A) = a_drop c k A"
proof -
  have "filter (\<lambda>r. \<not> has_key c k r)
      (map (\<lambda>r. if has_key c k r then r\<lparr>mo_remainingQuantity := mo_remainingQuantity r - q\<rparr> else r) L) =
    filter (\<lambda>r. \<not> has_key c k r) L" for L
    by (induction L) (auto simp: has_key_def)
  then show ?thesis by (simp add: a_drop_def a_shrink_def Let_def)
qed

lemma a_find_counter [simp]: "a_find c k (A\<lparr>ab_next := n\<rparr>) = a_find c k A"
  by (simp add: a_find_def a_orders_def)

lemma a_orders_counter [simp]: "a_orders (A\<lparr>ab_next := n\<rparr>) = a_orders A"
  by (simp add: a_orders_def)

lemma a_find_drop_counter [simp]: "a_find c' k' (a_drop c k (A\<lparr>ab_next := n\<rparr>)) = a_find c' k' (a_drop c k A)"
  by (simp add: a_find_def a_orders_def a_drop_def)

end
