(* ===== verification/BookProps.thy ===== *)
theory BookProps
  imports BookSpec
begin

text \<open>
  What the book contract guarantees. Matching is compared with a reference that knows no loop:
  the orders that cross, best first, are served in sequence until the incoming quantity is used
  up (\<open>waterfall\<close>). From it follow price-time priority, price limits, conservation of quantity and
  the numbering of trades. \<open>abook_ok\<close> is the invariant of a book: priority order, positive
  quantities, unique keys, and no bid at or above an ask.
\<close>

section \<open>Matching as an allocation\<close>

definition crosses :: "order_args \<Rightarrow> MEOrder \<Rightarrow> bool" where
  "crosses t r \<longleftrightarrow> \<not> before (opposite (oa_side t)) (oa_price t) (mo_price r)"

text \<open>Serve the demands \<open>xs\<close> in order from a supply of \<open>q\<close>; stop when nothing is left.\<close>

fun waterfall :: "nat \<Rightarrow> nat list \<Rightarrow> nat list" where
  "waterfall q [] = []"
| "waterfall q (x # xs) = (if q = 0 then [] else min q x # waterfall (q - x) xs)"

lemma sum_waterfall: "sum_list (waterfall q xs) = min q (sum_list xs)"
  by (induction q xs rule: waterfall.induct) auto

text \<open>The fills of an incoming order: each resting order it meets with the quantity traded.\<close>

fun a_fills :: "order_args \<Rightarrow> Quantity \<Rightarrow> MEOrder list \<Rightarrow> (MEOrder \<times> Quantity) list" where
  "a_fills t q [] = []"
| "a_fills t q (r # rs) =
    (if q = 0 \<or> \<not> crosses t r then []
     else (let f = min q (mo_remainingQuantity r) in (r, f) # a_fills t (q - f) rs))"

lemma a_fills_0 [simp]: "a_fills t 0 L = []"
  by (cases L) auto

lemma diff_min_nat: "(a :: nat) - min a b = a - b"
  by (simp add: min_def)

lemma unat_eq_0_iff: "unat (w :: 'a::len word) = 0 \<longleftrightarrow> w = 0"
  by (simp add: unat_eq_zero)

lemma a_fills_waterfall:
  "map (\<lambda>x. unat (snd x)) (a_fills t q L) =
     waterfall (unat q) (map (\<lambda>r. unat (mo_remainingQuantity r)) (takeWhile (crosses t) L))"
proof (induction t q L rule: a_fills.induct)
  case (2 t q r rs)
  show ?case
  proof (cases "q = 0 \<or> \<not> crosses t r")
    case True
    then show ?thesis by (cases "crosses t r") auto
  next
    case False
    then show ?thesis
      using 2 by (simp add: Let_def unat_min unat_eq_0_iff diff_min_nat)
  qed
qed simp

lemma a_fills_prefix: "map fst (a_fills t q L) = take (length (a_fills t q L)) L"
  by (induction t q L rule: a_fills.induct) (auto simp: Let_def)

lemma a_fills_crosses: "(r, f) \<in> set (a_fills t q L) \<Longrightarrow> crosses t r \<and> f \<le> mo_remainingQuantity r \<and> f \<le> q"
proof (induction t q L rule: a_fills.induct)
  case (2 t q r' rs)
  then show ?case
    by (auto simp: Let_def split: if_splits) (meson min.cobounded1 order_trans word_sub_le)
qed simp

text \<open>All orders but the last are filled completely.\<close>

lemma a_fills_full:
  "fs = a_fills t q L \<Longrightarrow> Suc i < length fs \<Longrightarrow> snd (fs ! i) = mo_remainingQuantity (fst (fs ! i))"
proof (induction t q L arbitrary: fs i rule: a_fills.induct)
  case (2 t q r rs)
  show ?case
  proof (cases i)
    case 0
    with 2(2,3) have "q - min q (mo_remainingQuantity r) \<noteq> 0"
      by (auto simp: Let_def split: if_splits)
    then have "\<not> q \<le> mo_remainingQuantity r" by (auto simp: min_def)
    with 0 2(2,3) show ?thesis by (auto simp: Let_def min_def split: if_splits)
  next
    case (Suc j)
    with 2 show ?thesis by (auto simp: Let_def split: if_splits)
  qed
qed simp

section \<open>The messages of a match\<close>

definition resting_fill :: "order_args \<Rightarrow> MEOrder \<Rightarrow> Quantity \<Rightarrow> OrderId \<Rightarrow> MEClientResponse" where
  "resting_fill t r f m = mk_response (mo_clientId r) (oa_tickerId t) (mo_clientOrderId r)
     (mo_marketOrderId r) (mo_side r) (mo_price r) (mo_initialQuantity r) (mo_orderType r) EXECUTED f
     (mo_price r) (mo_remainingQuantity r - f) m (mo_order_token r)"

definition incoming_fill :: "order_args \<Rightarrow> MEOrder \<Rightarrow> Quantity \<Rightarrow> Quantity \<Rightarrow> OrderId \<Rightarrow> MEClientResponse" where
  "incoming_fill t r f q m = mk_response (oa_clientId t) (oa_tickerId t) (oa_clientOrderId t)
     (oa_marketOrderId t) (oa_side t) (oa_price t) (oa_initialQuantity t) (oa_orderType t) EXECUTED f
     (mo_price r) q m (oa_orderToken t)"

definition trade_update :: "variant \<Rightarrow> order_args \<Rightarrow> MEOrder \<Rightarrow> Quantity \<Rightarrow> OrderId \<Rightarrow> MEMarketUpdate" where
  "trade_update v t r f m = mk_update (oa_tickerId t) (mo_marketOrderId r) U_TRADE (mo_side r) (mo_price r) f
     OrderId_INVALID (case v of MapBook \<Rightarrow> m | VectorBook \<Rightarrow> OrderId_INVALID)"

fun fill_responses :: "order_args \<Rightarrow> Quantity \<Rightarrow> OrderId \<Rightarrow> (MEOrder \<times> Quantity) list \<Rightarrow> MEClientResponse list" where
  "fill_responses t q m [] = []"
| "fill_responses t q m ((r, f) # fs) =
     resting_fill t r f m # incoming_fill t r f (q - f) m # fill_responses t (q - f) (m + 1) fs"

fun fill_updates :: "variant \<Rightarrow> order_args \<Rightarrow> OrderId \<Rightarrow> (MEOrder \<times> Quantity) list \<Rightarrow> MEMarketUpdate list" where
  "fill_updates v t m [] = []"
| "fill_updates v t m ((r, f) # fs) = trade_update v t r f m # fill_updates v t (m + 1) fs"

text \<open>What is left of the resting side.\<close>

fun a_leave :: "order_args \<Rightarrow> Quantity \<Rightarrow> MEOrder list \<Rightarrow> MEOrder list" where
  "a_leave t q [] = []"
| "a_leave t q (r # rs) =
    (if q = 0 \<or> \<not> crosses t r then r # rs
     else if mo_remainingQuantity r \<le> q then a_leave t (q - mo_remainingQuantity r) rs
     else r\<lparr>mo_remainingQuantity := mo_remainingQuantity r - q\<rparr> # rs)"

definition fills_total :: "(MEOrder \<times> Quantity) list \<Rightarrow> Quantity" where
  "fills_total fs = sum_list (map snd fs)"

lemma a_report_eq:
  "a_report v t (r\<lparr>mo_remainingQuantity := mo_remainingQuantity r - f\<rparr>) f q io =
    io\<lparr>next_match_id := next_match_id io + 1,
       responses := responses io @ [resting_fill t r f (next_match_id io), incoming_fill t r f q (next_match_id io)],
       marketUpdates := marketUpdates io @ [trade_update v t r f (next_match_id io)]\<rparr>"
  by (simp add: a_report_def Let_def sendClientResponse_def sendMarketUpdate_def resting_fill_def
      incoming_fill_def trade_update_def)

lemma a_report_full:
  "a_report v t (r\<lparr>mo_remainingQuantity := 0\<rparr>) (mo_remainingQuantity r) q io =
    io\<lparr>next_match_id := next_match_id io + 1,
       responses := responses io @ [resting_fill t r (mo_remainingQuantity r) (next_match_id io),
         incoming_fill t r (mo_remainingQuantity r) q (next_match_id io)],
       marketUpdates := marketUpdates io @ [trade_update v t r (mo_remainingQuantity r) (next_match_id io)]\<rparr>"
  using a_report_eq [of v t r "mo_remainingQuantity r" q io] by simp

lemma a_match_log:
  "a_match v t q io L =
    (let fs = a_fills t q L in
     (q - fills_total fs,
      io\<lparr>next_match_id := next_match_id io + of_nat (length fs),
         responses := responses io @ fill_responses t q (next_match_id io) fs,
         marketUpdates := marketUpdates io @ fill_updates v t (next_match_id io) fs\<rparr>,
      a_leave t q L))"
proof (induction v t q io L rule: a_match.induct)
  case (2 v t q io r rs)
  show ?case
  proof (cases "q = 0 \<or> \<not> crosses t r")
    case True
    then show ?thesis by (auto simp: crosses_def fills_total_def)
  next
    case False
    then have c: "\<not> (q = 0 \<or> before (opposite (oa_side t)) (oa_price t) (mo_price r))"
      by (simp add: crosses_def)
    show ?thesis
    proof (cases "mo_remainingQuantity r \<le> q")
      case True
      then have m: "min q (mo_remainingQuantity r) = mo_remainingQuantity r" by simp
      show ?thesis
        using 2 [OF c refl refl refl] c False m True
        by (simp add: Let_def a_report_full fills_total_def
            algebra_simps)
    next
      case le: False
      then have m: "min q (mo_remainingQuantity r) = q" and nz: "mo_remainingQuantity r - q \<noteq> 0" by auto
      show ?thesis
        using c False m nz le by (simp add: Let_def a_report_eq fills_total_def)
    qed
  qed
qed (simp add: fills_total_def)

section \<open>Quantities\<close>

lemma fills_total_ok:
  "fills_total (a_fills t q L) \<le> q \<and> unat (fills_total (a_fills t q L)) = sum_list (map (\<lambda>x. unat (snd x)) (a_fills t q L))"
proof (induction t q L rule: a_fills.induct)
  case (2 t q r rs)
  show ?case
  proof (cases "q = 0 \<or> \<not> crosses t r")
    case False
    define f where "f = min q (mo_remainingQuantity r)"
    let ?x = "fills_total (a_fills t (q - f) rs)"
    have IH: "?x \<le> q - f" "unat ?x = sum_list (map (\<lambda>x. unat (snd x)) (a_fills t (q - f) rs))"
      using 2 [OF False f_def] by auto
    have "f \<le> q" by (simp add: f_def)
    then have "unat f + unat ?x \<le> unat q" using IH(1) by (simp add: word_le_nat_alt unat_sub)
    moreover from this have "unat (f + ?x) = unat f + unat ?x"
      by (intro unat_add_lem [THEN iffD1]) (rule order_le_less_trans [OF _ unsigned_less [of q]])
    moreover have "fills_total (a_fills t q (r # rs)) = f + ?x"
      using False by (simp add: fills_total_def f_def Let_def)
    ultimately show ?thesis
      using False IH(2) by (simp add: word_le_nat_alt f_def Let_def)
  qed (auto simp: fills_total_def)
qed (simp add: fills_total_def)

lemma unat_fills_total:
  "unat (fills_total (a_fills t q L)) =
     min (unat q) (\<Sum>r\<leftarrow>takeWhile (crosses t) L. unat (mo_remainingQuantity r))"
  using fills_total_ok [of t q L] by (simp add: a_fills_waterfall sum_waterfall)

lemma a_leave_quantity:
  "(\<Sum>r\<leftarrow>L. unat (mo_remainingQuantity r)) =
     (\<Sum>r\<leftarrow>a_leave t q L. unat (mo_remainingQuantity r)) + unat (fills_total (a_fills t q L))"
proof -
  have "(\<Sum>r\<leftarrow>L. unat (mo_remainingQuantity r)) =
     (\<Sum>r\<leftarrow>a_leave t q L. unat (mo_remainingQuantity r)) + sum_list (map (\<lambda>x. unat (snd x)) (a_fills t q L))"
  proof (induction t q L rule: a_leave.induct)
    case (2 t q r rs)
    show ?case
    proof (cases "q = 0 \<or> \<not> crosses t r")
      case False
      note cross = this
      show ?thesis
      proof (cases "mo_remainingQuantity r \<le> q")
        case True
        with 2 cross show ?thesis by (simp add: Let_def min_absorb2)
      next
        case False
        then have "min q (mo_remainingQuantity r) = q" by simp
        with False cross show ?thesis by (simp add: Let_def unat_sub word_le_nat_alt)
      qed
    qed auto
  qed simp
  then show ?thesis using fills_total_ok [of t q L] by simp
qed

section \<open>What is left of the resting side\<close>

text \<open>A suffix of the side, its first order perhaps reduced.\<close>

lemma a_leave_suffix:
  assumes "\<And>r x. f (r\<lparr>mo_remainingQuantity := x\<rparr>) = f r"
  shows "\<exists>n. map f (a_leave t q L) = drop n (map f L)"
proof (induction t q L rule: a_leave.induct)
  case (2 t q r rs)
  show ?case
  proof (cases "q = 0 \<or> \<not> crosses t r \<or> \<not> mo_remainingQuantity r \<le> q")
    case True
    then show ?thesis using assms by (intro exI [of _ 0]) auto
  next
    case False
    then obtain n where "map f (a_leave t (q - mo_remainingQuantity r) rs) = drop n (map f rs)"
      using 2 by blast
    with False show ?thesis by (intro exI [of _ "Suc n"]) simp
  qed
qed simp

lemma a_leave_set:
  "r \<in> set (a_leave t q L) \<Longrightarrow>
    r \<in> set L \<or> (\<exists>r'\<in>set L. \<exists>x. x \<noteq> 0 \<and> x \<le> mo_remainingQuantity r' \<and> r = r'\<lparr>mo_remainingQuantity := x\<rparr>)"
proof (induction t q L rule: a_leave.induct)
  case (2 t q r' rs)
  show ?case
  proof (cases "q = 0 \<or> \<not> crosses t r' \<or> mo_remainingQuantity r' \<le> q")
    case True
    with 2 show ?thesis by (auto split: if_splits)
  next
    case False
    then have "mo_remainingQuantity r' - q \<noteq> 0" "mo_remainingQuantity r' - q \<le> mo_remainingQuantity r'"
      by (auto simp: word_sub_le)
    then have "r = r'\<lparr>mo_remainingQuantity := mo_remainingQuantity r' - q\<rparr> \<Longrightarrow> ?thesis" by force
    with 2(2) False show ?thesis by auto
  qed
qed simp

definition prio_sorted :: "Side \<Rightarrow> MEOrder list \<Rightarrow> bool" where
  "prio_sorted s L \<longleftrightarrow> sorted_wrt (\<lambda>x y. \<not> before s (mo_price y) (mo_price x)) L"

lemma prio_sorted_map: "prio_sorted s L \<longleftrightarrow> sorted_wrt (\<lambda>p q. \<not> before s q p) (map mo_price L)"
  by (simp add: prio_sorted_def sorted_wrt_map)

lemma prio_sorted_leave:
  assumes "prio_sorted s L"
  shows "prio_sorted s (a_leave t q L)"
proof -
  obtain n where "map mo_price (a_leave t q L) = drop n (map mo_price L)"
    using a_leave_suffix [of mo_price t q L] by auto
  with assms show ?thesis by (simp add: prio_sorted_map sorted_wrt_drop)
qed

text \<open>When the incoming order is not used up, nothing it could trade with is left.\<close>

lemma a_leave_uncrossed:
  assumes "prio_sorted (opposite (oa_side t)) L" and "q - fills_total (a_fills t q L) \<noteq> 0" and "r \<in> set (a_leave t q L)"
  shows "\<not> crosses t r"
  using assms
proof (induction t q L rule: a_leave.induct)
  case (2 t q r' rs)
  have nz: "q \<noteq> 0" using 2(3) by (auto simp: fills_total_def)
  show ?case
  proof (cases "crosses t r'")
    case False
    with 2(2,4) nz show ?thesis
      by (auto simp: crosses_def prio_sorted_def dest: before_not_before)
  next
    case True
    have "mo_remainingQuantity r' \<le> q"
    proof (rule ccontr)
      assume "\<not> mo_remainingQuantity r' \<le> q"
      then have "min q (mo_remainingQuantity r') = q" by simp
      with 2(3) nz True show False by (simp add: fills_total_def Let_def)
    qed
    moreover from this have "q - mo_remainingQuantity r' - fills_total (a_fills t (q - mo_remainingQuantity r') rs) \<noteq> 0"
      using 2(3) nz True by (simp add: fills_total_def Let_def min_absorb2 diff_diff_eq)
    ultimately show ?thesis
      using 2(1,2,4) nz True by (simp add: prio_sorted_def)
  qed
qed simp

section \<open>The invariant of a book\<close>

definition okey :: "MEOrder \<Rightarrow> ClientId \<times> OrderId" where
  "okey r = (mo_clientId r, mo_clientOrderId r)"

definition order_ok :: "Side \<Rightarrow> MEOrder \<Rightarrow> bool" where
  "order_ok s r \<longleftrightarrow> mo_side r = s \<and> mo_orderType r = GoodTillCancel \<and>
     mo_remainingQuantity r \<noteq> 0 \<and> mo_remainingQuantity r \<le> mo_initialQuantity r"

definition abook_ok :: "abook \<Rightarrow> bool" where
  "abook_ok A \<longleftrightarrow>
     prio_sorted BUY (ab_bids A) \<and> prio_sorted SELL (ab_asks A) \<and>
     list_all (order_ok BUY) (ab_bids A) \<and> list_all (order_ok SELL) (ab_asks A) \<and>
     distinct (map okey (a_orders A)) \<and>
     (\<forall>x\<in>set (ab_bids A). \<forall>y\<in>set (ab_asks A). mo_price x < mo_price y)"

lemma a_empty_ok: "abook_ok a_empty"
  by (simp add: abook_ok_def a_empty_def a_orders_def prio_sorted_def)

lemma abook_okD:
  assumes "abook_ok A"
  shows abook_sorted: "prio_sorted s (a_side s A)"
    and abook_order: "r \<in> set (a_side s A) \<Longrightarrow> order_ok s r"
    and abook_keys: "distinct (map okey (a_side s A @ a_side (opposite s) A))"
    and abook_uncrossed: "x \<in> set (a_side s A) \<Longrightarrow> y \<in> set (a_side (opposite s) A) \<Longrightarrow>
      before (opposite s) (mo_price x) (mo_price y)"
  using assms by (cases s; auto simp: abook_ok_def list_all_iff a_orders_def)+

lemma abook_okI:
  assumes "prio_sorted s (a_side s A)" "prio_sorted (opposite s) (a_side (opposite s) A)"
    and "\<And>r. r \<in> set (a_side s A) \<Longrightarrow> order_ok s r"
      "\<And>r. r \<in> set (a_side (opposite s) A) \<Longrightarrow> order_ok (opposite s) r"
    and "distinct (map okey (a_side s A @ a_side (opposite s) A))"
    and "\<And>x y. x \<in> set (a_side s A) \<Longrightarrow> y \<in> set (a_side (opposite s) A) \<Longrightarrow>
      before (opposite s) (mo_price x) (mo_price y)"
  shows "abook_ok A"
  using assms by (cases s) (auto simp: abook_ok_def list_all_iff a_orders_def)

lemma a_side_set_side [simp]:
  "a_side s (a_set_side s' L A) = (if s' = s then L else a_side s A)"
  "ab_next (a_set_side s' L A) = ab_next A"
  "a_side s (A\<lparr>ab_next := n\<rparr>) = a_side s A"
  by (cases s; cases s'; simp)+

lemma abook_ok_counter [simp]: "abook_ok (A\<lparr>ab_next := n\<rparr>) = abook_ok A"
  by (simp add: abook_ok_def a_orders_def)

lemma a_find_None_iff: "a_find c k A = None \<longleftrightarrow> (c, k) \<notin> okey ` (set (a_side s A) \<union> set (a_side (opposite s) A))"
  by (cases s) (auto simp: a_find_def a_orders_def find_None_iff has_key_def okey_def image_iff)

text \<open>Matching keeps the invariant; what is left over crosses with nothing.\<close>

lemma okey_leave:
  obtains n where "map okey (a_leave t q L) = drop n (map okey L)"
  using a_leave_suffix [of okey t q L] by (auto simp: okey_def)

lemma a_take_ok:
  assumes ok: "abook_ok A" and take: "a_take v t A io = (q, A', io')"
  shows "abook_ok A'" and "a_side (oa_side t) A' = a_side (oa_side t) A"
    and "a_find c k A = None \<Longrightarrow> a_find c k A' = None"
    and "q \<noteq> 0 \<Longrightarrow> r \<in> set (a_side (opposite (oa_side t)) A') \<Longrightarrow> \<not> crosses t r"
proof -
  let ?s = "oa_side t" and ?o = "opposite (oa_side t)"
  let ?L = "a_side ?o A"
  have A': "A' = a_set_side ?o (a_leave t (oa_initialQuantity t) ?L) A"
    and q: "q = oa_initialQuantity t - fills_total (a_fills t (oa_initialQuantity t) ?L)"
    using take by (simp_all add: a_take_def a_match_log Let_def)
  show own: "a_side ?s A' = a_side ?s A" by (simp add: A')
  have opp: "a_side ?o A' = a_leave t (oa_initialQuantity t) ?L" by (simp add: A')
  obtain n where n: "map okey (a_leave t (oa_initialQuantity t) ?L) = drop n (map okey ?L)"
    by (rule okey_leave)
  show "q \<noteq> 0 \<Longrightarrow> r \<in> set (a_side ?o A') \<Longrightarrow> \<not> crosses t r"
    using a_leave_uncrossed [OF abook_sorted [OF ok]] by (simp add: opp q)
  have "okey ` set (a_leave t (oa_initialQuantity t) ?L) \<subseteq> okey ` set ?L"
    using n by (metis list.set_map set_drop_subset)
  then show "a_find c k A = None \<Longrightarrow> a_find c k A' = None"
    by (auto simp: a_find_None_iff [where s = ?s] own opp)
  show "abook_ok A'"
  proof (rule abook_okI [of ?s], unfold own opp)
    show "prio_sorted ?s (a_side ?s A)" by (rule abook_sorted [OF ok])
    show "prio_sorted ?o (a_leave t (oa_initialQuantity t) ?L)"
      by (intro prio_sorted_leave abook_sorted [OF ok])
    show "order_ok ?s r" if "r \<in> set (a_side ?s A)" for r using abook_order [OF ok that] .
    show "order_ok ?o r" if "r \<in> set (a_leave t (oa_initialQuantity t) ?L)" for r
      using a_leave_set [OF that] abook_order [OF ok, of _ ?o] by (auto simp: order_ok_def intro: order_trans)
    show "distinct (map okey (a_side ?s A @ a_leave t (oa_initialQuantity t) ?L))"
      using abook_keys [OF ok, of ?s] set_drop_subset [of n "map okey ?L"]
      by (simp add: n distinct_drop) blast
    show "before ?o (mo_price x) (mo_price y)"
      if "x \<in> set (a_side ?s A)" "y \<in> set (a_leave t (oa_initialQuantity t) ?L)" for x y
      using a_leave_set [OF that(2)] abook_uncrossed [OF ok that(1)] by auto
  qed
qed

lemma set_a_insert [simp]: "set (a_insert s r L) = insert r (set L)"
  unfolding a_insert_def by (metis (no_types, lifting) Un_insert_right list.simps(15) set_append takeWhile_dropWhile_id)

lemma prio_sorted_insert:
  assumes "prio_sorted s L"
  shows "prio_sorted s (a_insert s r L)"
proof -
  let ?P = "\<lambda>x. \<not> before s (mo_price r) (mo_price x)"
  have tw: "\<forall>x\<in>set (takeWhile ?P L). ?P x" using set_takeWhileD by fastforce
  have "sorted_wrt (\<lambda>x y. \<not> before s (mo_price y) (mo_price x)) L \<Longrightarrow>
      \<forall>y\<in>set (dropWhile ?P L). \<not> before s (mo_price y) (mo_price r)"
    by (induction L) (auto dest: before_asym before_not_before not_before_before)
  with tw assms show ?thesis
    unfolding prio_sorted_def a_insert_def sorted_wrt_mid by simp
qed

lemma distinct_okey_insert:
  "distinct (map okey (a_insert s r L)) \<longleftrightarrow> okey r \<notin> okey ` set L \<and> distinct (map okey L)"
proof -
  let ?P = "\<lambda>x. \<not> before s (mo_price r) (mo_price x)"
  have "set L = set (takeWhile ?P L @ dropWhile ?P L)" "map okey L = map okey (takeWhile ?P L @ dropWhile ?P L)" by simp_all
  then show ?thesis unfolding a_insert_def map_append list.map distinct_mid
    by (simp add: image_Un del: takeWhile_dropWhile_id flip: map_append)
qed

lemma a_rest_ok:
  assumes ok: "abook_ok A" and q: "q \<noteq> 0" and ty: "oa_orderType t = GoodTillCancel"
    and new: "a_find (oa_clientId t) (oa_clientOrderId t) A = None"
    and un: "\<And>r. r \<in> set (a_side (opposite (oa_side t)) A) \<Longrightarrow> \<not> crosses t r"
  shows "abook_ok (a_rest t q A)"
proof -
  let ?s = "oa_side t" and ?o = "opposite (oa_side t)" and ?r = "order_of t q"
  have own: "a_side ?s (a_rest t q A) = a_insert ?s ?r (a_side ?s A)"
    and opp: "a_side ?o (a_rest t q A) = a_side ?o A" by (simp_all add: a_rest_def)
  have r: "order_ok ?s ?r" "okey ?r = (oa_clientId t, oa_clientOrderId t)" "mo_price ?r = oa_price t"
    using q ty by (simp_all add: order_ok_def okey_def rec_defs)
  have fresh: "okey ?r \<notin> okey ` set (a_side ?s A)" "okey ?r \<notin> okey ` set (a_side ?o A)"
    using new r(2) by (auto simp: a_find_None_iff [where s = ?s])
  show ?thesis
  proof (rule abook_okI [of ?s], unfold own opp)
    show "prio_sorted ?s (a_insert ?s ?r (a_side ?s A))"
      by (intro prio_sorted_insert abook_sorted [OF ok])
    show "prio_sorted ?o (a_side ?o A)" by (rule abook_sorted [OF ok])
    show "order_ok ?s x" if "x \<in> set (a_insert ?s ?r (a_side ?s A))" for x
      using that r(1) abook_order [OF ok] by auto
    show "order_ok ?o x" if "x \<in> set (a_side ?o A)" for x using abook_order [OF ok that] .
    show "distinct (map okey (a_insert ?s ?r (a_side ?s A) @ a_side ?o A))"
      using abook_keys [OF ok, of ?s] fresh by (auto simp: distinct_okey_insert)
    show "before ?o (mo_price x) (mo_price y)"
      if "x \<in> set (a_insert ?s ?r (a_side ?s A))" "y \<in> set (a_side ?o A)" for x y
      using that abook_uncrossed [OF ok] un [OF that(2)] r(3) by (auto simp: crosses_def)
  qed
qed

lemma a_finish_ok:
  assumes ok: "abook_ok A" and new: "oa_orderType t = GoodTillCancel \<Longrightarrow>
    a_find (oa_clientId t) (oa_clientOrderId t) A = None"
  shows "abook_ok (fst (a_finish v t f g A io))"
proof -
  obtain q A' io' where take: "a_take v t A io = (q, A', io')" by (cases "a_take v t A io") auto
  note tk = a_take_ok [OF ok take]
  show ?thesis
  proof (cases "q \<noteq> 0 \<and> oa_orderType t = GoodTillCancel")
    case True
    then have "abook_ok (a_rest t q A')"
      by (intro a_rest_ok) (use tk new in auto)
    with True show ?thesis by (simp add: a_finish_def take)
  next
    case False
    with tk(1) show ?thesis by (cases "oa_orderType t") (auto simp: a_finish_def take)
  qed
qed

lemma a_side_drop: "a_side s (a_drop c k A) = filter (\<lambda>r. \<not> has_key c k r) (a_side s A)"
  by (cases s) (simp_all add: a_drop_def)

lemma a_drop_ok:
  assumes "abook_ok A"
  shows "abook_ok (a_drop c k A)"
proof (rule abook_okI [of BUY])
  have "prio_sorted s (a_side s (a_drop c k A))" for s
    using abook_sorted [OF assms] by (simp add: a_side_drop prio_sorted_def sorted_wrt_filter)
  then show "prio_sorted BUY (a_side BUY (a_drop c k A))"
    "prio_sorted (opposite BUY) (a_side (opposite BUY) (a_drop c k A))" by blast+
  show "distinct (map okey (a_side BUY (a_drop c k A) @ a_side (opposite BUY) (a_drop c k A)))"
    using abook_keys [OF assms, of BUY] unfolding a_side_drop filter_append [symmetric] by (rule distinct_map_filter)
qed (use abook_order [OF assms] abook_uncrossed [OF assms, of _ BUY] in \<open>auto simp: a_side_drop\<close>)

text \<open>A partial cancel reduces one order in place: it keeps its position in the queue.\<close>

definition reduce :: "ClientId \<Rightarrow> OrderId \<Rightarrow> Quantity \<Rightarrow> MEOrder \<Rightarrow> MEOrder" where
  "reduce c k q r = (if has_key c k r then r\<lparr>mo_remainingQuantity := mo_remainingQuantity r - q\<rparr> else r)"

lemma a_side_shrink: "a_side s (a_shrink c k q A) = map (reduce c k q) (a_side s A)"
  by (cases s) (simp_all add: a_shrink_def reduce_def Let_def)

lemma reduce_sel [simp]: "mo_price (reduce c k q r) = mo_price r" "okey (reduce c k q r) = okey r"
  by (simp_all add: reduce_def okey_def)

lemma a_find_SomeD:
  assumes "a_find c k A = Some r"
  shows "r \<in> set (a_side (mo_side r) A) \<or> r \<in> set (a_side (opposite (mo_side r)) A)" and "has_key c k r"
  using find_SomeD [OF assms [unfolded a_find_def]] by (cases "mo_side r"; auto simp: a_orders_def)+

lemma a_find_unique:
  assumes ok: "abook_ok A" and r: "a_find c k A = Some r" and x: "x \<in> set (a_side s A)" "has_key c k x"
  shows "x = r"
proof -
  have "inj_on okey (set (ab_bids A @ ab_asks A))"
    using ok unfolding abook_ok_def a_orders_def distinct_map by blast
  moreover have "x \<in> set (ab_bids A @ ab_asks A)" using x(1) by (cases s) auto
  moreover have "r \<in> set (ab_bids A @ ab_asks A)" "has_key c k r"
    using find_SomeD [OF r [unfolded a_find_def]] by (simp_all add: a_orders_def)
  ultimately show ?thesis using x(2) by (metis has_key_def inj_onD okey_def)
qed

lemma a_shrink_ok:
  assumes ok: "abook_ok A" and r: "a_find c k A = Some r" and q: "q < mo_remainingQuantity r"
  shows "abook_ok (a_shrink c k q A)"
proof (rule abook_okI [of BUY])
  have "prio_sorted s (a_side s (a_shrink c k q A))" for s
    using abook_sorted [OF ok, of s] by (simp add: a_side_shrink prio_sorted_def sorted_wrt_map)
  then show "prio_sorted BUY (a_side BUY (a_shrink c k q A))"
    "prio_sorted (opposite BUY) (a_side (opposite BUY) (a_shrink c k q A))" by blast+
  have ord: "order_ok s (reduce c k q x)" if x: "x \<in> set (a_side s A)" for x s
  proof (cases "has_key c k x")
    case True
    then have "x = r" by (rule a_find_unique [OF ok r x])
    moreover have "mo_remainingQuantity r - q \<le> mo_remainingQuantity r" "mo_remainingQuantity r - q \<noteq> 0"
      using q by (auto simp: word_sub_le)
    ultimately show ?thesis using abook_order [OF ok x] True by (auto simp: order_ok_def reduce_def)
  qed (use abook_order [OF ok x] in \<open>simp add: reduce_def\<close>)
  show "order_ok BUY x" if "x \<in> set (a_side BUY (a_shrink c k q A))" for x
    using that ord unfolding a_side_shrink by auto
  show "order_ok (opposite BUY) x" if "x \<in> set (a_side (opposite BUY) (a_shrink c k q A))" for x
    using that ord unfolding a_side_shrink by auto
  show "distinct (map okey (a_side BUY (a_shrink c k q A) @ a_side (opposite BUY) (a_shrink c k q A)))"
    using abook_keys [OF ok, of BUY] by (simp add: a_side_shrink comp_def)
qed (use abook_uncrossed [OF ok, of _ BUY] in \<open>auto simp: a_side_shrink\<close>)

text \<open>Every operation of the book keeps the invariant.\<close>

lemma a_addOrder_ok:
  assumes "abook_ok A" and "oa_orderType args = GoodTillCancel \<Longrightarrow>
    a_find (oa_clientId args) (oa_clientOrderId args) A = None"
  shows "abook_ok (fst (a_addOrder v args A io))"
  unfolding a_addOrder_def Let_def by (rule a_finish_ok) (use assms in auto)

lemma a_cancelOrder_ok:
  assumes "abook_ok A"
  shows "abook_ok (fst (a_cancelOrder v tick c k qty tok A io))"
  using assms by (auto simp: a_cancelOrder_def Let_def intro: a_drop_ok a_shrink_ok split: option.split)

lemma a_replaceOrder_ok:
  assumes "abook_ok A" and "ty = GoodTillCancel \<Longrightarrow> a_find c k' (a_drop c k A) = None"
  shows "abook_ok (fst (a_replaceOrder v tick c k k' ty p qty tok A io))"
  using assms by (auto simp: a_replaceOrder_def Let_def intro!: a_finish_ok a_drop_ok split: option.split)

end
