(* ===== verification/Trades.thy ===== *)
theory Trades
  imports BookProps
begin

text \<open>
  What the outside sees of an operation: the messages it adds to the two outbound channels, in
  closed form, and what they say about trades. \<open>numbered\<close> is the invariant of the channels: the
  execution reports carry the match ids 1, 1, 2, 2, 3, 3 and so on, one pair per trade.
\<close>

definition new_responses :: "engine_io \<Rightarrow> engine_io \<Rightarrow> MEClientResponse list" where
  "new_responses io io' = drop (length (responses io)) (responses io')"

definition new_updates :: "engine_io \<Rightarrow> engine_io \<Rightarrow> MEMarketUpdate list" where
  "new_updates io io' = drop (length (marketUpdates io)) (marketUpdates io')"

definition trades :: "MEMarketUpdate list \<Rightarrow> MEMarketUpdate list" where
  "trades us = filter (\<lambda>u. mu_type u = U_TRADE) us"

definition executions :: "MEClientResponse list \<Rightarrow> MEClientResponse list" where
  "executions rs = filter (\<lambda>r. rs_status r = EXECUTED) rs"

lemma trades_simps [simp]:
  "trades [] = []" "trades (us @ vs) = trades us @ trades vs"
  "trades (u # us) = (if mu_type u = U_TRADE then u # trades us else trades us)"
  by (simp_all add: trades_def)

lemma executions_simps [simp]:
  "executions [] = []" "executions (rs @ ts) = executions rs @ executions ts"
  "executions (r # rs) = (if rs_status r = EXECUTED then r # executions rs else executions rs)"
  by (simp_all add: executions_def)

section \<open>The reports of a match\<close>

lemma mu_type_mk [simp]: "mu_type (mk_update a b c d e f g h) = c"
  by (simp add: rec_defs)

lemma rs_status_mk [simp]: "rs_status (mk_response a b c d e f g h s i j k l m) = s"
  by (simp add: rec_defs)

lemma trade_update_sel [simp]:
  "mu_type (trade_update v t r f m) = U_TRADE" "mu_qty (trade_update v t r f m) = f"
  "mu_market_order_id (trade_update v t r f m) = mo_marketOrderId r" "mu_price (trade_update v t r f m) = mo_price r"
  by (simp_all add: trade_update_def rec_defs)

lemma resting_fill_sel [simp]:
  "rs_status (resting_fill t r f m) = EXECUTED" "rs_executed_qty (resting_fill t r f m) = f"
  "rs_execution_price (resting_fill t r f m) = mo_price r" "rs_match_id (resting_fill t r f m) = m"
  by (simp_all add: resting_fill_def rec_defs)

lemma incoming_fill_sel [simp]:
  "rs_status (incoming_fill t r f q m) = EXECUTED" "rs_executed_qty (incoming_fill t r f q m) = f"
  "rs_execution_price (incoming_fill t r f q m) = mo_price r" "rs_match_id (incoming_fill t r f q m) = m"
  by (simp_all add: incoming_fill_def rec_defs)

lemma own_report_sel [simp]: "rs_status (own_report t s q) = s"
  by (simp add: own_report_def)

lemma trades_fill_updates [simp]: "trades (fill_updates v t m fs) = fill_updates v t m fs"
  by (induction v t m fs rule: fill_updates.induct) auto

lemma executions_fill_responses [simp]: "executions (fill_responses t q m fs) = fill_responses t q m fs"
  by (induction t q m fs rule: fill_responses.induct) auto

lemma fill_updates_maps:
  "map mu_qty (fill_updates v t m fs) = map snd fs"
  "map mu_market_order_id (fill_updates v t m fs) = map (\<lambda>x. mo_marketOrderId (fst x)) fs"
  "map mu_price (fill_updates v t m fs) = map (\<lambda>x. mo_price (fst x)) fs"
  by (induction v t m fs rule: fill_updates.induct) auto

lemma length_fill_updates [simp]: "length (fill_updates v t m fs) = length fs"
  by (induction v t m fs rule: fill_updates.induct) auto

text \<open>Every trade is reported twice under one match id, and the ids count up.\<close>

fun pair_up :: "OrderId list \<Rightarrow> OrderId list" where
  "pair_up [] = []"
| "pair_up (m # ms) = m # m # pair_up ms"

lemma pair_up_append [simp]: "pair_up (xs @ ys) = pair_up xs @ pair_up ys"
  by (induction xs rule: pair_up.induct) auto

definition ids_from :: "OrderId \<Rightarrow> nat \<Rightarrow> OrderId list" where
  "ids_from m n = map (\<lambda>i. m + of_nat i) [0..<n]"

lemma ids_from_0 [simp]: "ids_from m 0 = []"
  by (simp add: ids_from_def)

lemma ids_from_Suc: "ids_from m (Suc n) = m # ids_from (m + 1) n"
proof -
  have "map (\<lambda>i. m + of_nat i) [0..<Suc n] = m # map (\<lambda>i. m + of_nat (Suc i)) [0..<n]"
    by (simp add: upt_conv_Cons map_Suc_upt [symmetric] del: upt_Suc)
  then show ?thesis by (simp add: ids_from_def algebra_simps)
qed

lemma ids_from_add: "ids_from m (a + b) = ids_from m a @ ids_from (m + of_nat a) b"
  by (induction a arbitrary: m) (simp_all add: ids_from_Suc algebra_simps)

lemma fill_responses_ids: "map rs_match_id (fill_responses t q m fs) = pair_up (ids_from m (length fs))"
  by (induction t q m fs rule: fill_responses.induct) (auto simp: ids_from_Suc)

lemma fill_responses_executed:
  "(\<Sum>r\<leftarrow>fill_responses t q m fs. unat (rs_executed_qty r)) = 2 * (\<Sum>x\<leftarrow>fs. unat (snd x))"
  by (induction t q m fs rule: fill_responses.induct) auto

lemma fill_responses_price:
  "r \<in> set (fill_responses t q m fs) \<Longrightarrow> rs_execution_price r \<in> (\<lambda>x. mo_price (fst x)) ` set fs"
  by (induction t q m fs rule: fill_responses.induct) auto

section \<open>The outcome of adding an order\<close>

text \<open>
  Names for the parts of an outcome: the fills of an incoming order, what remains of it, and the
  book after matching.
\<close>

definition in_fills :: "order_args \<Rightarrow> abook \<Rightarrow> (MEOrder \<times> Quantity) list" where
  "in_fills t A = a_fills t (oa_initialQuantity t) (a_side (opposite (oa_side t)) A)"

definition in_left :: "order_args \<Rightarrow> abook \<Rightarrow> Quantity" where
  "in_left t A = oa_initialQuantity t - fills_total (in_fills t A)"

definition in_book :: "order_args \<Rightarrow> abook \<Rightarrow> abook" where
  "in_book t A = a_set_side (opposite (oa_side t))
     (a_leave t (oa_initialQuantity t) (a_side (opposite (oa_side t)) A)) A"

lemma in_left_quantity:
  "unat (oa_initialQuantity t) = (\<Sum>x\<leftarrow>in_fills t A. unat (snd x)) + unat (in_left t A)"
  using fills_total_ok [of t "oa_initialQuantity t" "a_side (opposite (oa_side t)) A"]
  by (simp add: in_fills_def in_left_def unat_sub word_le_nat_alt)

lemma in_fills_waterfall:
  "map (\<lambda>x. unat (snd x)) (in_fills t A) = waterfall (unat (oa_initialQuantity t))
     (map (\<lambda>r. unat (mo_remainingQuantity r)) (takeWhile (crosses t) (a_side (opposite (oa_side t)) A)))"
  unfolding in_fills_def by (rule a_fills_waterfall)

lemma crosses_mid [simp]: "crosses (t\<lparr>oa_marketOrderId := m\<rparr>) = crosses t"
  by (simp add: crosses_def fun_eq_iff)

lemma a_fills_mid [simp]: "a_fills (t\<lparr>oa_marketOrderId := m\<rparr>) q L = a_fills t q L"
  by (induction t q L rule: a_fills.induct) (auto simp: Let_def)

lemma a_leave_mid [simp]: "a_leave (t\<lparr>oa_marketOrderId := m\<rparr>) q L = a_leave t q L"
  by (induction t q L rule: a_leave.induct) auto

lemma in_mid [simp]:
  "in_fills (t\<lparr>oa_marketOrderId := m\<rparr>) A = in_fills t A" "in_left (t\<lparr>oa_marketOrderId := m\<rparr>) A = in_left t A"
  "in_fills t (A\<lparr>ab_next := n\<rparr>) = in_fills t A" "in_left t (A\<lparr>ab_next := n\<rparr>) = in_left t A"
  by (simp_all add: in_fills_def in_left_def)

lemma a_take_log:
  "a_take v t A io =
    (in_left t A, in_book t A,
     io\<lparr>next_match_id := next_match_id io + of_nat (length (in_fills t A)),
        responses := responses io @ fill_responses t (oa_initialQuantity t) (next_match_id io) (in_fills t A),
        marketUpdates := marketUpdates io @ fill_updates v t (next_match_id io) (in_fills t A)\<rparr>)"
  by (simp add: a_take_def a_match_log Let_def in_fills_def in_left_def in_book_def)

lemma a_addOrder_log:
  assumes "t = args\<lparr>oa_marketOrderId := ab_next A\<rparr>" and "io' = snd (a_addOrder v args A io)"
  shows "new_responses io io' = own_report t ACCEPTED (oa_initialQuantity t) #
      fill_responses t (oa_initialQuantity t) (next_match_id io) (in_fills t A) @
      (if in_left t A \<noteq> 0 \<and> oa_orderType t = FillAndKill then [own_report t CANCELED (in_left t A)] else [])"
    and "new_updates io io' = fill_updates v t (next_match_id io) (in_fills t A) @
      (if in_left t A \<noteq> 0 \<and> oa_orderType t = GoodTillCancel
       then [mk_update (oa_tickerId t) (oa_marketOrderId t) U_ADD (oa_side t) (oa_price t) (in_left t A)
         OrderId_INVALID OrderId_INVALID] else [])"
    and "next_match_id io' = next_match_id io + of_nat (length (in_fills t A))"
    and "fst (a_addOrder v args A io) =
      (if in_left t A \<noteq> 0 \<and> oa_orderType t = GoodTillCancel then a_rest t (in_left t A) (in_book t (A\<lparr>ab_next := ab_next A + 1\<rparr>))
       else in_book t (A\<lparr>ab_next := ab_next A + 1\<rparr>))"
  unfolding assms
  by (cases "oa_orderType args"; simp add: a_addOrder_def a_finish_def a_take_log Let_def new_responses_def
      new_updates_def sendClientResponse_def sendMarketUpdate_def)+

section \<open>Trade numbering\<close>

definition numbered :: "engine_io \<Rightarrow> bool" where
  "numbered io \<longleftrightarrow> (\<exists>n. next_match_id io = 1 + of_nat n \<and>
     map rs_match_id (executions (responses io)) = pair_up (ids_from 1 n))"

lemma numbered_send [simp]:
  "rs_status r \<noteq> EXECUTED \<Longrightarrow> numbered (sendClientResponse r io) = numbered io"
  "numbered (sendMarketUpdate u io) = numbered io"
  by (simp_all add: numbered_def)

lemma numbered_take:
  assumes "numbered io" and "a_take v t A io = (q, A', io')"
  shows "numbered io'"
proof -
  obtain n where n: "next_match_id io = 1 + of_nat n"
    "map rs_match_id (executions (responses io)) = pair_up (ids_from 1 n)"
    using assms(1) by (auto simp: numbered_def)
  with assms(2) show ?thesis
    unfolding numbered_def a_take_log
    by (intro exI [of _ "n + length (in_fills t A)"]) (auto simp: ids_from_add fill_responses_ids algebra_simps)
qed

lemma numbered_finish:
  assumes "numbered io" and "\<And>q io. numbered (f q io) = numbered io" and "\<And>q io. numbered (g q io) = numbered io"
  shows "numbered (snd (a_finish v t f g A io))"
proof -
  obtain q A' io' where take: "a_take v t A io = (q, A', io')" by (cases "a_take v t A io") auto
  then have "numbered io'" using assms(1) by (rule numbered_take [rotated])
  then show ?thesis by (simp add: a_finish_def take assms(2,3) split: OrderType.split)
qed

lemma numbered_add: "numbered io \<Longrightarrow> numbered (snd (a_addOrder v args A io))"
  unfolding a_addOrder_def Let_def by (rule numbered_finish) simp_all

lemma numbered_cancel: "numbered io \<Longrightarrow> numbered (snd (a_cancelOrder v tick c k qty tok A io))"
  by (simp add: a_cancelOrder_def Let_def reject_response_def split: option.split)

lemma numbered_replace: "numbered io \<Longrightarrow> numbered (snd (a_replaceOrder v tick c k k' ty p qty tok A io))"
  by (cases v) (auto simp: a_replaceOrder_def Let_def reject_response_def intro!: numbered_finish split: option.split)

section \<open>Facts the properties rest on\<close>

text \<open>The trades of an added order: the best orders first, at their own prices.\<close>

lemma in_fills_prefix: "map fst (in_fills t A) = take (length (in_fills t A)) (a_side (opposite (oa_side t)) A)"
  unfolding in_fills_def by (rule a_fills_prefix)

lemma map_in_fills:
  "map (\<lambda>x. g (fst x)) (in_fills t A) = take (length (in_fills t A)) (map g (a_side (opposite (oa_side t)) A))"
proof -
  have "map (\<lambda>x. g (fst x)) (in_fills t A) = map g (map fst (in_fills t A))" by simp
  then show ?thesis by (simp only: in_fills_prefix take_map)
qed

lemma add_trades:
  assumes "io' = snd (a_addOrder v args A io)"
  shows "trades (new_updates io io') =
    fill_updates v (args\<lparr>oa_marketOrderId := ab_next A\<rparr>) (next_match_id io) (in_fills args A)"
  using a_addOrder_log(2) [OF refl assms] by simp

lemma add_executions:
  assumes "io' = snd (a_addOrder v args A io)"
  shows "executions (new_responses io io') = fill_responses (args\<lparr>oa_marketOrderId := ab_next A\<rparr>)
    (oa_initialQuantity args) (next_match_id io) (in_fills args A)"
  using a_addOrder_log(1) [OF refl assms] by simp

text \<open>Price-time priority as a statement on the published trades.\<close>

definition price_time :: "order_args \<Rightarrow> abook \<Rightarrow> MEMarketUpdate list \<Rightarrow> bool" where
  "price_time args A us \<longleftrightarrow>
    (let L = a_side (opposite (oa_side args)) A in
     map (\<lambda>u. unat (mu_qty u)) us = waterfall (unat (oa_initialQuantity args))
       (map (\<lambda>r. unat (mo_remainingQuantity r)) (takeWhile (crosses args) L)) \<and>
     map mu_market_order_id us = take (length us) (map mo_marketOrderId L) \<and>
     map mu_price us = take (length us) (map mo_price L))"

lemma add_price_time:
  assumes "io' = snd (a_addOrder v args A io)"
  shows "price_time args A (trades (new_updates io io'))"
proof -
  have "map (\<lambda>u. unat (mu_qty u)) (fill_updates v t m fs) = map (\<lambda>x. unat (snd x)) fs" for v t m fs
    using arg_cong [OF fill_updates_maps(1) [of v t m fs], of "map unat"] by (simp add: comp_def)
  then show ?thesis
    unfolding price_time_def add_trades [OF assms] Let_def
    by (simp add: in_fills_waterfall fill_updates_maps map_in_fills)
qed

text \<open>Depth: the quantity resting on a side.\<close>

definition depth :: "Side \<Rightarrow> abook \<Rightarrow> nat" where
  "depth s A = (\<Sum>r\<leftarrow>a_side s A. unat (mo_remainingQuantity r))"

lemma depth_rest:
  "depth s (a_rest t q A) = depth s A + (if s = oa_side t then unat q else 0)"
proof -
  have "(\<Sum>x\<leftarrow>a_insert s r L. unat (mo_remainingQuantity x)) =
      unat (mo_remainingQuantity r) + (\<Sum>x\<leftarrow>L. unat (mo_remainingQuantity x))" for s r L
  proof -
    let ?P = "\<lambda>x. \<not> before s (mo_price r) (mo_price x)" and ?f = "\<lambda>x. unat (mo_remainingQuantity x)"
    have "(\<Sum>x\<leftarrow>L. ?f x) = (\<Sum>x\<leftarrow>takeWhile ?P L @ dropWhile ?P L. ?f x)" by simp
    then show ?thesis unfolding a_insert_def by (simp del: takeWhile_dropWhile_id)
  qed
  then show ?thesis by (simp add: depth_def a_rest_def rec_defs)
qed

lemma depth_in_book:
  "depth (opposite (oa_side t)) A = depth (opposite (oa_side t)) (in_book t A) + (\<Sum>x\<leftarrow>in_fills t A. unat (snd x))"
  "depth (oa_side t) (in_book t A) = depth (oa_side t) A"
  using a_leave_quantity [of "a_side (opposite (oa_side t)) A" t "oa_initialQuantity t"]
    fills_total_ok [of t "oa_initialQuantity t" "a_side (opposite (oa_side t)) A"]
  by (simp_all add: depth_def in_book_def in_fills_def)

lemma depth_counter [simp]: "depth s (A\<lparr>ab_next := n\<rparr>) = depth s A"
  by (simp add: depth_def)

lemma add_depth:
  assumes "A' = fst (a_addOrder v args A io)" and "io' = snd (a_addOrder v args A io)"
    and "us = trades (new_updates io io')"
  shows "depth (opposite (oa_side args)) A = depth (opposite (oa_side args)) A' + (\<Sum>u\<leftarrow>us. unat (mu_qty u))"
    and "oa_orderType args = GoodTillCancel \<Longrightarrow>
      depth (oa_side args) A' + (\<Sum>u\<leftarrow>us. unat (mu_qty u)) = depth (oa_side args) A + unat (oa_initialQuantity args)"
    and "oa_orderType args = FillAndKill \<Longrightarrow> a_side (oa_side args) A' = a_side (oa_side args) A"
proof -
  let ?t = "args\<lparr>oa_marketOrderId := ab_next A\<rparr>" and ?A = "A\<lparr>ab_next := ab_next A + 1\<rparr>"
  have A': "A' = (if in_left ?t A \<noteq> 0 \<and> oa_orderType ?t = GoodTillCancel then a_rest ?t (in_left ?t A) (in_book ?t ?A)
      else in_book ?t ?A)"
    unfolding assms(1) by (rule a_addOrder_log(4) [OF refl refl])
  have tq: "(\<Sum>u\<leftarrow>us. unat (mu_qty u)) = (\<Sum>x\<leftarrow>in_fills args A. unat (snd x))"
    using arg_cong [OF fill_updates_maps(1) [of v ?t "next_match_id io" "in_fills args A"], of "\<lambda>l. sum_list (map unat l)"]
    by (simp add: assms(3) add_trades [OF assms(2)] comp_def)
  have d: "depth (opposite (oa_side args)) A = depth (opposite (oa_side args)) (in_book ?t ?A) + (\<Sum>x\<leftarrow>in_fills args A. unat (snd x))"
    "depth (oa_side args) (in_book ?t ?A) = depth (oa_side args) A"
    using depth_in_book [of ?t ?A] by simp_all
  have q: "unat (oa_initialQuantity args) = (\<Sum>x\<leftarrow>in_fills args A. unat (snd x)) + unat (in_left args A)"
    by (rule in_left_quantity)
  show "depth (opposite (oa_side args)) A = depth (opposite (oa_side args)) A' + (\<Sum>u\<leftarrow>us. unat (mu_qty u))"
    using d(1) by (auto simp: A' tq depth_rest)
  show "oa_orderType args = GoodTillCancel \<Longrightarrow>
      depth (oa_side args) A' + (\<Sum>u\<leftarrow>us. unat (mu_qty u)) = depth (oa_side args) A + unat (oa_initialQuantity args)"
    using d(2) q by (auto simp: A' tq depth_rest)
  show "oa_orderType args = FillAndKill \<Longrightarrow> a_side (oa_side args) A' = a_side (oa_side args) A"
    by (simp add: A' in_book_def)
qed

text \<open>Nobody trades beyond the limit.\<close>

lemma add_limit:
  assumes "io' = snd (a_addOrder v args A io)" and "r \<in> set (executions (new_responses io io'))"
  shows "(oa_side args = BUY \<longrightarrow> rs_execution_price r \<le> oa_price args) \<and>
    (oa_side args = SELL \<longrightarrow> oa_price args \<le> rs_execution_price r) \<and>
    rs_execution_price r \<in> mo_price ` set (a_side (opposite (oa_side args)) A)"
proof -
  obtain x where x: "x \<in> set (in_fills args A)" "rs_execution_price r = mo_price (fst x)"
    using fill_responses_price assms(2) unfolding add_executions [OF assms(1)] by blast
  then have "crosses args (fst x)"
    using a_fills_crosses [of "fst x" "snd x"] by (simp add: in_fills_def)
  moreover have "fst x \<in> set (a_side (opposite (oa_side args)) A)"
    using x(1) in_fills_prefix [of args A] by (metis image_eqI in_set_takeD list.set_map)
  ultimately show ?thesis using x(2) by (cases "oa_side args") (auto simp: crosses_def)
qed

text \<open>The two books differ in messages only: the state they lead to is the same.\<close>

lemma in_book_mid [simp]: "in_book (t\<lparr>oa_marketOrderId := m\<rparr>) A = in_book t A"
  by (simp add: in_book_def)

lemma a_finish_book:
  "fst (a_finish v t f g A io) = (if in_left t A \<noteq> 0 \<and> oa_orderType t = GoodTillCancel
     then a_rest t (in_left t A) (in_book t A) else in_book t A)"
  by (simp add: a_finish_def a_take_log split: OrderType.split)

lemma addOrder_book: "fst (a_addOrder v args A io) = fst (a_addOrder v' args A io')"
  by (simp add: a_addOrder_def Let_def a_finish_book)

lemma cancelOrder_book: "fst (a_cancelOrder v tick c k qty tok A io) = fst (a_cancelOrder v' tick c k qty tok A io')"
  by (simp add: a_cancelOrder_def Let_def split: option.split)

lemma replaceOrder_book:
  "fst (a_replaceOrder v tick c k k' ty p qty tok A io) = fst (a_replaceOrder v' tick c k k' ty p qty tok A io')"
  by (simp add: a_replaceOrder_def Let_def a_finish_book split: option.split)

definition without_match_id :: "MEMarketUpdate \<Rightarrow> MEMarketUpdate" where
  "without_match_id u = u\<lparr>mu_match_id := OrderId_INVALID\<rparr>"

lemma fill_updates_variants:
  "map without_match_id (fill_updates v t m fs) = map without_match_id (fill_updates v' t m fs)"
  by (induction v t m fs rule: fill_updates.induct) (auto simp: without_match_id_def trade_update_def rec_defs)

lemma add_messages_agree:
  assumes "io1 = snd (a_addOrder MapBook args A io)" and "io2 = snd (a_addOrder VectorBook args A io)"
  shows "new_responses io io1 = new_responses io io2"
    and "map without_match_id (new_updates io io1) = map without_match_id (new_updates io io2)"
  unfolding a_addOrder_log(1,2) [OF refl assms(1)] a_addOrder_log(1,2) [OF refl assms(2)]
  using fill_updates_variants [of MapBook _ _ _ VectorBook] by simp_all

end
