(* ===== verification/OrderedMap.thy ===== *)
theory OrderedMap
  imports Types
begin

text \<open>
  \<^verbatim>\<open>std::map<Price, PriceLevel, Compare>\<close> of the map order book, as an association list kept in
  the order of the comparator. The locale \<open>key_order\<close> is the requirement the standard puts on
  \<^verbatim>\<open>Compare\<close> (here: a strict linear order); it is interpreted for the comparators of both sides.
\<close>

definition om_get :: "'k \<Rightarrow> ('k \<times> PriceLevel) list \<Rightarrow> PriceLevel" where
  "om_get k m = (case map_of m k of None \<Rightarrow> default_level | Some l \<Rightarrow> l)"

fun om_put :: "('k \<Rightarrow> 'k \<Rightarrow> bool) \<Rightarrow> 'k \<Rightarrow> 'v \<Rightarrow> ('k \<times> 'v) list \<Rightarrow> ('k \<times> 'v) list" where
  "om_put lt k v [] = [(k, v)]"
| "om_put lt k v ((k', v') # m) =
    (if lt k k' then (k, v) # (k', v') # m
     else if lt k' k then (k', v') # om_put lt k v m
     else (k, v) # m)"

definition om_erase :: "'k \<Rightarrow> ('k \<times> 'v) list \<Rightarrow> ('k \<times> 'v) list" where
  "om_erase k m = filter (\<lambda>(k', _). k' \<noteq> k) m"

definition om_begin :: "('k \<times> 'v) list \<Rightarrow> 'k option" where
  "om_begin m = map_option fst (first m)"

lemma map_of_om_erase [simp]: "map_of (om_erase k m) = (map_of m)(k := None)"
  by (induction m) (auto simp: om_erase_def fun_eq_iff)

definition om_sorted :: "('k \<Rightarrow> 'k \<Rightarrow> bool) \<Rightarrow> ('k \<times> 'v) list \<Rightarrow> bool" where
  "om_sorted lt m \<longleftrightarrow> sorted_wrt lt (map fst m)"

lemma om_sorted_Nil [simp]: "om_sorted lt []"
  by (simp add: om_sorted_def)

locale key_order =
  fixes lt :: "'k \<Rightarrow> 'k \<Rightarrow> bool"
  assumes lt_irrefl: "\<not> lt k k"
    and lt_trans: "lt k k' \<Longrightarrow> lt k' k'' \<Longrightarrow> lt k k''"
    and lt_linear: "lt k k' \<or> k = k' \<or> lt k' k"
begin

lemma om_sorted_Cons: "om_sorted lt ((k, v) # m) \<longleftrightarrow> (\<forall>k'\<in>fst ` set m. lt k k') \<and> om_sorted lt m"
  by (simp add: om_sorted_def)

lemma fst_om_put: "fst ` set (om_put lt k v m) = insert k (fst ` set m)"
proof (induction m)
  case (Cons x m)
  then show ?case
    using lt_linear [of k "fst x"] by (cases x) (auto simp del: split_paired_All split_paired_Ex)
qed simp

lemma om_sorted_put: "om_sorted lt m \<Longrightarrow> om_sorted lt (om_put lt k v m)"
proof (induction m)
  case (Cons x m)
  obtain k' v' where x: "x = (k', v')" by (cases x)
  have "om_sorted lt m" and "\<forall>k''\<in>fst ` set m. lt k' k''"
    using Cons.prems by (simp_all add: x om_sorted_Cons)
  then show ?case
    using Cons.IH lt_linear [of k k'] lt_trans [of k k']
    by (auto simp: x om_sorted_Cons fst_om_put)
qed (simp add: om_sorted_def)

lemma map_of_om_put: "om_sorted lt m \<Longrightarrow> map_of (om_put lt k v m) = (map_of m)(k \<mapsto> v)"
proof (induction m)
  case (Cons x m)
  obtain k' v' where x: "x = (k', v')" by (cases x)
  show ?case
    using Cons lt_linear [of k k'] lt_irrefl by (auto simp: x om_sorted_Cons fun_eq_iff)
qed simp

lemma om_sorted_erase: "om_sorted lt m \<Longrightarrow> om_sorted lt (om_erase k m)"
  by (induction m) (auto simp: om_sorted_def om_erase_def)

lemma om_begin_least:
  assumes "om_sorted lt m" and "map_of m k \<noteq> None" and "\<And>k'. map_of m k' \<noteq> None \<Longrightarrow> \<not> lt k' k"
  shows "om_begin m = Some k"
proof (cases m)
  case (Cons x m')
  obtain k' v' where x: "x = (k', v')" by (cases x)
  have "k \<in> fst ` set m" using assms(2) by (simp add: map_of_eq_None_iff)
  then have "k = k' \<or> lt k' k" using assms(1) by (auto simp: Cons x om_sorted_Cons)
  moreover have "\<not> lt k' k" using assms(3) [of k'] by (simp add: Cons x)
  ultimately show ?thesis by (simp add: Cons x om_begin_def)
qed (use assms in simp)

end

interpretation side_order: key_order "before s" for s
  by unfold_locales (use before_linear in \<open>auto intro: before_trans\<close>)

end
