(* ===== verification/Links.thy ===== *)
theory Links
  imports Types
begin

text \<open>
  Doubly linked lists in memory. A node is an address; \<open>lk a\<close> is \<open>None\<close> when nothing lives
  at \<open>a\<close> and \<open>Some (prev, next)\<close> otherwise. \<open>dlseg lk p xs q\<close> says that the nodes \<open>xs\<close> form
  a segment whose first node points back to \<open>p\<close> and whose last node points on to \<open>q\<close>. The
  same predicate serves the orders of a price level and the active levels of the vector
  book. The second half holds the operations both order books perform on the list of
  orders of one level: \<open>link_order\<close> (the tail insertion of \<^verbatim>\<open>MEOrderBook::insert\<close>) and
  \<open>unlink_order\<close> (the pointer surgery of \<^verbatim>\<open>MEOrderBook::remove\<close>).
\<close>

section \<open>Segments\<close>

type_synonym 'a links = "'a \<Rightarrow> ('a option \<times> 'a option) option"

definition first_or :: "'a list \<Rightarrow> 'a option \<Rightarrow> 'a option" where
  "first_or xs q = (case xs of [] \<Rightarrow> q | x # _ \<Rightarrow> Some x)"

definition final_or :: "'a list \<Rightarrow> 'a option \<Rightarrow> 'a option" where
  "final_or xs p = (if xs = [] then p else Some (last xs))"

fun dlseg :: "'a links \<Rightarrow> 'a option \<Rightarrow> 'a list \<Rightarrow> 'a option \<Rightarrow> bool" where
  "dlseg lk p [] q = True"
| "dlseg lk p (a # xs) q = (lk a = Some (p, first_or xs q) \<and> dlseg lk (Some a) xs q)"

lemma first_or_simps [simp]:
  "first_or [] q = q" "first_or (x # xs) q = Some x"
  by (simp_all add: first_or_def)

lemma final_or_simps [simp]:
  "final_or [] p = p" "final_or (x # xs) p = final_or xs (Some x)" "final_or (xs @ [y]) p = Some y"
  by (simp_all add: final_or_def)

lemma first_or_None [simp]: "first_or xs None = first xs"
  by (cases xs) auto

lemma final_or_None [simp]: "final_or xs None = final xs"
  by (simp add: final_or_def final_def)

lemma first_or_append: "first_or (xs @ ys) q = first_or xs (first_or ys q)"
  by (cases xs) auto

lemma dlseg_append:
  "dlseg lk p (xs @ ys) q \<longleftrightarrow> dlseg lk p xs (first_or ys q) \<and> dlseg lk (final_or xs p) ys q"
  by (induction xs arbitrary: p) (auto simp: first_or_append)

lemma dlseg_cong:
  "(\<And>x. x \<in> set xs \<Longrightarrow> lk' x = lk x) \<Longrightarrow> dlseg lk' p xs q = dlseg lk p xs q"
  by (induction xs arbitrary: p) auto

lemma dlseg_frame [simp]: "a \<notin> set xs \<Longrightarrow> dlseg (lk(a := v)) p xs q = dlseg lk p xs q"
  by (rule dlseg_cong) auto

lemma dlseg_lookup:
  "dlseg lk p (xs @ a # ys) q \<Longrightarrow> lk a = Some (final_or xs p, first_or ys q)"
  by (simp add: dlseg_append)

lemma dlseg_in_dom: "dlseg lk p xs q \<Longrightarrow> x \<in> set xs \<Longrightarrow> lk x \<noteq> None"
  by (induction xs arbitrary: p) auto

text \<open>
  Writing one field of a node: undefined when nothing lives at the address. These are the
  assignments through \<^verbatim>\<open>->next_\<close> and \<^verbatim>\<open>->prev_\<close>, on the links alone.
\<close>

definition lk_next :: "'a option \<Rightarrow> 'a \<Rightarrow> 'a links \<Rightarrow> 'a links" where
  "lk_next q a lk = lk(a := map_option (\<lambda>(p, _). (p, q)) (lk a))"

definition lk_prev :: "'a option \<Rightarrow> 'a \<Rightarrow> 'a links \<Rightarrow> 'a links" where
  "lk_prev p a lk = lk(a := map_option (\<lambda>(_, q). (p, q)) (lk a))"

definition lk_next_opt :: "'a option \<Rightarrow> 'a option \<Rightarrow> 'a links \<Rightarrow> 'a links" where
  "lk_next_opt q ao lk = (case ao of None \<Rightarrow> lk | Some a \<Rightarrow> lk_next q a lk)"

definition lk_prev_opt :: "'a option \<Rightarrow> 'a option \<Rightarrow> 'a links \<Rightarrow> 'a links" where
  "lk_prev_opt p ao lk = (case ao of None \<Rightarrow> lk | Some a \<Rightarrow> lk_prev p a lk)"

lemmas lk_defs = lk_next_def lk_prev_def lk_next_opt_def lk_prev_opt_def

text \<open>Redirecting the last node's \<open>next\<close>, or the first node's \<open>prev\<close>, keeps the segment.\<close>

lemma dlseg_set_final:
  assumes "dlseg lk p (xs @ [a]) q" and "distinct (xs @ [a])"
  shows "dlseg (lk_next q' a lk) p (xs @ [a]) q'"
  using assms by (auto simp: dlseg_append lk_next_def)

lemma dlseg_set_first:
  assumes "dlseg lk p (a # xs) q" and "distinct (a # xs)"
  shows "dlseg (lk_prev p' a lk) p' (a # xs) q"
  using assms by (auto simp: lk_prev_def)

lemma dlseg_redirect_final:
  assumes "dlseg lk None xs q" and "distinct xs"
  shows "dlseg (lk_next_opt q' (final xs) lk) None xs q'"
  using assms by (cases xs rule: rev_cases) (auto simp: lk_next_opt_def dlseg_set_final)

lemma dlseg_redirect_first:
  assumes "dlseg lk p xs None" and "distinct xs"
  shows "dlseg (lk_prev_opt p' (first xs) lk) p' xs None"
  using assms by (cases xs) (auto simp: lk_prev_opt_def lk_prev_def)

lemma dlseg_lk_next_opt_frame:
  "(\<And>a. ao = Some a \<Longrightarrow> a \<notin> set xs) \<Longrightarrow> dlseg (lk_next_opt q' ao lk) p xs q = dlseg lk p xs q"
  by (auto simp: lk_next_opt_def lk_next_def split: option.splits)

lemma dlseg_lk_prev_opt_frame:
  "(\<And>a. ao = Some a \<Longrightarrow> a \<notin> set xs) \<Longrightarrow> dlseg (lk_prev_opt p' ao lk) p xs q = dlseg lk p xs q"
  by (auto simp: lk_prev_opt_def lk_prev_def split: option.splits)

lemma first_in_set: "first xs = Some a \<Longrightarrow> a \<in> set xs"
  by (cases xs) auto

lemma final_in_set: "final xs = Some a \<Longrightarrow> a \<in> set xs"
  by (auto simp: final_def split: if_splits)

text \<open>Taking a node out of a list, on the links: the neighbours are joined.\<close>

lemma dlseg_unlink:
  assumes "dlseg lk None (xs @ a # ys) None" and "distinct (xs @ a # ys)"
  shows "dlseg (lk_prev_opt (final xs) (first ys) (lk_next_opt (first ys) (final xs) lk))
    None (xs @ ys) None"
proof -
  have xs: "dlseg lk None xs (Some a)" and ys: "dlseg lk (Some a) ys None"
    and d: "distinct xs" "distinct ys" "set xs \<inter> set ys = {}"
    using assms by (auto simp: dlseg_append)
  have "dlseg (lk_next_opt (first ys) (final xs) lk) None xs (first ys)"
    using xs d(1) by (rule dlseg_redirect_final)
  moreover have "dlseg (lk_next_opt (first ys) (final xs) lk) (Some a) ys None"
    using ys d by (subst dlseg_lk_next_opt_frame) (auto dest: final_in_set)
  then have "dlseg (lk_prev_opt (final xs) (first ys) (lk_next_opt (first ys) (final xs) lk))
      (final xs) ys None"
    using d(2) by (rule dlseg_redirect_first)
  moreover have "dlseg (lk_prev_opt (final xs) (first ys) lk') None xs q = dlseg lk' None xs q" for lk' q
    using d by (subst dlseg_lk_prev_opt_frame) (auto dest: first_in_set)
  ultimately show ?thesis
    by (simp add: dlseg_append)
qed

text \<open>Appending a node whose own links are already set.\<close>

lemma dlseg_link:
  assumes "dlseg lk None xs None" and "distinct xs" and "a \<notin> set xs" and "lk a = Some (final xs, None)"
  shows "dlseg (lk_next_opt (Some a) (final xs) lk) None (xs @ [a]) None"
proof -
  have "dlseg (lk_next_opt (Some a) (final xs) lk) None xs (Some a)"
    using assms(1,2) by (rule dlseg_redirect_final)
  moreover have "lk_next_opt (Some a) (final xs) lk a = lk a"
    using assms(3) by (auto simp: lk_defs dest: final_in_set split: option.splits)
  ultimately show ?thesis
    using assms(4) by (simp add: dlseg_append)
qed

section \<open>The orders of one price level\<close>

type_synonym heap = "addr \<rightharpoonup> MEOrder"

text \<open>Assignments \<^verbatim>\<open>order->next_ = \<dots>\<close> and \<^verbatim>\<open>order->prev_ = \<dots>\<close>.\<close>

definition set_next :: "addr \<Rightarrow> addr option \<Rightarrow> heap \<Rightarrow> heap option" where
  "set_next a n h = do { r \<leftarrow> h a; Some (h(a \<mapsto> r\<lparr>mo_next := n\<rparr>)) }"

definition set_prev :: "addr \<Rightarrow> addr option \<Rightarrow> heap \<Rightarrow> heap option" where
  "set_prev a p h = do { r \<leftarrow> h a; Some (h(a \<mapsto> r\<lparr>mo_prev := p\<rparr>)) }"

definition link_order :: "addr \<Rightarrow> PriceLevel \<Rightarrow> heap \<Rightarrow> (PriceLevel \<times> heap) option" where
  "link_order order priceLevel h =
    (if pl_head priceLevel = None
     then Some (priceLevel\<lparr>pl_head := Some order, pl_tail := Some order\<rparr>, h)
     else do {
       h \<leftarrow> set_prev order (pl_tail priceLevel) h;
       tail \<leftarrow> pl_tail priceLevel;
       h \<leftarrow> set_next tail (Some order) h;
       Some (priceLevel\<lparr>pl_tail := Some order\<rparr>, h)
     })"

definition unlink_order :: "addr \<Rightarrow> PriceLevel \<Rightarrow> heap \<Rightarrow> (PriceLevel \<times> heap) option" where
  "unlink_order order priceLevel h = do {
     r \<leftarrow> h order;
     (priceLevel, h) \<leftarrow> (case mo_prev r of
         Some prev \<Rightarrow> do { h \<leftarrow> set_next prev (mo_next r) h; Some (priceLevel, h) }
       | None \<Rightarrow> Some (priceLevel\<lparr>pl_head := mo_next r\<rparr>, h));
     r \<leftarrow> h order;
     (case mo_next r of
         Some nxt \<Rightarrow> do { h \<leftarrow> set_prev nxt (mo_prev r) h; Some (priceLevel, h) }
       | None \<Rightarrow> Some (priceLevel\<lparr>pl_tail := mo_prev r\<rparr>, h))
   }"

definition order_links :: "heap \<Rightarrow> addr links" where
  "order_links h a = map_option (\<lambda>r. (mo_prev r, mo_next r)) (h a)"

text \<open>The data stored at an address, without the links.\<close>

definition data :: "heap \<Rightarrow> heap" where
  "data h a = map_option unlinked (h a)"

text \<open>\<open>level_ok h xs l\<close>: the level \<open>l\<close> holds exactly the orders \<open>xs\<close>, oldest first.\<close>

definition level_ok :: "heap \<Rightarrow> addr list \<Rightarrow> PriceLevel \<Rightarrow> bool" where
  "level_ok h xs l \<longleftrightarrow> pl_head l = first xs \<and> pl_tail l = final xs \<and> dlseg (order_links h) None xs None"

lemma dom_data [simp]: "dom (data h) = dom h"
  by (auto simp: data_def dom_def)

lemma data_eq_None [simp]: "data h a = None \<longleftrightarrow> h a = None"
  by (simp add: data_def)

lemma data_upd [simp]: "data (h(a \<mapsto> r)) = (data h)(a \<mapsto> unlinked r)"
  by (auto simp: data_def fun_eq_iff)

lemma data_del [simp]: "data (h(a := None)) = (data h)(a := None)"
  by (auto simp: data_def fun_eq_iff)

lemma dataI: "h a = Some r \<Longrightarrow> data h a = Some (unlinked r)"
  by (simp add: data_def)

lemma data_SomeE:
  assumes "data h a = Some d"
  obtains r where "h a = Some r" and "d = unlinked r"
  using assms by (auto simp: data_def)

lemma data_upd_links:
  assumes "h a = Some r" and "unlinked r' = unlinked r"
  shows "data (h(a \<mapsto> r')) = data h"
  using assms by (auto simp: data_def fun_eq_iff)

lemma order_links_upd:
  "order_links (h(a \<mapsto> r)) = (order_links h)(a \<mapsto> (mo_prev r, mo_next r))"
  by (auto simp: order_links_def fun_eq_iff)

lemma order_links_del: "order_links (h(a := None)) = (order_links h)(a := None)"
  by (auto simp: order_links_def fun_eq_iff)

lemma order_links_Some: "order_links h a = Some (p, q) \<longleftrightarrow> (\<exists>r. h a = Some r \<and> mo_prev r = p \<and> mo_next r = q)"
  by (auto simp: order_links_def)

text \<open>Each write has the effect on the links that its name says, and none on the data.\<close>

lemma set_next_ok:
  assumes "h a \<noteq> None"
  obtains h' where "set_next a n h = Some h'" and "order_links h' = lk_next n a (order_links h)"
    and "data h' = data h" and "dom h' = dom h" and "\<And>x. x \<noteq> a \<Longrightarrow> h' x = h x"
proof -
  from assms obtain r where r: "h a = Some r" by auto
  show ?thesis
  proof
    show "set_next a n h = Some (h(a \<mapsto> r\<lparr>mo_next := n\<rparr>))"
      using r by (simp add: set_next_def)
  qed (use r in \<open>auto simp: order_links_upd lk_next_def order_links_def data_upd_links simp del: data_upd\<close>)
qed

lemma set_prev_ok:
  assumes "h a \<noteq> None"
  obtains h' where "set_prev a n h = Some h'" and "order_links h' = lk_prev n a (order_links h)"
    and "data h' = data h" and "dom h' = dom h" and "\<And>x. x \<noteq> a \<Longrightarrow> h' x = h x"
proof -
  from assms obtain r where r: "h a = Some r" by auto
  show ?thesis
  proof
    show "set_prev a n h = Some (h(a \<mapsto> r\<lparr>mo_prev := n\<rparr>))"
      using r by (simp add: set_prev_def)
  qed (use r in \<open>auto simp: order_links_upd lk_prev_def order_links_def data_upd_links simp del: data_upd\<close>)
qed

text \<open>
  Optional writes: the two branches of \<^verbatim>\<open>if (order->prev_ != nullptr) \<dots>\<close>, which either write
  to the neighbour or do nothing to the heap.
\<close>

lemma set_next_opt_ok:
  assumes "\<And>a. ao = Some a \<Longrightarrow> h a \<noteq> None"
  obtains h' where "(case ao of None \<Rightarrow> Some h | Some a \<Rightarrow> set_next a n h) = Some h'"
    and "order_links h' = lk_next_opt n ao (order_links h)"
    and "data h' = data h" and "dom h' = dom h" and "\<And>x. ao \<noteq> Some x \<Longrightarrow> h' x = h x"
proof (cases ao)
  case None
  then show ?thesis by (intro that [of h]) (auto simp: lk_next_opt_def)
next
  case (Some a)
  with assms have "h a \<noteq> None" by blast
  then obtain h' where h': "set_next a n h = Some h'" "order_links h' = lk_next n a (order_links h)"
    "data h' = data h" "dom h' = dom h" "\<And>x. x \<noteq> a \<Longrightarrow> h' x = h x"
    by (rule set_next_ok [of h a n]) (rule that)
  show ?thesis
    by (rule that [of h']) (use Some h' in \<open>auto simp: lk_next_opt_def\<close>)
qed

lemma set_prev_opt_ok:
  assumes "\<And>a. ao = Some a \<Longrightarrow> h a \<noteq> None"
  obtains h' where "(case ao of None \<Rightarrow> Some h | Some a \<Rightarrow> set_prev a n h) = Some h'"
    and "order_links h' = lk_prev_opt n ao (order_links h)"
    and "data h' = data h" and "dom h' = dom h" and "\<And>x. ao \<noteq> Some x \<Longrightarrow> h' x = h x"
proof (cases ao)
  case None
  then show ?thesis by (intro that [of h]) (auto simp: lk_prev_opt_def)
next
  case (Some a)
  with assms have "h a \<noteq> None" by blast
  then obtain h' where h': "set_prev a n h = Some h'" "order_links h' = lk_prev n a (order_links h)"
    "data h' = data h" "dom h' = dom h" "\<And>x. x \<noteq> a \<Longrightarrow> h' x = h x"
    by (rule set_prev_ok [of h a n]) (rule that)
  show ?thesis
    by (rule that [of h']) (use Some h' in \<open>auto simp: lk_prev_opt_def\<close>)
qed

lemma level_ok_in_dom: "level_ok h xs l \<Longrightarrow> x \<in> set xs \<Longrightarrow> h x \<noteq> None"
  using dlseg_in_dom [of "order_links h" None xs None x]
  by (auto simp: level_ok_def order_links_def)

lemma level_ok_cong:
  "(\<And>x. x \<in> set xs \<Longrightarrow> h' x = h x) \<Longrightarrow> level_ok h' xs l = level_ok h xs l"
  using dlseg_cong [of xs "order_links h'" "order_links h" None None]
  by (simp add: level_ok_def order_links_def)

lemma unlink_order_eq:
  assumes r: "h a = Some r" and n: "mo_prev r \<noteq> Some a"
    and h1: "(case mo_prev r of None \<Rightarrow> Some h | Some b \<Rightarrow> set_next b (mo_next r) h) = Some h1"
    and h2: "(case mo_next r of None \<Rightarrow> Some h1 | Some b \<Rightarrow> set_prev b (mo_prev r) h1) = Some h2"
  shows "unlink_order a l h = Some
    (l\<lparr>pl_head := if mo_prev r = None then mo_next r else pl_head l,
       pl_tail := if mo_next r = None then mo_prev r else pl_tail l\<rparr>, h2)"
proof -
  have "h1 a = Some r"
    using r n h1 by (auto simp: set_next_def split: option.splits bind_splits)
  then show ?thesis
    using r h1 h2 by (cases "mo_prev r"; cases "mo_next r") (auto simp: unlink_order_def)
qed

lemma unlink_order_ok:
  assumes ok: "level_ok h (xs @ a # ys) l" and d: "distinct (xs @ a # ys)"
  obtains l' h' where "unlink_order a l h = Some (l', h')" and "level_ok h' (xs @ ys) l'"
    and "data h' = data h" and "dom h' = dom h" and "\<And>x. x \<notin> set (xs @ ys) \<Longrightarrow> h' x = h x"
    and "pl_price l' = pl_price l" "pl_next l' = pl_next l" "pl_prev l' = pl_prev l"
proof -
  have seg: "dlseg (order_links h) None (xs @ a # ys) None"
    and ht: "pl_head l = first (xs @ a # ys)" "pl_tail l = final (xs @ a # ys)"
    using ok by (auto simp: level_ok_def)
  from dlseg_lookup [OF seg] obtain r where r: "h a = Some r" "mo_prev r = final xs" "mo_next r = first ys"
    by (auto simp: order_links_Some)
  have dom: "h x \<noteq> None" if "x \<in> set (xs @ a # ys)" for x
    using ok that by (rule level_ok_in_dom)
  obtain h1 where h1: "(case final xs of None \<Rightarrow> Some h | Some b \<Rightarrow> set_next b (first ys) h) = Some h1"
    "order_links h1 = lk_next_opt (first ys) (final xs) (order_links h)"
    "data h1 = data h" "dom h1 = dom h" "\<And>x. final xs \<noteq> Some x \<Longrightarrow> h1 x = h x"
    by (rule set_next_opt_ok [of "final xs" h "first ys"]) (use dom in \<open>auto dest: final_in_set\<close>)
  obtain h2 where h2: "(case first ys of None \<Rightarrow> Some h1 | Some b \<Rightarrow> set_prev b (final xs) h1) = Some h2"
    "order_links h2 = lk_prev_opt (final xs) (first ys) (order_links h1)"
    "data h2 = data h1" "dom h2 = dom h1" "\<And>x. first ys \<noteq> Some x \<Longrightarrow> h2 x = h1 x"
    by (rule set_prev_opt_ok [of "first ys" h1 "final xs"])
      (use dom h1(4) in \<open>auto dest!: first_in_set\<close>)
  have "final xs \<noteq> Some a" using d by (auto dest: final_in_set)
  then have un: "unlink_order a l h = Some
    (l\<lparr>pl_head := if final xs = None then first ys else pl_head l,
       pl_tail := if first ys = None then final xs else pl_tail l\<rparr>, h2)"
    using unlink_order_eq [of h a r h1 h2 l] unfolding r using h1(1) h2(1) r by blast
  have "dlseg (order_links h2) None (xs @ ys) None"
    unfolding h2(2) h1(2) using seg d by (rule dlseg_unlink)
  then have lvl: "level_ok h2 (xs @ ys) (l\<lparr>pl_head := if final xs = None then first ys else pl_head l,
       pl_tail := if first ys = None then final xs else pl_tail l\<rparr>)"
    using ht by (auto simp: level_ok_def first_append final_append final_def)
  have fr: "h2 x = h x" if "x \<notin> set (xs @ ys)" for x
    using that h1(5) h2(5) by (metis Un_iff final_in_set first_in_set set_append)
  show ?thesis
    by (rule that [OF un lvl _ _ fr]) (use h1(3,4) h2(3,4) in auto)
qed

lemma link_order_ok:
  assumes ok: "level_ok h xs l" and d: "distinct xs" and a: "a \<notin> set xs"
    and r: "h a = Some r" "mo_next r = None" "mo_prev r = None"
  obtains l' h' where "link_order a l h = Some (l', h')" and "level_ok h' (xs @ [a]) l'"
    and "data h' = data h" and "dom h' = dom h" and "\<And>x. x \<notin> set (xs @ [a]) \<Longrightarrow> h' x = h x"
    and "pl_price l' = pl_price l" "pl_next l' = pl_next l" "pl_prev l' = pl_prev l"
proof (cases "xs = []")
  case True
  then have "link_order a l h = Some (l\<lparr>pl_head := Some a, pl_tail := Some a\<rparr>, h)"
    using ok by (simp add: link_order_def level_ok_def)
  then show ?thesis
    by (rule that) (use True r in \<open>auto simp: level_ok_def order_links_def\<close>)
next
  case False
  then obtain t where t: "final xs = Some t" "t \<in> set xs" by (auto simp: final_def)
  have hd: "pl_head l \<noteq> None" "pl_tail l = Some t"
    using ok False t by (auto simp: level_ok_def)
  obtain h1 where h1: "set_prev a (Some t) h = Some h1" "order_links h1 = lk_prev (Some t) a (order_links h)"
    "data h1 = data h" "dom h1 = dom h" "\<And>x. x \<noteq> a \<Longrightarrow> h1 x = h x"
    by (rule set_prev_ok [of h a "Some t"]) (use r in auto)
  have "h1 t \<noteq> None" using level_ok_in_dom [OF ok t(2)] h1(4) by auto
  then obtain h2 where h2: "set_next t (Some a) h1 = Some h2" "order_links h2 = lk_next (Some a) t (order_links h1)"
    "data h2 = data h1" "dom h2 = dom h1" "\<And>x. x \<noteq> t \<Longrightarrow> h2 x = h1 x"
    by (rule set_next_ok [of h1 t "Some a"]) (rule that)
  have eq: "link_order a l h = Some (l\<lparr>pl_tail := Some a\<rparr>, h2)"
    using hd h1(1) h2(1) by (auto simp: link_order_def)
  have "dlseg (order_links h1) None xs None"
    using ok a by (simp add: h1(2) level_ok_def lk_prev_def)
  moreover have "order_links h1 a = Some (final xs, None)"
    using r t by (simp add: h1(2) lk_prev_def order_links_def)
  ultimately have "dlseg (order_links h2) None (xs @ [a]) None"
    using dlseg_link [of "order_links h1" xs a] d a t by (simp add: h2(2) lk_next_opt_def)
  then have lvl: "level_ok h2 (xs @ [a]) (l\<lparr>pl_tail := Some a\<rparr>)"
    using ok False by (auto simp: level_ok_def first_append)
  have fr: "h2 x = h x" if "x \<notin> set (xs @ [a])" for x
    using that h1(5) [of x] h2(5) [of x] t(2) by auto
  show ?thesis
    by (rule that [OF eq lvl _ _ fr]) (use h1(3,4) h2(3,4) in auto)
qed

end
