(* ===== verification/BookCore.thy ===== *)
theory BookCore
  imports Links BookSpec
begin

text \<open>
  What the two order books have in common: the object pool with the orders that live in it,
  the index \<^verbatim>\<open>orders_\<close> from client and client order id to the order, the market-order-id
  counter, and the shape of the two nested matching loops. The price levels are each book's
  own (theories MapBook and VectorBook).

  \<^verbatim>\<open>quantlink::ObjectPool\<close> is outside the repository. It enters as a parameter
  \<open>pool_ops\<close> over an arbitrary pool state \<open>'p\<close>; what the books rely on is the named
  hypothesis \<open>pool_spec\<close>.
\<close>

section \<open>The object pool\<close>

record 'p pool_ops =
  pool_allocate :: "'p \<Rightarrow> (addr \<times> 'p) option"
  pool_deallocate :: "addr \<Rightarrow> 'p \<Rightarrow> 'p"

text \<open>A client's view of a pool: which states are valid, which objects are live, how many fit.\<close>

record 'p pool_view =
  pv_inv :: "'p \<Rightarrow> bool"
  pv_live :: "'p \<Rightarrow> addr set"
  pv_cap :: "'p \<Rightarrow> nat"

text \<open>
  The pool hands out an address that is not in use as long as it is not full, and takes a
  live object back.
\<close>

definition pool_spec :: "'p pool_ops \<Rightarrow> 'p pool_view \<Rightarrow> bool" where
  "pool_spec ops pv \<longleftrightarrow>
    (\<forall>p. pv_inv pv p \<longrightarrow> finite (pv_live pv p) \<and> card (pv_live pv p) \<le> pv_cap pv p \<and>
       (card (pv_live pv p) < pv_cap pv p \<longrightarrow> pool_allocate ops p \<noteq> None)) \<and>
    (\<forall>p a p'. pv_inv pv p \<and> pool_allocate ops p = Some (a, p') \<longrightarrow>
       pv_inv pv p' \<and> a \<notin> pv_live pv p \<and> pv_live pv p' = insert a (pv_live pv p) \<and>
       pv_cap pv p' = pv_cap pv p) \<and>
    (\<forall>p a. pv_inv pv p \<and> a \<in> pv_live pv p \<longrightarrow>
       pv_inv pv (pool_deallocate ops a p) \<and>
       pv_live pv (pool_deallocate ops a p) = pv_live pv p - {a} \<and>
       pv_cap pv (pool_deallocate ops a p) = pv_cap pv p)"

lemma pool_allocateE:
  assumes "pool_spec ops pv" and "pv_inv pv p" and "card (pv_live pv p) < pv_cap pv p"
  obtains a p' where "pool_allocate ops p = Some (a, p')" and "pv_inv pv p'" and "a \<notin> pv_live pv p"
    and "pv_live pv p' = insert a (pv_live pv p)" and "pv_cap pv p' = pv_cap pv p"
proof -
  have "pool_allocate ops p \<noteq> None"
    using assms unfolding pool_spec_def by blast
  then obtain a p' where al: "pool_allocate ops p = Some (a, p')" by auto
  then have "pv_inv pv p' \<and> a \<notin> pv_live pv p \<and> pv_live pv p' = insert a (pv_live pv p) \<and>
      pv_cap pv p' = pv_cap pv p"
    using assms(1,2) unfolding pool_spec_def by blast
  with al show ?thesis by (blast intro: that)
qed

lemma pool_deallocateD:
  assumes "pool_spec ops pv" and "pv_inv pv p" and "a \<in> pv_live pv p"
  shows "pv_inv pv (pool_deallocate ops a p)"
    and "pv_live pv (pool_deallocate ops a p) = pv_live pv p - {a}"
    and "pv_cap pv (pool_deallocate ops a p) = pv_cap pv p"
  using assms unfolding pool_spec_def by blast+

section \<open>The state both books share\<close>

type_synonym order_index = "(ClientId \<times> (OrderId \<times> addr) list) list"

record 'p book_core =
  bk_tickerId :: TickerId
  bk_pool :: 'p
  bk_heap :: heap
  bk_orders :: order_index
  bk_nextMarketOrderId :: OrderId

text \<open>
  \<^verbatim>\<open>pool_.allocate(\<dots>)\<close> constructs an order in fresh storage; \<^verbatim>\<open>pool_.deallocate\<close> ends its life. What the library's pool
  does when it is exhausted is not documented in the repository, and the books use the result unchecked: the model ends in \<open>None\<close>
  there, and no theorem speaks of that case.
\<close>

definition new_order :: "'p pool_ops \<Rightarrow> MEOrder \<Rightarrow> ('p, 'z) book_core_scheme \<Rightarrow>
    (addr \<times> ('p, 'z) book_core_scheme) option" where
  "new_order ops r b = do {
     (a, p) \<leftarrow> pool_allocate ops (bk_pool b);
     Some (a, b\<lparr>bk_pool := p, bk_heap := (bk_heap b)(a \<mapsto> r)\<rparr>)
   }"

definition delete_order :: "'p pool_ops \<Rightarrow> addr \<Rightarrow> ('p, 'z) book_core_scheme \<Rightarrow> ('p, 'z) book_core_scheme" where
  "delete_order ops a b =
     b\<lparr>bk_pool := pool_deallocate ops a (bk_pool b), bk_heap := (bk_heap b)(a := None)\<rparr>"

text \<open>\<^verbatim>\<open>orders_.find(c)\<close> followed by \<^verbatim>\<open>find(k)\<close>; \<^verbatim>\<open>orders_[c][k] = a\<close>; the erase with its clean-up.\<close>

definition client_map :: "ClientId \<Rightarrow> order_index \<Rightarrow> (OrderId \<times> addr) list" where
  "client_map c ix = (case map_of ix c of None \<Rightarrow> [] | Some m \<Rightarrow> m)"

definition index_find :: "ClientId \<Rightarrow> OrderId \<Rightarrow> order_index \<Rightarrow> addr option" where
  "index_find c k ix = (case map_of ix c of None \<Rightarrow> None | Some m \<Rightarrow> map_of m k)"

definition index_put :: "ClientId \<Rightarrow> OrderId \<Rightarrow> addr \<Rightarrow> order_index \<Rightarrow> order_index" where
  "index_put c k a ix = AList.update c (AList.update k a (client_map c ix)) ix"

definition index_erase :: "ClientId \<Rightarrow> OrderId \<Rightarrow> order_index \<Rightarrow> order_index" where
  "index_erase c k ix =
    (let clientMap = AList.delete k (client_map c ix)
     in if clientMap = [] then AList.delete c ix else AList.update c clientMap ix)"

lemma index_find_put [simp]:
  "index_find c' k' (index_put c k a ix) = (if c' = c \<and> k' = k then Some a else index_find c' k' ix)"
  by (auto simp: index_find_def index_put_def client_map_def split: option.splits)

lemma index_find_erase [simp]:
  "index_find c' k' (index_erase c k ix) = (if c' = c \<and> k' = k then None else index_find c' k' ix)"
proof (cases "c' = c \<and> AList.delete k (client_map c ix) = []")
  case True
  then have "(map_of (client_map c ix))(k := None) = Map.empty"
    by (metis map_of_delete map_of.simps(1))
  then have "k' \<noteq> k \<Longrightarrow> map_of (client_map c ix) k' = None"
    by (metis fun_upd_apply)
  with True show ?thesis
    by (auto simp: index_find_def index_erase_def client_map_def split: option.splits)
next
  case False
  then show ?thesis
    by (auto simp: index_find_def index_erase_def client_map_def Let_def split: option.splits)
qed

text \<open>No client keeps an empty table: the clean-up at the end of \<^verbatim>\<open>remove\<close>.\<close>

definition index_tidy :: "order_index \<Rightarrow> bool" where
  "index_tidy ix \<longleftrightarrow> (\<forall>c m. map_of ix c = Some m \<longrightarrow> m \<noteq> [])"

lemma index_tidy_Nil [simp]: "index_tidy []"
  by (simp add: index_tidy_def)

lemma alist_update_neq_Nil [simp]: "AList.update k v al \<noteq> []"
  by (induction al) auto

lemma index_tidy_put: "index_tidy ix \<Longrightarrow> index_tidy (index_put c k a ix)"
  by (auto simp: index_tidy_def index_put_def split: if_splits)

lemma index_tidy_erase: "index_tidy ix \<Longrightarrow> index_tidy (index_erase c k ix)"
  by (auto simp: index_tidy_def index_erase_def Let_def split: if_splits)

section \<open>The matching loops\<close>

text \<open>
  \<open>level_loop\<close> is the inner loop \<^verbatim>\<open>while (level.head && remaining > 0)\<close>: it reads the head of
  the level, and the step fills against that order. \<open>sweep\<close> is the outer loop: fetch the best
  level of the opposite side, stop when there is none, when nothing remains or when the level
  no longer crosses, otherwise run the inner loop and fetch again. Neither needs to end on an
  arbitrary memory, so both are partial.
\<close>

partial_function (option) level_loop ::
  "('b \<Rightarrow> addr option option) \<Rightarrow> (addr \<Rightarrow> Quantity \<Rightarrow> 'b \<Rightarrow> engine_io \<Rightarrow> (Quantity \<times> 'b \<times> engine_io) option) \<Rightarrow>
   Quantity \<Rightarrow> 'b \<Rightarrow> engine_io \<Rightarrow> (Quantity \<times> 'b \<times> engine_io) option" where
  "level_loop head step q b io = do {
     h \<leftarrow> head b;
     (case h of
        None \<Rightarrow> Some (q, b, io)
      | Some a \<Rightarrow>
          if q = 0 then Some (q, b, io)
          else do {
            (q', b', io') \<leftarrow> step a q b io;
            level_loop head step q' b' io'
          })
   }"

partial_function (option) sweep ::
  "('b \<Rightarrow> Price option) \<Rightarrow> (Price \<Rightarrow> 'b \<Rightarrow> bool) \<Rightarrow> (Price \<Rightarrow> 'b \<Rightarrow> addr option option) \<Rightarrow>
   (Price \<Rightarrow> addr \<Rightarrow> Quantity \<Rightarrow> 'b \<Rightarrow> engine_io \<Rightarrow> (Quantity \<times> 'b \<times> engine_io) option) \<Rightarrow>
   Quantity \<Rightarrow> 'b \<Rightarrow> engine_io \<Rightarrow> (Quantity \<times> 'b \<times> engine_io) option" where
  "sweep best stop head step q b io =
    (case best b of
       None \<Rightarrow> Some (q, b, io)
     | Some p \<Rightarrow>
         if q = 0 then Some (q, b, io)
         else if stop p b then Some (q, b, io)
         else do {
           (q', b', io') \<leftarrow> level_loop (head p) (step p) q b io;
           sweep best stop head step q' b' io'
         })"

section \<open>Priority lists of addresses\<close>

text \<open>
  The memory of a book represents, per side, a list of addresses in price-time priority.
  \<open>px h a\<close> is the price of the order at \<open>a\<close>; \<open>at_price h p xs\<close> the orders of \<open>xs\<close> at one price,
  in arrival order: exactly what the price level \<open>p\<close> links together.
\<close>

definition px :: "heap \<Rightarrow> addr \<Rightarrow> Price" where
  "px h a = mo_price (the (h a))"

definition at_price :: "heap \<Rightarrow> Price \<Rightarrow> addr list \<Rightarrow> addr list" where
  "at_price h p xs = filter (\<lambda>a. px h a = p) xs"

definition prio :: "Side \<Rightarrow> heap \<Rightarrow> addr list \<Rightarrow> bool" where
  "prio s h xs \<longleftrightarrow> sorted_wrt (\<lambda>x y. \<not> before s (px h y) (px h x)) xs"

definition prio_insert :: "Side \<Rightarrow> heap \<Rightarrow> addr \<Rightarrow> addr list \<Rightarrow> addr list" where
  "prio_insert s h a xs =
     takeWhile (\<lambda>x. \<not> before s (px h a) (px h x)) xs @ a #
     dropWhile (\<lambda>x. \<not> before s (px h a) (px h x)) xs"

lemma px_data [simp]: "px (data h) = px h"
proof
  fix a show "px (data h) a = px h a"
    by (cases "h a") (simp_all add: px_def data_def)
qed

lemma px_cong: "data h' = data h \<Longrightarrow> px h' = px h"
  by (metis px_data)

lemma at_price_cong: "(\<And>x. x \<in> set xs \<Longrightarrow> px h' x = px h x) \<Longrightarrow> at_price h' p xs = at_price h p xs"
  by (auto simp: at_price_def intro: filter_cong)

lemma prio_cong: "(\<And>x. x \<in> set xs \<Longrightarrow> px h' x = px h x) \<Longrightarrow> prio s h' xs = prio s h xs"
  unfolding prio_def by (induction xs) auto

lemma at_price_removeAll: "at_price h p (removeAll a xs) = removeAll a (at_price h p xs)"
  by (simp add: at_price_def filter_removeAll)

lemma set_at_price [simp]: "set (at_price h p xs) = {a \<in> set xs. px h a = p}"
  by (auto simp: at_price_def)

lemma at_price_Nil_iff: "at_price h p xs = [] \<longleftrightarrow> p \<notin> px h ` set xs"
  by (auto simp: at_price_def filter_empty_conv)

lemma distinct_at_price: "distinct xs \<Longrightarrow> distinct (at_price h p xs)"
  by (simp add: at_price_def)

lemma prio_removeAll: "prio s h xs \<Longrightarrow> prio s h (removeAll a xs)"
  unfolding prio_def by (induction xs) auto

lemma set_prio_insert [simp]: "set (prio_insert s h a xs) = insert a (set xs)"
proof -
  let ?P = "\<lambda>x. \<not> before s (px h a) (px h x)"
  have "set (prio_insert s h a xs) = insert a (set (takeWhile ?P xs @ dropWhile ?P xs))"
    unfolding prio_insert_def by (simp del: takeWhile_dropWhile_id)
  then show ?thesis by simp
qed

lemma distinct_prio_insert: "distinct (prio_insert s h a xs) \<longleftrightarrow> a \<notin> set xs \<and> distinct xs"
  by (simp add: prio_insert_def distinct_mid del: distinct_append)

text \<open>Behind the insertion point every price is strictly worse.\<close>

lemma prio_dropWhile:
  assumes "prio s h xs" and "x \<in> set (dropWhile (\<lambda>x. \<not> before s p (px h x)) xs)"
  shows "before s p (px h x)"
  using assms
proof (induction xs)
  case (Cons y ys)
  show ?case
  proof (cases "before s p (px h y)")
    case True
    then show ?thesis
      using Cons.prems by (cases s) (auto simp: prio_def)
  next
    case False
    then show ?thesis
      using Cons by (simp add: prio_def)
  qed
qed simp

lemma at_price_append: "at_price h p (xs @ ys) = at_price h p xs @ at_price h p ys"
  by (simp add: at_price_def)

lemma at_price_Cons: "at_price h p (a # xs) = (if px h a = p then a # at_price h p xs else at_price h p xs)"
  by (simp add: at_price_def)

lemma at_price_prio_insert:
  assumes "prio s h xs"
  shows "at_price h p (prio_insert s h a xs) = (if px h a = p then at_price h p xs @ [a] else at_price h p xs)"
proof -
  define us where "us = takeWhile (\<lambda>x. \<not> before s (px h a) (px h x)) xs"
  define vs where "vs = dropWhile (\<lambda>x. \<not> before s (px h a) (px h x)) xs"
  have xs: "xs = us @ vs" and ins: "prio_insert s h a xs = us @ a # vs"
    by (simp_all add: us_def vs_def prio_insert_def)
  have "before s (px h a) (px h x)" if "x \<in> set vs" for x
    using that unfolding vs_def by (rule prio_dropWhile [OF assms])
  then have "\<forall>x\<in>set vs. px h x \<noteq> px h a"
    by (metis before_irrefl)
  then have "px h a = p \<Longrightarrow> at_price h p vs = []"
    by (simp add: at_price_def filter_empty_conv)
  then show ?thesis
    unfolding ins unfolding xs at_price_append at_price_Cons by simp
qed

lemma prio_prio_insert:
  assumes "prio s h xs"
  shows "prio s h (prio_insert s h a xs)"
proof -
  let ?P = "\<lambda>x. \<not> before s (px h a) (px h x)"
  have "\<forall>x\<in>set (takeWhile ?P xs). \<not> before s (px h a) (px h x)"
    using set_takeWhileD by fastforce
  moreover have "\<forall>y\<in>set (dropWhile ?P xs). \<not> before s (px h y) (px h a)"
    using prio_dropWhile [OF assms, of _ "px h a"] before_asym by blast
  ultimately show ?thesis
    using assms unfolding prio_def prio_insert_def sorted_wrt_mid by simp
qed

text \<open>The head of the best level is the head of the whole side.\<close>

lemma at_price_best:
  "at_price h (px h a) (a # xs) = a # at_price h (px h a) xs"
  by (simp add: at_price_def)

lemma prio_best: "prio s h (a # xs) \<Longrightarrow> x \<in> set xs \<Longrightarrow> \<not> before s (px h x) (px h a)"
  by (auto simp: prio_def)

lemma prio_tl: "prio s h (a # xs) \<Longrightarrow> prio s h xs"
  by (simp add: prio_def)

section \<open>The invariant of the shared state\<close>

text \<open>
  \<open>core_ok pv F lv b\<close>: the memory of \<open>b\<close> represents the priority lists \<open>F\<close>, where \<open>lv s p\<close> is
  the price level of side \<open>s\<close> at price \<open>p\<close>. Every live object of the pool is an order of exactly
  one side, each level links its orders in arrival order, and the index knows every order by
  its client and client order id, and nothing else.
\<close>

definition index_ok :: "heap \<Rightarrow> order_index \<Rightarrow> bool" where
  "index_ok h ix \<longleftrightarrow> index_tidy ix \<and>
     (\<forall>c k a. index_find c k ix = Some a \<longleftrightarrow> (\<exists>r. data h a = Some r \<and> has_key c k r))"

definition core_ok :: "'p pool_view \<Rightarrow> (Side \<Rightarrow> addr list) \<Rightarrow> (Side \<Rightarrow> Price \<Rightarrow> PriceLevel) \<Rightarrow>
    ('p, 'z) book_core_scheme \<Rightarrow> bool" where
  "core_ok pv F lv b \<longleftrightarrow>
     distinct (F BUY @ F SELL) \<and> dom (bk_heap b) = set (F BUY) \<union> set (F SELL) \<and>
     pv_inv pv (bk_pool b) \<and> pv_live pv (bk_pool b) = dom (bk_heap b) \<and>
     (\<forall>s. \<forall>a\<in>set (F s). \<exists>r. data (bk_heap b) a = Some r \<and> mo_side r = s) \<and>
     (\<forall>s. prio s (bk_heap b) (F s)) \<and>
     index_ok (bk_heap b) (bk_orders b) \<and>
     (\<forall>s p. level_ok (bk_heap b) (at_price (bk_heap b) p (F s)) (lv s p))"

text \<open>The abstract book a memory represents.\<close>

definition abs_list :: "heap \<Rightarrow> addr list \<Rightarrow> MEOrder list" where
  "abs_list h xs = map (\<lambda>a. the (data h a)) xs"

definition abs_book :: "(Side \<Rightarrow> addr list) \<Rightarrow> ('p, 'z) book_core_scheme \<Rightarrow> abook" where
  "abs_book F b = \<lparr>ab_bids = abs_list (bk_heap b) (F BUY), ab_asks = abs_list (bk_heap b) (F SELL),
                  ab_next = bk_nextMarketOrderId b\<rparr>"

lemma core_okD:
  assumes "core_ok pv F lv b"
  shows core_distinct: "distinct (F BUY @ F SELL)" and core_dom: "dom (bk_heap b) = set (F BUY) \<union> set (F SELL)"
    and core_pool: "pv_inv pv (bk_pool b)" "pv_live pv (bk_pool b) = dom (bk_heap b)"
    and core_prio: "prio s (bk_heap b) (F s)"
    and core_index: "index_ok (bk_heap b) (bk_orders b)"
    and core_level: "level_ok (bk_heap b) (at_price (bk_heap b) p (F s)) (lv s p)"
  using assms unfolding core_ok_def by auto

lemma core_sideD:
  assumes "core_ok pv F lv b" and "a \<in> set (F s)"
  obtains r where "bk_heap b a = Some r" and "mo_side r = s"
proof -
  from assms obtain d where "data (bk_heap b) a = Some d" "mo_side d = s"
    unfolding core_ok_def by blast
  moreover from this(1) obtain r where "bk_heap b a = Some r" "d = unlinked r"
    by (rule data_SomeE)
  ultimately show ?thesis by (intro that [of r]) simp_all
qed

lemma core_sides:
  assumes "core_ok pv F lv b"
  shows core_dist_side: "distinct (F s)" and core_disjoint: "s \<noteq> s' \<Longrightarrow> set (F s) \<inter> set (F s') = {}"
    and core_union: "dom (bk_heap b) = set (F s) \<union> set (F (opposite s))"
  using core_distinct [OF assms] core_dom [OF assms] by (cases s; cases s'; auto)+

lemma core_dom_side:
  assumes "core_ok pv F lv b" and "bk_heap b a = Some r"
  shows "a \<in> set (F (mo_side r))"
proof -
  have "a \<in> set (F BUY) \<union> set (F SELL)"
    using core_dom [OF assms(1)] assms(2) by auto
  then obtain s where "a \<in> set (F s)" by auto
  with assms show ?thesis by (metis core_sideD option.inject)
qed

lemma level_ok_ends: "pl_head l' = pl_head l \<Longrightarrow> pl_tail l' = pl_tail l \<Longrightarrow> level_ok h xs l' = level_ok h xs l"
  by (simp add: level_ok_def)

lemma level_ok_links: "order_links h' = order_links h \<Longrightarrow> level_ok h' xs l = level_ok h xs l"
  by (simp add: level_ok_def)

lemma core_ok_ends:
  assumes "core_ok pv F lv b" and "\<And>s p. pl_head (lv' s p) = pl_head (lv s p) \<and> pl_tail (lv' s p) = pl_tail (lv s p)"
  shows "core_ok pv F lv' b"
  using assms unfolding core_ok_def by (simp add: level_ok_def)

text \<open>Client and client order id identify an order.\<close>

lemma index_ok_unique:
  assumes "index_ok h ix" and "data h a = Some r" "has_key c k r" and "data h a' = Some r'" "has_key c k r'"
  shows "a = a'"
proof -
  have "index_find c k ix = Some a" "index_find c k ix = Some a'"
    using assms unfolding index_ok_def by blast+
  then show ?thesis by simp
qed

lemma index_ok_find:
  assumes "index_ok h ix" and "data h a = Some r" "has_key c k r"
  shows "index_find c k ix = Some a"
  using assms unfolding index_ok_def by blast

lemma index_ok_iff: "index_ok h ix \<Longrightarrow> index_find c k ix = Some a \<longleftrightarrow> (\<exists>r. data h a = Some r \<and> has_key c k r)"
  by (simp add: index_ok_def)

lemma index_okI:
  assumes "index_tidy ix"
    and "\<And>c k a r. data h a = Some r \<Longrightarrow> has_key c k r \<Longrightarrow> index_find c k ix = Some a"
    and "\<And>c k a. index_find c k ix = Some a \<Longrightarrow> \<exists>r. data h a = Some r \<and> has_key c k r"
  shows "index_ok h ix"
  unfolding index_ok_def using assms by blast

lemma has_key_inj: "has_key c k r \<Longrightarrow> has_key c' k' r \<Longrightarrow> c' = c \<and> k' = k"
  by (simp add: has_key_def)

lemma index_ok_erase:
  assumes ok: "index_ok h ix" and a: "data h a = Some r" "has_key c k r" and h': "data h' = (data h)(a := None)"
  shows "index_ok h' (index_erase c k ix)"
proof (rule index_okI)
  show "index_tidy (index_erase c k ix)"
    using ok by (simp add: index_ok_def index_tidy_erase)
next
  fix c' k' a' r' assume "data h' a' = Some r'" "has_key c' k' r'"
  then have r': "a' \<noteq> a" "data h a' = Some r'" "has_key c' k' r'" using h' by (auto split: if_splits)
  then have "\<not> (c' = c \<and> k' = k)" using index_ok_unique [OF ok a] by blast
  then show "index_find c' k' (index_erase c k ix) = Some a'"
    using index_ok_find [OF ok r'(2,3)] by simp
next
  fix c' k' a' assume f: "index_find c' k' (index_erase c k ix) = Some a'"
  then have ne: "\<not> (c' = c \<and> k' = k)" and "index_find c' k' ix = Some a'" by (auto split: if_splits)
  then obtain r' where r': "data h a' = Some r'" "has_key c' k' r'" using index_ok_iff [OF ok] by blast
  have "a' \<noteq> a" using r' a ne by (auto dest: has_key_inj)
  with r' show "\<exists>r. data h' a' = Some r \<and> has_key c' k' r" using h' by simp
qed

lemma index_ok_put:
  assumes ok: "index_ok h ix" and new: "index_find c k ix = None" "h a = None" and r: "has_key c k r"
    and h': "data h' = (data h)(a \<mapsto> r)"
  shows "index_ok h' (index_put c k a ix)"
proof (rule index_okI)
  show "index_tidy (index_put c k a ix)"
    using ok by (simp add: index_ok_def index_tidy_put)
next
  fix c' k' a' r' assume r': "data h' a' = Some r'" "has_key c' k' r'"
  show "index_find c' k' (index_put c k a ix) = Some a'"
  proof (cases "a' = a")
    case True
    then have "r' = r" using r'(1) h' by simp
    then show ?thesis using has_key_inj [OF r, of c' k'] r'(2) True by simp
  next
    case False
    then have "data h a' = Some r'" using r'(1) h' by simp
    then have "index_find c' k' ix = Some a'" using index_ok_find [OF ok] r'(2) by blast
    with new(1) show ?thesis by auto
  qed
next
  fix c' k' a' assume f: "index_find c' k' (index_put c k a ix) = Some a'"
  show "\<exists>r. data h' a' = Some r \<and> has_key c' k' r"
  proof (cases "c' = c \<and> k' = k")
    case True with f r h' show ?thesis by simp
  next
    case False
    with f have "index_find c' k' ix = Some a'" by auto
    then obtain r' where "data h a' = Some r'" "has_key c' k' r'" using index_ok_iff [OF ok] by blast
    moreover from this have "a' \<noteq> a" using new(2) by (auto simp: data_def)
    ultimately show ?thesis using h' by simp
  qed
qed

lemma index_ok_data:
  assumes "index_ok h ix" and "data h a = Some r" and "\<And>c k. has_key c k r' = has_key c k r"
    and "data h' = (data h)(a \<mapsto> r')"
  shows "index_ok h' ix"
proof (rule index_okI)
  show "index_tidy ix" using assms(1) by (simp add: index_ok_def)
qed (use assms index_ok_find [OF assms(1)] index_ok_iff [OF assms(1)] in \<open>auto split: if_splits\<close>)

section \<open>How the operations change the shared state\<close>

text \<open>A write to the remaining quantity of a resting order.\<close>

lemma core_write:
  assumes ok: "core_ok pv F lv b" and r: "bk_heap b a = Some r"
  shows "core_ok pv F lv (b\<lparr>bk_heap := (bk_heap b)(a \<mapsto> r\<lparr>mo_remainingQuantity := q\<rparr>)\<rparr>)"
proof -
  let ?h = "bk_heap b"
  let ?h' = "?h(a \<mapsto> r\<lparr>mo_remainingQuantity := q\<rparr>)"
  have lk: "order_links ?h' = order_links ?h"
    using r by (auto simp: order_links_def fun_eq_iff)
  have px: "px ?h' = px ?h"
    using r by (auto simp: px_def fun_eq_iff)
  have ix: "index_ok ?h' (bk_orders b)"
    by (rule index_ok_data [OF core_index [OF ok] dataI [of "bk_heap b" a r, OF r]]) (auto simp: has_key_def)
  have "\<exists>r. data ?h' x = Some r \<and> mo_side r = s" if x: "x \<in> set (F s)" for s x
  proof -
    obtain r' where "bk_heap b x = Some r'" "mo_side r' = s"
      using ok x by (rule core_sideD)
    with r show ?thesis by (cases "x = a") (auto simp: dataI)
  qed
  moreover have "dom ?h' = dom ?h" using r by auto
  ultimately show ?thesis
    using ok ix unfolding core_ok_def
    by (simp add: level_ok_links [OF lk] at_price_def prio_def px)
qed

definition drop_addr :: "addr \<Rightarrow> (Side \<Rightarrow> addr list) \<Rightarrow> Side \<Rightarrow> addr list" where
  "drop_addr a F = (\<lambda>s. removeAll a (F s))"

lemma set_drop_addr [simp]: "set (drop_addr a F s) = set (F s) - {a}"
  by (simp add: drop_addr_def)

lemma level_ok_frame:
  assumes "level_ok h xs l" and "\<And>x. x \<in> set xs \<Longrightarrow> h' x = h x"
  shows "level_ok h' xs l"
  using assms level_ok_cong by metis

lemma px_frame: "data h' x = data h x \<Longrightarrow> px h' x = px h x"
  by (metis px_data px_def)

text \<open>\<open>lv'\<close> differs from \<open>lv\<close> in the level \<open>s\<close>, \<open>p\<close> only, which has the ends of \<open>l\<close>.\<close>

definition level_upd :: "(Side \<Rightarrow> Price \<Rightarrow> PriceLevel) \<Rightarrow> Side \<Rightarrow> Price \<Rightarrow> PriceLevel \<Rightarrow>
    (Side \<Rightarrow> Price \<Rightarrow> PriceLevel) \<Rightarrow> bool" where
  "level_upd lv s p l lv' \<longleftrightarrow>
     (\<forall>s' q. pl_head (lv' s' q) = (if s' = s \<and> q = p then pl_head l else pl_head (lv s' q)) \<and>
             pl_tail (lv' s' q) = (if s' = s \<and> q = p then pl_tail l else pl_tail (lv s' q)))"

lemma level_updD:
  assumes "level_upd lv s p l lv'"
  shows level_upd_same: "level_ok h xs (lv' s p) = level_ok h xs l"
    and level_upd_other: "\<not> (s' = s \<and> q = p) \<Longrightarrow> level_ok h xs (lv' s' q) = level_ok h xs (lv s' q)"
  using assms unfolding level_upd_def by (auto intro!: level_ok_ends)

text \<open>
  \<open>relinked h xs ys l l' h'\<close>: pointer surgery on one level turned the orders \<open>xs\<close> of level \<open>l\<close> into
  \<open>ys\<close>; data and everything outside \<open>ys\<close> is as before.
\<close>

definition relinked :: "heap \<Rightarrow> addr list \<Rightarrow> PriceLevel \<Rightarrow> PriceLevel \<Rightarrow> heap \<Rightarrow> bool" where
  "relinked h ys l l' h' \<longleftrightarrow> level_ok h' ys l' \<and> data h' = data h \<and> (\<forall>x. x \<notin> set ys \<longrightarrow> h' x = h x) \<and>
     pl_price l' = pl_price l \<and> pl_next l' = pl_next l \<and> pl_prev l' = pl_prev l"

lemma relinked_dom: "relinked h ys l l' h' \<Longrightarrow> dom h' = dom h"
  by (metis dom_data relinked_def)

text \<open>The first half of \<^verbatim>\<open>remove\<close>: the order leaves the list of its level.\<close>

lemma core_unlink:
  assumes ok: "core_ok pv F lv b" and r: "bk_heap b a = Some r"
  obtains l' h' where "unlink_order a (lv (mo_side r) (mo_price r)) (bk_heap b) = Some (l', h')"
    and "relinked (bk_heap b) (removeAll a (at_price (bk_heap b) (mo_price r) (F (mo_side r))))
      (lv (mo_side r) (mo_price r)) l' h'"
    and "h' a = Some r"
proof -
  define as where "as = at_price (bk_heap b) (mo_price r) (F (mo_side r))"
  have das: "distinct as" unfolding as_def by (rule distinct_at_price) (rule core_dist_side [OF ok])
  have "a \<in> set as" using core_dom_side [OF ok r] r by (simp add: as_def px_def)
  then obtain xs ys where as: "as = xs @ a # ys" by (meson split_list)
  have rem: "removeAll a as = xs @ ys" using das as by simp
  have "level_ok (bk_heap b) (xs @ a # ys) (lv (mo_side r) (mo_price r))"
    unfolding as [symmetric] as_def by (rule core_level [OF ok])
  then obtain l' h' where un: "unlink_order a (lv (mo_side r) (mo_price r)) (bk_heap b) = Some (l', h')"
    and rl: "level_ok h' (xs @ ys) l'" "data h' = data (bk_heap b)"
      "\<And>x. x \<notin> set (xs @ ys) \<Longrightarrow> h' x = bk_heap b x"
      "pl_price l' = pl_price (lv (mo_side r) (mo_price r))"
      "pl_next l' = pl_next (lv (mo_side r) (mo_price r))" "pl_prev l' = pl_prev (lv (mo_side r) (mo_price r))"
    using das unfolding as by (rule unlink_order_ok) (rule that)
  show ?thesis
    by (rule that [OF un]) (use rl rem das as r in \<open>auto simp: relinked_def as_def\<close>)
qed

text \<open>Each level after a removal: the order's own level is the relinked one, the rest are untouched.\<close>

lemma levels_removed:
  assumes ok: "core_ok pv F lv b" and r: "bk_heap b a = Some r"
    and rl: "relinked (bk_heap b) (removeAll a (at_price (bk_heap b) (mo_price r) (F (mo_side r)))) l l' h'"
    and upd: "level_upd lv (mo_side r) (mo_price r) l' lv'"
  shows "level_ok (h'(a := None)) (at_price (h'(a := None)) q (drop_addr a F s)) (lv' s q)"
proof -
  define h where "h = bk_heap b"
  let ?h = "h'(a := None)"
  have a: "a \<in> set (F (mo_side r))" "px h a = mo_price r"
    using core_dom_side [OF ok r] r by (simp_all add: px_def h_def)
  have "px ?h x = px h x" if "x \<noteq> a" for x
    by (rule px_frame) (use rl that in \<open>simp add: relinked_def h_def\<close>)
  then have atp: "at_price ?h q (drop_addr a F s) = removeAll a (at_price h q (F s))"
    unfolding drop_addr_def at_price_removeAll [symmetric] by (intro at_price_cong) auto
  show ?thesis
  proof (cases "s = mo_side r \<and> q = mo_price r")
    case True
    have "level_ok ?h (removeAll a (at_price h (mo_price r) (F (mo_side r)))) l'"
      by (rule level_ok_frame [of h']) (use rl in \<open>auto simp: relinked_def h_def\<close>)
    then show ?thesis using True level_upd_same [OF upd] unfolding atp by simp
  next
    case False
    have out: "x \<notin> set (at_price h (mo_price r) (F (mo_side r))) \<and> x \<noteq> a" if "x \<in> set (at_price h q (F s))" for x
      using that False a core_disjoint [OF ok, of "mo_side r" s] by auto
    then have "level_ok ?h (at_price h q (F s)) (lv s q)"
      by (intro level_ok_frame [OF core_level [OF ok, folded h_def]])
        (use rl in \<open>auto simp: relinked_def h_def\<close>)
    moreover have "removeAll a (at_price h q (F s)) = at_price h q (F s)"
      using out by (intro removeAll_notin) blast
    ultimately show ?thesis using level_upd_other [OF upd False] unfolding atp by simp
  qed
qed

text \<open>The second half of \<^verbatim>\<open>remove\<close>: forget the order in the index and free it.\<close>

lemma core_remove:
  assumes spec: "pool_spec ops pv" and ok: "core_ok pv F lv b" and r: "bk_heap b a = Some r"
    and rl: "relinked (bk_heap b) (removeAll a (at_price (bk_heap b) (mo_price r) (F (mo_side r)))) l l' h'"
    and upd: "level_upd lv (mo_side r) (mo_price r) l' lv'"
    and b': "bk_heap b' = h'(a := None)" "bk_pool b' = pool_deallocate ops a (bk_pool b)"
      "bk_orders b' = index_erase (mo_clientId r) (mo_clientOrderId r) (bk_orders b)"
  shows "core_ok pv (drop_addr a F) lv' b'" and "pv_cap pv (bk_pool b') = pv_cap pv (bk_pool b)"
proof -
  have d: "data (h'(a := None)) = (data (bk_heap b))(a := None)"
    using rl by (simp add: relinked_def)
  have live: "a \<in> pv_live pv (bk_pool b)" using core_pool [OF ok] r by auto
  note pool = pool_deallocateD [OF spec core_pool(1) [OF ok] live]
  have "px (h'(a := None)) x = px (bk_heap b) x" if "x \<noteq> a" for x
    by (rule px_frame) (simp add: d that del: data_del)
  then have "prio s (h'(a := None)) (drop_addr a F s)" for s
    using prio_removeAll [OF core_prio [OF ok], of s a]
    by (subst prio_cong [of _ _ "bk_heap b"]) (auto simp: drop_addr_def)
  moreover have "index_ok (h'(a := None)) (bk_orders b')"
    unfolding b'(3) using core_index [OF ok] dataI [of "bk_heap b" a r, OF r] _ d
    by (rule index_ok_erase) (simp add: has_key_def)
  moreover have "distinct (drop_addr a F BUY @ drop_addr a F SELL)"
    using core_distinct [OF ok] by (auto simp: drop_addr_def distinct_removeAll)
  moreover have "\<exists>r. data (h'(a := None)) x = Some r \<and> mo_side r = s" if "x \<in> set (drop_addr a F s)" for x s
    using that ok unfolding core_ok_def d by auto
  ultimately show "core_ok pv (drop_addr a F) lv' b'"
    using pool levels_removed [OF ok r rl upd] core_pool(2) [OF ok] relinked_dom [OF rl] core_dom [OF ok]
    unfolding core_ok_def b' by auto
  show "pv_cap pv (bk_pool b') = pv_cap pv (bk_pool b)"
    unfolding b' by (rule pool(3))
qed

text \<open>The first half of \<^verbatim>\<open>insert\<close>: the order is constructed and appended to its level.\<close>

lemma core_link:
  assumes ok: "core_ok pv F lv b" and a: "bk_heap b a = None" and r: "mo_next r = None" "mo_prev r = None"
  obtains l' h' where "link_order a (lv (mo_side r) (mo_price r)) ((bk_heap b)(a \<mapsto> r)) = Some (l', h')"
    and "relinked ((bk_heap b)(a \<mapsto> r)) (at_price (bk_heap b) (mo_price r) (F (mo_side r)) @ [a])
      (lv (mo_side r) (mo_price r)) l' h'"
proof -
  define as where "as = at_price (bk_heap b) (mo_price r) (F (mo_side r))"
  have das: "distinct as" unfolding as_def by (rule distinct_at_price) (rule core_dist_side [OF ok])
  have nas: "a \<notin> set as"
    using a core_dom [OF ok] by (cases "mo_side r") (auto simp: as_def)
  have "level_ok ((bk_heap b)(a \<mapsto> r)) as (lv (mo_side r) (mo_price r))"
    by (rule level_ok_frame [of "bk_heap b"]) (use core_level [OF ok] nas in \<open>auto simp: as_def\<close>)
  then obtain l' h' where li: "link_order a (lv (mo_side r) (mo_price r)) ((bk_heap b)(a \<mapsto> r)) = Some (l', h')"
    and rl: "level_ok h' (as @ [a]) l'" "data h' = data ((bk_heap b)(a \<mapsto> r))"
      "\<And>x. x \<notin> set (as @ [a]) \<Longrightarrow> h' x = ((bk_heap b)(a \<mapsto> r)) x"
      "pl_price l' = pl_price (lv (mo_side r) (mo_price r))"
      "pl_next l' = pl_next (lv (mo_side r) (mo_price r))" "pl_prev l' = pl_prev (lv (mo_side r) (mo_price r))"
    using das nas by (rule link_order_ok [of "(bk_heap b)(a \<mapsto> r)" as _ a r]) (use r in simp_all)
  show ?thesis
    by (rule that [OF li]) (use rl in \<open>auto simp: relinked_def as_def\<close>)
qed

lemma levels_inserted:
  assumes ok: "core_ok pv F lv b" and a: "bk_heap b a = None"
    and rl: "relinked ((bk_heap b)(a \<mapsto> r)) (at_price (bk_heap b) (mo_price r) (F (mo_side r)) @ [a]) l l' h'"
    and upd: "level_upd lv (mo_side r) (mo_price r) l' lv'"
    and F': "F' = F(mo_side r := prio_insert (mo_side r) h' a (F (mo_side r)))"
  shows "prio s h' (F' s)" and "level_ok h' (at_price h' q (F' s)) (lv' s q)"
proof -
  define h where "h = bk_heap b"
  have aF: "a \<notin> set (F s)" for s
    using a core_dom [OF ok] by (cases s) auto
  have pxa: "px h' a = mo_price r"
    using px_frame [of h' a "h(a \<mapsto> r)"] rl by (simp add: relinked_def h_def px_def)
  have "px h' x = px h x" if "x \<noteq> a" for x
    by (rule px_frame) (use rl that in \<open>simp add: relinked_def h_def\<close>)
  then have pxF: "px h' x = px h x" if "x \<in> set (F s)" for x s
    using that aF by metis
  have pri: "prio s h' (F s)" for s
    using core_prio [OF ok, folded h_def] prio_cong [of "F s" h' h s] pxF by blast
  then show "prio s h' (F' s)" by (simp add: F' prio_prio_insert)
  have atp: "at_price h' q (F s) = at_price h q (F s)"
    by (rule at_price_cong) (rule pxF)
  have at': "at_price h' q (F' s) =
      (if s = mo_side r \<and> q = mo_price r then at_price h q (F s) @ [a] else at_price h q (F s))"
    using atp at_price_prio_insert [OF pri, of q s a] pxa by (auto simp: F')
  show "level_ok h' (at_price h' q (F' s)) (lv' s q)"
  proof (cases "s = mo_side r \<and> q = mo_price r")
    case True
    then show ?thesis
      using rl level_upd_same [OF upd] unfolding at' by (simp add: relinked_def h_def)
  next
    case False
    have "h' x = h x" if x: "x \<in> set (at_price h q (F s))" for x
    proof -
      have "x \<noteq> a" "x \<notin> set (at_price h (mo_price r) (F (mo_side r)))"
        using x False aF [of s] core_disjoint [OF ok, of "mo_side r" s] by auto
      then show ?thesis using rl by (simp add: relinked_def h_def)
    qed
    then have "level_ok h' (at_price h q (F s)) (lv s q)"
      by (intro level_ok_frame [OF core_level [OF ok, folded h_def]])
    then show ?thesis using level_upd_other [OF upd False] unfolding at' if_not_P [OF False] by simp
  qed
qed

text \<open>The second half of \<^verbatim>\<open>insert\<close>: the order enters the index.\<close>

lemma core_insert:
  assumes spec: "pool_spec ops pv" and ok: "core_ok pv F lv b"
    and al: "pool_allocate ops (bk_pool b) = Some (a, p')"
    and new: "index_find (mo_clientId r) (mo_clientOrderId r) (bk_orders b) = None"
    and r: "unlinked r = r"
    and rl: "relinked ((bk_heap b)(a \<mapsto> r)) (at_price (bk_heap b) (mo_price r) (F (mo_side r)) @ [a]) l l' h'"
    and upd: "level_upd lv (mo_side r) (mo_price r) l' lv'"
    and b': "bk_heap b' = h'" "bk_pool b' = p'"
      "bk_orders b' = index_put (mo_clientId r) (mo_clientOrderId r) a (bk_orders b)"
    and F': "F' = F(mo_side r := prio_insert (mo_side r) h' a (F (mo_side r)))"
  shows "core_ok pv F' lv' b'" and "pv_cap pv (bk_pool b') = pv_cap pv (bk_pool b)"
proof -
  have p': "pv_inv pv p'" "a \<notin> pv_live pv (bk_pool b)" "pv_live pv p' = insert a (pv_live pv (bk_pool b))"
    "pv_cap pv p' = pv_cap pv (bk_pool b)"
    using spec al core_pool(1) [OF ok] unfolding pool_spec_def by blast+
  have a: "bk_heap b a = None" using p'(2) core_pool(2) [OF ok] by auto
  have aF: "a \<notin> set (F s)" for s
    using a core_dom [OF ok] by (cases s) auto
  have d: "data h' = (data (bk_heap b))(a \<mapsto> r)" using rl r by (simp add: relinked_def)
  have dm: "dom h' = insert a (dom (bk_heap b))" using relinked_dom [OF rl] by simp
  have "index_ok h' (bk_orders b')"
    unfolding b'(3) using core_index [OF ok] new a _ d by (rule index_ok_put) (simp add: has_key_def)
  moreover have "dom h' = set (F' BUY) \<union> set (F' SELL)"
    using core_dom [OF ok] dm by (cases "mo_side r") (auto simp: F')
  moreover have "distinct (F' BUY @ F' SELL)"
    using core_distinct [OF ok] aF by (cases "mo_side r") (auto simp: F' distinct_prio_insert)
  moreover have "\<exists>r. data h' x = Some r \<and> mo_side r = s" if "x \<in> set (F' s)" for x s
    using that ok aF unfolding core_ok_def d F' by (auto split: if_splits)
  moreover have "pv_live pv p' = dom h'" using p'(3) core_pool(2) [OF ok] dm by simp
  ultimately show "core_ok pv F' lv' b'"
    using p' levels_inserted [OF ok a rl upd F'] unfolding core_ok_def b' by simp
  show "pv_cap pv (bk_pool b') = pv_cap pv (bk_pool b)" unfolding b' by (rule p'(4))
qed

lemma pool_has_room:
  assumes "pool_spec ops pv" and "core_ok pv F lv b" and "card (dom (bk_heap b)) < pv_cap pv (bk_pool b)"
  obtains a p' where "pool_allocate ops (bk_pool b) = Some (a, p')" and "bk_heap b a = None"
proof -
  have "card (pv_live pv (bk_pool b)) < pv_cap pv (bk_pool b)" using assms(3) core_pool(2) [OF assms(2)] by simp
  with assms(1) core_pool(1) [OF assms(2)] show ?thesis
    by (rule pool_allocateE) (rule that, use core_pool(2) [OF assms(2)] in auto)
qed

section \<open>What the changes mean for the abstract book\<close>

lemma abs_list_cong: "(\<And>x. x \<in> set xs \<Longrightarrow> data h' x = data h x) \<Longrightarrow> abs_list h' xs = abs_list h xs"
  by (simp add: abs_list_def)

lemma abs_list_simps [simp]:
  "abs_list h [] = []" "abs_list h (a # xs) = the (data h a) # abs_list h xs"
  "abs_list h (xs @ ys) = abs_list h xs @ abs_list h ys"
  by (simp_all add: abs_list_def)

lemma mo_price_the_data: "mo_price (the (data h a)) = px h a"
  by (metis px_data px_def)

lemma abs_list_prio_insert:
  assumes "a \<notin> set xs" and "data h' = (data h)(a \<mapsto> r)"
  shows "abs_list h' (prio_insert s h' a xs) = a_insert s r (abs_list h xs)"
proof -
  have "abs_list h' xs = abs_list h xs"
    by (rule abs_list_cong) (use assms in auto)
  moreover have "abs_list h' (prio_insert s h' a xs) = a_insert s (the (data h' a)) (abs_list h' xs)"
    by (simp add: a_insert_def prio_insert_def abs_list_def takeWhile_map dropWhile_map comp_def mo_price_the_data)
  ultimately show ?thesis
    using assms(2) by simp
qed

lemma abs_list_removeAll:
  assumes "index_ok h ix" and "data h a = Some r" and "has_key c k r"
    and "\<And>x. x \<in> set xs \<Longrightarrow> h x \<noteq> None" and "data h' = (data h)(a := None)"
  shows "abs_list h' (removeAll a xs) = filter (\<lambda>r. \<not> has_key c k r) (abs_list h xs)"
  using assms(4)
proof (induction xs)
  case (Cons x xs)
  then obtain d where d: "data h x = Some d" by (force simp: data_def)
  have "has_key c k d \<longleftrightarrow> x = a"
    using index_ok_unique [OF assms(1-3) d] assms(2,3) d by auto
  with Cons d assms(5) show ?case by auto
qed simp

end
