(* ===== verification/OrderBook.thy ===== *)
theory OrderBook
  imports BookSpec
begin

text \<open>
  The interface between the matching engine and an order book, the compile-time facade of
  \<^verbatim>\<open>src/src/engine/order_book/order_book.h\<close>: three operations on a book of any representation.
  The locale \<open>order_book\<close> states what the engine may rely on: a relation between the book's
  memory and the abstract price-time book that every operation preserves, with no undefined
  behaviour, as long as the request is admissible. MapBook and VectorBook interpret it.
\<close>

record 'b book_ops =
  ob_addOrder :: "order_args \<Rightarrow> 'b \<Rightarrow> engine_io \<Rightarrow> ('b \<times> engine_io) option"
  ob_cancelOrder :: "TickerId \<Rightarrow> ClientId \<Rightarrow> OrderId \<Rightarrow> Quantity \<Rightarrow> OrderToken \<Rightarrow> 'b \<Rightarrow> engine_io \<Rightarrow>
    ('b \<times> engine_io) option"
  ob_replaceOrder :: "TickerId \<Rightarrow> ClientId \<Rightarrow> OrderId \<Rightarrow> OrderId \<Rightarrow> OrderType \<Rightarrow> Price \<Rightarrow> Quantity \<Rightarrow>
    OrderToken \<Rightarrow> 'b \<Rightarrow> engine_io \<Rightarrow> ('b \<times> engine_io) option"

text \<open>
  A good-till-cancel order is admissible when the pool has room for it, its client order id is
  not in use by that client, and the book can hold its price; a fill-and-kill order always is.
  A replacement needs no extra room, because it frees the order it replaces.
\<close>

definition add_ok :: "nat \<Rightarrow> (Price \<Rightarrow> bool) \<Rightarrow> order_args \<Rightarrow> abook \<Rightarrow> bool" where
  "add_ok cap fits args A \<longleftrightarrow> (oa_orderType args = GoodTillCancel \<longrightarrow>
     length (a_orders A) < cap \<and> a_find (oa_clientId args) (oa_clientOrderId args) A = None \<and>
     fits (oa_price args))"

definition replace_ok :: "(Price \<Rightarrow> bool) \<Rightarrow> ClientId \<Rightarrow> OrderId \<Rightarrow> OrderId \<Rightarrow> OrderType \<Rightarrow> Price \<Rightarrow> abook \<Rightarrow> bool" where
  "replace_ok fits c k k' ty p A \<longleftrightarrow> (ty = GoodTillCancel \<longrightarrow>
     a_find c k' (a_drop c k A) = None \<and> fits p)"

locale order_book =
  fixes v :: variant
    and represents :: "'b \<Rightarrow> abook \<Rightarrow> bool"
    and ops :: "'b book_ops"
    and cap :: "'b \<Rightarrow> nat"
    and fits :: "Price \<Rightarrow> bool"
  assumes add_refines: "represents b A \<Longrightarrow> add_ok (cap b) fits args A \<Longrightarrow>
      \<exists>b'. ob_addOrder ops args b io = Some (b', snd (a_addOrder v args A io)) \<and>
        represents b' (fst (a_addOrder v args A io)) \<and> cap b' = cap b"
    and cancel_refines: "represents b A \<Longrightarrow>
      \<exists>b'. ob_cancelOrder ops tick c k qty tok b io = Some (b', snd (a_cancelOrder v tick c k qty tok A io)) \<and>
        represents b' (fst (a_cancelOrder v tick c k qty tok A io)) \<and> cap b' = cap b"
    and replace_refines: "represents b A \<Longrightarrow> replace_ok fits c k k' ty p A \<Longrightarrow>
      \<exists>b'. ob_replaceOrder ops tick c k k' ty p qty tok b io =
          Some (b', snd (a_replaceOrder v tick c k k' ty p qty tok A io)) \<and>
        represents b' (fst (a_replaceOrder v tick c k k' ty p qty tok A io)) \<and> cap b' = cap b"

end
