(* ===== verification/Matching.thy ===== *)
theory Matching
  imports BookCore OrderBook
begin

text \<open>
  The matching loops, verified once for both books. The locale \<open>book_store\<close> states what
  matching relies on: where the best level is, what the head of a level is, that removing an
  order and writing its quantity keep the representation, and what one fill does. Inside it
  the two nested loops of \<^verbatim>\<open>MEOrderBook::match\<close> are shown to end and to compute \<open>a_match\<close>.
\<close>

definition order_keys :: "heap \<Rightarrow> (ClientId \<times> OrderId) set" where
  "order_keys h = {(c, k). \<exists>a r. data h a = Some r \<and> has_key c k r}"

text \<open>
  \<open>keeps pv s F b F' b'\<close>: going from \<open>b\<close> to \<open>b'\<close>, side \<open>s\<close>, the id counter and the pool's size are
  as before, the other side has not grown and no new order has appeared.
\<close>

definition keeps :: "'p pool_view \<Rightarrow> Side \<Rightarrow> (Side \<Rightarrow> addr list) \<Rightarrow> ('p, 'z) book_core_scheme \<Rightarrow>
    (Side \<Rightarrow> addr list) \<Rightarrow> ('p, 'z) book_core_scheme \<Rightarrow> bool" where
  "keeps pv s F b F' b' \<longleftrightarrow> F' s = F s \<and>
     abs_list (bk_heap b') (F s) = abs_list (bk_heap b) (F s) \<and>
     bk_nextMarketOrderId b' = bk_nextMarketOrderId b \<and>
     pv_cap pv (bk_pool b') = pv_cap pv (bk_pool b) \<and>
     length (F' (opposite s)) \<le> length (F (opposite s)) \<and>
     (\<forall>x\<in>set (F' (opposite s)). x \<in> set (F (opposite s)) \<and> px (bk_heap b') x = px (bk_heap b) x) \<and>
     order_keys (bk_heap b') \<subseteq> order_keys (bk_heap b)"

lemma order_keysI: "data h a = Some r \<Longrightarrow> has_key c k r \<Longrightarrow> (c, k) \<in> order_keys h"
  by (auto simp: order_keys_def)

lemma order_keys_write:
  assumes "h a = Some r"
  shows "order_keys (h(a \<mapsto> r\<lparr>mo_remainingQuantity := q\<rparr>)) \<subseteq> order_keys h"
proof clarify
  fix c k assume "(c, k) \<in> order_keys (h(a \<mapsto> r\<lparr>mo_remainingQuantity := q\<rparr>))"
  then obtain x d where d: "data (h(a \<mapsto> r\<lparr>mo_remainingQuantity := q\<rparr>)) x = Some d" "has_key c k d"
    by (auto simp: order_keys_def)
  then show "(c, k) \<in> order_keys h"
    using assms by (cases "x = a") (auto simp: has_key_def intro: order_keysI dataI)
qed

lemma order_keysE:
  assumes "x \<in> order_keys h"
  obtains a r where "data h a = Some r" and "has_key (fst x) (snd x) r"
  using assms by (auto simp: order_keys_def)

lemma order_keys_remove:
  assumes ok: "index_ok h ix" and a: "data h a = Some r" "has_key c k r" and h': "data h' = (data h)(a := None)"
  shows "order_keys h' = order_keys h - {(c, k)}"
proof (intro set_eqI iffI)
  fix x assume "x \<in> order_keys h'"
  then obtain a' r' where "data h' a' = Some r'" and k': "has_key (fst x) (snd x) r'"
    by (rule order_keysE)
  then have a': "a' \<noteq> a" "data h a' = Some r'" using h' by (auto split: if_splits)
  have "x \<noteq> (c, k)" using index_ok_unique [OF ok a a'(2)] a'(1) k' by auto
  then show "x \<in> order_keys h - {(c, k)}"
    using order_keysI [OF a'(2) k'] by simp
next
  fix x assume x: "x \<in> order_keys h - {(c, k)}"
  then obtain a' r' where a': "data h a' = Some r'" "has_key (fst x) (snd x) r'"
    by (metis DiffD1 order_keysE)
  have "a' \<noteq> a" using a a' x by (auto dest: has_key_inj simp: prod_eq_iff)
  then show "x \<in> order_keys h'"
    using order_keysI [of h' a' r' "fst x" "snd x"] a' h' by simp
qed

lemma keeps_refl [simp]: "keeps pv s F b F b"
  by (simp add: keeps_def)

lemma keeps_trans: "keeps pv s F b F' b' \<Longrightarrow> keeps pv s F' b' F'' b'' \<Longrightarrow> keeps pv s F b F'' b''"
  by (auto simp: keeps_def)

text \<open>
  \<open>matched v pv t q F b io q' F' b' io'\<close>: matching the incoming order \<open>t\<close> may go on from the second state as well as from the
  first; the outcome is the same.
\<close>

definition matched :: "variant \<Rightarrow> 'p pool_view \<Rightarrow> order_args \<Rightarrow> Quantity \<Rightarrow> (Side \<Rightarrow> addr list) \<Rightarrow> ('p, 'z) book_core_scheme \<Rightarrow>
    engine_io \<Rightarrow> Quantity \<Rightarrow> (Side \<Rightarrow> addr list) \<Rightarrow> ('p, 'z) book_core_scheme \<Rightarrow> engine_io \<Rightarrow> bool" where
  "matched v pv t q F b io q' F' b' io' \<longleftrightarrow> keeps pv (oa_side t) F b F' b' \<and>
     a_match v t q io (abs_list (bk_heap b) (F (opposite (oa_side t)))) =
       a_match v t q' io' (abs_list (bk_heap b') (F' (opposite (oa_side t))))"

lemma matched_refl [simp]: "matched v pv t q F b io q F b io"
  by (simp add: matched_def)

lemma matched_trans:
  "matched v pv t q F b io q1 F1 b1 io1 \<Longrightarrow> matched v pv t q1 F1 b1 io1 q2 F2 b2 io2 \<Longrightarrow> matched v pv t q F b io q2 F2 b2 io2"
  unfolding matched_def using keeps_trans by metis

lemma index_find_None_iff:
  assumes "core_ok pv F lv b"
  shows "index_find c k (bk_orders b) = None \<longleftrightarrow> (c, k) \<notin> order_keys (bk_heap b)"
  using index_ok_iff [OF core_index [OF assms]] by (force simp: order_keys_def not_Some_eq [symmetric])

lemma card_dom_core:
  assumes "core_ok pv F lv b"
  shows "card (dom (bk_heap b)) = length (F s) + length (F (opposite s))"
proof -
  have "card (dom (bk_heap b)) = length (F BUY @ F SELL)"
    using core_distinct [OF assms] core_dom [OF assms] distinct_card [of "F BUY @ F SELL"] by simp
  then show ?thesis by (cases s) simp_all
qed

lemma a_report_unlinked [simp]:
  "a_report v t ((unlinked r)\<lparr>mo_remainingQuantity := q\<rparr>) = a_report v t (r\<lparr>mo_remainingQuantity := q\<rparr>)"
  by (simp add: a_report_def fun_eq_iff)

lemma a_match_0 [simp]: "a_match v t 0 io L = (0, io, L)"
  by (cases L) auto

locale book_store =
  fixes v :: variant
    and pv :: "'p pool_view"
    and repr :: "(Side \<Rightarrow> addr list) \<Rightarrow> ('p, 'z) book_core_scheme \<Rightarrow> bool"
    and best :: "Side \<Rightarrow> ('p, 'z) book_core_scheme \<Rightarrow> Price option"
    and level_price :: "Side \<Rightarrow> Price \<Rightarrow> ('p, 'z) book_core_scheme \<Rightarrow> Price"
    and head :: "Side \<Rightarrow> Price \<Rightarrow> ('p, 'z) book_core_scheme \<Rightarrow> addr option option"
    and remove :: "addr \<Rightarrow> ('p, 'z) book_core_scheme \<Rightarrow> ('p, 'z) book_core_scheme option"
    and fill :: "order_args \<Rightarrow> Price \<Rightarrow> addr \<Rightarrow> Quantity \<Rightarrow> ('p, 'z) book_core_scheme \<Rightarrow> engine_io \<Rightarrow>
      (Quantity \<times> ('p, 'z) book_core_scheme \<times> engine_io) option"
    and insert :: "order_args \<Rightarrow> Quantity \<Rightarrow> ('p, 'z) book_core_scheme \<Rightarrow> ('p, 'z) book_core_scheme option"
    and fits :: "Price \<Rightarrow> bool"
  assumes repr_core: "repr F b \<Longrightarrow> \<exists>lv. core_ok pv F lv b"
    and repr_best: "repr F b \<Longrightarrow> best s b = map_option (px (bk_heap b)) (first (F s))"
    and repr_price: "repr F b \<Longrightarrow> level_price s p b = p"
    and repr_head: "repr F b \<Longrightarrow> head s p b = Some (first (at_price (bk_heap b) p (F s)))"
    and repr_write: "repr F b \<Longrightarrow> bk_heap b a = Some r \<Longrightarrow>
      repr F (b\<lparr>bk_heap := (bk_heap b)(a \<mapsto> r\<lparr>mo_remainingQuantity := q\<rparr>)\<rparr>)"
    and repr_remove: "repr F b \<Longrightarrow> bk_heap b a = Some r \<Longrightarrow>
      \<exists>b'. remove a b = Some b' \<and> repr (drop_addr a F) b' \<and>
        data (bk_heap b') = (data (bk_heap b))(a := None) \<and>
        bk_nextMarketOrderId b' = bk_nextMarketOrderId b \<and>
        pv_cap pv (bk_pool b') = pv_cap pv (bk_pool b)"
    and fill_eq: "repr F b \<Longrightarrow> bk_heap b a = Some r \<Longrightarrow>
      fill t (mo_price r) a q b io =
        (let fl = min q (mo_remainingQuantity r);
             r' = r\<lparr>mo_remainingQuantity := mo_remainingQuantity r - fl\<rparr>;
             b' = b\<lparr>bk_heap := (bk_heap b)(a \<mapsto> r')\<rparr>;
             io' = a_report v t r' fl (q - fl) io
         in if mo_remainingQuantity r' = 0
            then map_option (\<lambda>b'. (q - fl, b', io')) (remove a b')
            else Some (q - fl, b', io'))"
    and repr_room: "repr F b \<Longrightarrow> card (dom (bk_heap b)) \<le> pv_cap pv (bk_pool b)"
    and repr_counter: "repr F b \<Longrightarrow> repr F (b\<lparr>bk_nextMarketOrderId := n\<rparr>)"
    and repr_insert: "repr F b \<Longrightarrow> card (dom (bk_heap b)) < pv_cap pv (bk_pool b) \<Longrightarrow>
      (oa_clientId t, oa_clientOrderId t) \<notin> order_keys (bk_heap b) \<Longrightarrow> fits (oa_price t) \<Longrightarrow>
      \<exists>b' a. insert t q b = Some b' \<and> a \<notin> dom (bk_heap b) \<and>
        data (bk_heap b') = (data (bk_heap b))(a \<mapsto> order_of t q) \<and>
        repr (F(oa_side t := prio_insert (oa_side t) (bk_heap b') a (F (oa_side t)))) b' \<and>
        bk_nextMarketOrderId b' = bk_nextMarketOrderId b \<and>
        pv_cap pv (bk_pool b') = pv_cap pv (bk_pool b)"
begin

text \<open>One fill: the orders it does not touch, a fill that takes the whole resting order, and any fill.\<close>

lemma fill_frame:
  assumes rep: "repr F b" and F: "F (opposite (oa_side t)) = a # xs"
  obtains r where "bk_heap b a = Some r" and "a \<notin> set xs" and "a \<notin> set (F (oa_side t))"
proof -
  obtain lv where core: "core_ok pv F lv b" using repr_core [OF rep] by blast
  have aF: "a \<in> set (F (opposite (oa_side t)))" using F by simp
  obtain r where r: "bk_heap b a = Some r" using core aF by (rule core_sideD)
  have xs: "a \<notin> set xs" using core_dist_side [OF core, of "opposite (oa_side t)"] F by simp
  have oth: "a \<notin> set (F (oa_side t))"
    using core_disjoint [OF core, of "oa_side t" "opposite (oa_side t)"] aF by auto
  then show thesis by (rule that [OF r xs])
qed

lemma frame_abs:
  assumes "a \<notin> set xs" and "\<And>x. x \<noteq> a \<Longrightarrow> data h x = data h0 x"
  shows "abs_list h xs = abs_list h0 xs"
  using assms by (metis abs_list_cong)

lemma fill_removes:
  assumes rep: "repr F b1" and r: "bk_heap b1 a = Some r" and F: "F (opposite (oa_side t)) = a # xs"
    and b1: "b1 = b\<lparr>bk_heap := h1\<rparr>" and h1: "\<And>x. x \<noteq> a \<Longrightarrow> data h1 x = data (bk_heap b) x" and rep0: "repr F b"
  obtains b2 where "remove a b1 = Some b2" and "repr (drop_addr a F) b2" and "keeps pv (oa_side t) F b (drop_addr a F) b2"
    and "abs_list (bk_heap b2) (drop_addr a F (opposite (oa_side t))) = abs_list (bk_heap b) xs"
    and "length (drop_addr a F (opposite (oa_side t))) < length (F (opposite (oa_side t)))"
proof -
  obtain r0 where "bk_heap b a = Some r0" and xs: "a \<notin> set xs" and oth: "a \<notin> set (F (oa_side t))"
    by (rule fill_frame [OF rep0 F])
  obtain b2 where b2: "remove a b1 = Some b2" "repr (drop_addr a F) b2" "data (bk_heap b2) = (data (bk_heap b1))(a := None)"
    "bk_nextMarketOrderId b2 = bk_nextMarketOrderId b1" "pv_cap pv (bk_pool b2) = pv_cap pv (bk_pool b1)"
    using repr_remove [OF rep r] by blast
  have d2: "data (bk_heap b2) = (data (bk_heap b))(a := None)" using b2(3) h1 by (auto simp: b1 fun_eq_iff)
  have F': "drop_addr a F (opposite (oa_side t)) = xs" "drop_addr a F (oa_side t) = F (oa_side t)"
    using F xs oth by (simp_all add: drop_addr_def)
  have "order_keys (bk_heap b2) \<subseteq> order_keys (bk_heap b)" by (force simp: order_keys_def d2 split: if_splits)
  moreover have "\<forall>x\<in>set xs. px (bk_heap b2) x = px (bk_heap b) x" using xs d2 by (auto intro!: px_frame)
  ultimately have "keeps pv (oa_side t) F b (drop_addr a F) b2"
    using F F' b2(4,5) frame_abs [OF xs, of "bk_heap b2"] frame_abs [OF oth, of "bk_heap b2"] d2 by (simp add: keeps_def b1)
  then show thesis using that [OF b2(1,2)] F F' frame_abs [OF xs, of "bk_heap b2"] frame_abs [OF oth, of "bk_heap b2"] d2 by simp
qed

lemma fill_refines:
  assumes rep: "repr F b" and q: "q \<noteq> 0" and F: "F (opposite (oa_side t)) = a # xs"
    and cross: "\<not> before (opposite (oa_side t)) (oa_price t) (px (bk_heap b) a)"
  shows "\<exists>q' b' io' F'. fill t (px (bk_heap b) a) a q b io = Some (q', b', io') \<and> repr F' b' \<and>
    matched v pv t q F b io q' F' b' io' \<and> (q' = 0 \<or> length (F' (opposite (oa_side t))) < length (F (opposite (oa_side t))))"
proof -
  obtain r where r: "bk_heap b a = Some r" and xs: "a \<notin> set xs" and oth: "a \<notin> set (F (oa_side t))"
    by (rule fill_frame [OF rep F])
  have p: "px (bk_heap b) a = mo_price r" by (simp add: px_def r)
  define fl where "fl = min q (mo_remainingQuantity r)"
  define r' where "r' = r\<lparr>mo_remainingQuantity := mo_remainingQuantity r - fl\<rparr>"
  define b1 where "b1 = b\<lparr>bk_heap := (bk_heap b)(a \<mapsto> r')\<rparr>"
  define io1 where "io1 = a_report v t r' fl (q - fl) io"
  have rep1: "repr F b1" unfolding b1_def r'_def using rep r by (rule repr_write)
  have r1: "bk_heap b1 a = Some r'" and data1: "data (bk_heap b1) = (data (bk_heap b))(a \<mapsto> unlinked r')"
    by (simp_all add: b1_def)
  have fill: "fill t (px (bk_heap b) a) a q b io =
      (if mo_remainingQuantity r' = 0 then map_option (\<lambda>b'. (q - fl, b', io1)) (remove a b1) else Some (q - fl, b1, io1))"
    unfolding p using fill_eq [OF rep r, of t q io] by (simp add: Let_def fl_def r'_def b1_def io1_def)
  have am: "a_match v t q io (abs_list (bk_heap b) (F (opposite (oa_side t)))) =
      (if mo_remainingQuantity r' = 0 then a_match v t (q - fl) io1 (abs_list (bk_heap b) xs)
       else (q - fl, io1, unlinked r' # abs_list (bk_heap b) xs))"
    using q cross F p by (simp add: data_def r Let_def fl_def r'_def io1_def)
  show ?thesis
  proof (cases "mo_remainingQuantity r' = 0")
    case True
    obtain b2 where "remove a b1 = Some b2" "repr (drop_addr a F) b2" "keeps pv (oa_side t) F b (drop_addr a F) b2"
      "abs_list (bk_heap b2) (drop_addr a F (opposite (oa_side t))) = abs_list (bk_heap b) xs"
      "length (drop_addr a F (opposite (oa_side t))) < length (F (opposite (oa_side t)))"
      by (rule fill_removes [OF rep1 r1 F b1_def _ rep]) simp
    with True fill am show ?thesis unfolding matched_def by auto
  next
    case False
    have "q - fl = 0" using False by (simp add: fl_def r'_def min_def split: if_splits)
    moreover have "px (bk_heap b1) = px (bk_heap b)" using r by (auto simp: b1_def px_def r'_def)
    then have "keeps pv (oa_side t) F b F b1"
      using frame_abs [OF xs, of "bk_heap b1"] frame_abs [OF oth, of "bk_heap b1"] data1 order_keys_write [of "bk_heap b" a r, OF r] by (simp add: keeps_def b1_def r'_def)
    ultimately show ?thesis
      using False fill am rep1 F frame_abs [OF xs, of "bk_heap b1"] frame_abs [OF oth, of "bk_heap b1"] data1
      by (intro exI [of _ "q - fl"] exI [of _ b1] exI [of _ io1] exI [of _ F]) (simp add: matched_def)
  qed
qed

text \<open>The inner loop: it empties the level or exhausts the incoming quantity.\<close>

lemma level_loop_0: "repr F b \<Longrightarrow> level_loop (head s p) (fill t p) 0 b io = Some (0, b, io)"
  by (subst level_loop.simps) (auto simp: repr_head split: option.split)

lemma best_level:
  assumes "repr F b" and "\<And>x. x \<in> set (F s) \<Longrightarrow> \<not> before s (px (bk_heap b) x) p"
    and "at_price (bk_heap b) p (F s) \<noteq> []"
  obtains a xs where "F s = a # xs" and "px (bk_heap b) a = p" and "first (at_price (bk_heap b) p (F s)) = Some a"
proof -
  obtain lv where core: "core_ok pv F lv b" using repr_core [OF assms(1)] by blast
  obtain x where x: "x \<in> set (F s)" "px (bk_heap b) x = p"
    using assms(3) by (auto simp: at_price_def filter_empty_conv)
  then obtain a xs where F: "F s = a # xs" by (cases "F s") auto
  have "x = a \<or> \<not> before s p (px (bk_heap b) a)"
    using prio_best [of s "bk_heap b" a xs x] core_prio [OF core, of s] x F by auto
  then have "px (bk_heap b) a = p"
    using x assms(2) [of a] F before_linear [of s p "px (bk_heap b) a"] by auto
  then show ?thesis by (intro that [OF F]) (simp_all add: F at_price_Cons)
qed

lemma level_loop_refines:
  assumes "repr F b" and cross: "\<not> before (opposite (oa_side t)) (oa_price t) p"
    and "\<And>x. x \<in> set (F (opposite (oa_side t))) \<Longrightarrow> \<not> before (opposite (oa_side t)) (px (bk_heap b) x) p"
  shows "\<exists>q' b' io' F'. level_loop (head (opposite (oa_side t)) p) (fill t p) q b io = Some (q', b', io') \<and>
    repr F' b' \<and> matched v pv t q F b io q' F' b' io' \<and> (q' = 0 \<or> at_price (bk_heap b') p (F' (opposite (oa_side t))) = [])"
  using assms(1,3)
proof (induction "length (F (opposite (oa_side t)))" arbitrary: q F b io rule: less_induct)
  case less
  let ?s = "opposite (oa_side t)"
  let ?loop = "level_loop (head ?s p) (fill t p)"
  note rep = less.prems(1) and wo = less.prems(2)
  show ?case
  proof (cases "at_price (bk_heap b) p (F ?s) = [] \<or> q = 0")
    case True
    then have "?loop q b io = Some (q, b, io)"
      using rep by (subst level_loop.simps) (auto simp: repr_head split: option.split)
    with True rep show ?thesis by (intro exI [of _ q] exI [of _ b] exI [of _ io] exI [of _ F]) auto
  next
    case False
    with rep wo obtain a xs where F: "F ?s = a # xs" "px (bk_heap b) a = p" and hd: "first (at_price (bk_heap b) p (F ?s)) = Some a"
      by (metis best_level)
    obtain q1 b1 io1 F1 where 1: "fill t p a q b io = Some (q1, b1, io1)" "repr F1 b1" "matched v pv t q F b io q1 F1 b1 io1"
      "q1 = 0 \<or> length (F1 ?s) < length (F ?s)"
      using fill_refines [OF rep, of q t a xs io] False F cross by auto
    have step: "?loop q b io = ?loop q1 b1 io1"
      using rep False hd 1(1) by (subst level_loop.simps) (simp add: repr_head)
    show ?thesis
    proof (cases "q1 = 0")
      case True
      with 1 step level_loop_0 [OF 1(2)] show ?thesis by metis
    next
      case q1: False
      have "\<not> before ?s (px (bk_heap b1) x) p" if "x \<in> set (F1 ?s)" for x
        using that 1(3) wo by (auto simp: matched_def keeps_def)
      with less.hyps [of F1 b1 q1 io1] 1(2,4) q1 obtain q2 b2 io2 F2 where "?loop q1 b1 io1 = Some (q2, b2, io2)" "repr F2 b2"
        "matched v pv t q1 F1 b1 io1 q2 F2 b2 io2" "q2 = 0 \<or> at_price (bk_heap b2) p (F2 ?s) = []" by blast
      with step matched_trans [OF 1(3)] show ?thesis by metis
    qed
  qed
qed

text \<open>
  The outer loop: it stops when the incoming order is filled or does not cross the best level, and otherwise works off
  that level.
\<close>

lemma sweep_stops:
  assumes rep: "repr F b" and stop: "\<And>a xs. F (opposite (oa_side t)) = a # xs \<Longrightarrow> q = 0 \<or> before (opposite (oa_side t)) (oa_price t) (px (bk_heap b) a)"
  shows "sweep (best (opposite (oa_side t))) (\<lambda>p b. before (opposite (oa_side t)) (oa_price t) (level_price (opposite (oa_side t)) p b))
      (head (opposite (oa_side t))) (fill t) q b io = Some (q, b, io)"
    and "a_match v t q io (abs_list (bk_heap b) (F (opposite (oa_side t)))) = (q, io, abs_list (bk_heap b) (F (opposite (oa_side t))))"
proof -
  have b: "best (opposite (oa_side t)) b = map_option (px (bk_heap b)) (first (F (opposite (oa_side t))))" using rep by (rule repr_best)
  show "sweep (best (opposite (oa_side t))) (\<lambda>p b. before (opposite (oa_side t)) (oa_price t) (level_price (opposite (oa_side t)) p b))
      (head (opposite (oa_side t))) (fill t) q b io = Some (q, b, io)"
    using stop by (subst sweep.simps) (cases "F (opposite (oa_side t))"; auto simp: b repr_price [OF rep])
  show "a_match v t q io (abs_list (bk_heap b) (F (opposite (oa_side t)))) = (q, io, abs_list (bk_heap b) (F (opposite (oa_side t))))"
    using stop by (cases "F (opposite (oa_side t))") (auto simp: mo_price_the_data)
qed

lemma sweep_level:
  assumes rep: "repr F b" and F: "F (opposite (oa_side t)) = a # xs" and q: "q \<noteq> 0"
    and cross: "\<not> before (opposite (oa_side t)) (oa_price t) (px (bk_heap b) a)"
  obtains q1 b1 io1 F1 where "sweep (best (opposite (oa_side t)))
      (\<lambda>p b. before (opposite (oa_side t)) (oa_price t) (level_price (opposite (oa_side t)) p b)) (head (opposite (oa_side t))) (fill t) q b io =
    sweep (best (opposite (oa_side t)))
      (\<lambda>p b. before (opposite (oa_side t)) (oa_price t) (level_price (opposite (oa_side t)) p b)) (head (opposite (oa_side t))) (fill t) q1 b1 io1"
    and "repr F1 b1" and "matched v pv t q F b io q1 F1 b1 io1"
    and "q1 = 0 \<or> length (F1 (opposite (oa_side t))) < length (F (opposite (oa_side t)))"
proof -
  let ?s = "opposite (oa_side t)" and ?p = "px (bk_heap b) a"
  obtain lv where core: "core_ok pv F lv b" using repr_core [OF rep] by blast
  have wo: "\<not> before ?s (px (bk_heap b) x) ?p" if "x \<in> set (F ?s)" for x
    using that F prio_best [of ?s "bk_heap b" a xs x] core_prio [OF core, of ?s] by auto
  obtain q1 b1 io1 F1 where 1: "level_loop (head ?s ?p) (fill t ?p) q b io = Some (q1, b1, io1)" "repr F1 b1"
    "matched v pv t q F b io q1 F1 b1 io1" "q1 = 0 \<or> at_price (bk_heap b1) ?p (F1 ?s) = []"
    using level_loop_refines [OF rep cross wo, of q io] by blast
  have "best ?s b = Some ?p" using rep F by (simp add: repr_best)
  note step = that [OF _ 1(2,3)]
  show thesis
  proof (rule step)
    show "sweep (best ?s) (\<lambda>p b. before ?s (oa_price t) (level_price ?s p b)) (head ?s) (fill t) q b io =
        sweep (best ?s) (\<lambda>p b. before ?s (oa_price t) (level_price ?s p b)) (head ?s) (fill t) q1 b1 io1"
      using q cross \<open>best ?s b = Some ?p\<close> 1(1) rep by (subst sweep.simps) (simp add: repr_price)
    show "q1 = 0 \<or> length (F1 ?s) < length (F ?s)"
    proof (cases "q1 = 0")
      case False
      then have "set (F1 ?s) \<subseteq> set (F ?s)" "a \<notin> set (F1 ?s)"
        using 1(3,4) by (auto simp: matched_def keeps_def at_price_def filter_empty_conv)
      then have "set (F1 ?s) \<subset> set (F ?s)" using F by auto
      then have "length (F1 ?s) < length (F ?s)"
        using core_dist_side [OF core, of ?s] repr_core [OF 1(2)] core_dist_side [of pv F1 _ b1 ?s]
        by (metis distinct_card finite_set psubset_card_mono)
      then show ?thesis ..
    qed simp
  qed
qed

lemma sweep_refines:
  assumes "repr F b"
  shows "\<exists>q' b' io' F'. sweep (best (opposite (oa_side t)))
      (\<lambda>p b. before (opposite (oa_side t)) (oa_price t) (level_price (opposite (oa_side t)) p b)) (head (opposite (oa_side t))) (fill t) q b io =
        Some (q', b', io') \<and>
    repr F' b' \<and> keeps pv (oa_side t) F b F' b' \<and>
    a_match v t q io (abs_list (bk_heap b) (F (opposite (oa_side t)))) =
      (q', io', abs_list (bk_heap b') (F' (opposite (oa_side t))))"
  using assms
proof (induction "length (F (opposite (oa_side t)))" arbitrary: q F b io rule: less_induct)
  case less
  let ?s = "opposite (oa_side t)"
  show ?case
  proof (cases "\<forall>a xs. F ?s = a # xs \<longrightarrow> q = 0 \<or> before ?s (oa_price t) (px (bk_heap b) a)")
    case True
    then show ?thesis
      using sweep_stops [OF less.prems, of t q io] less.prems
      by (intro exI [of _ q] exI [of _ b] exI [of _ io] exI [of _ F]) simp
  next
    case False
    then obtain a xs where F: "F ?s = a # xs" "q \<noteq> 0" "\<not> before ?s (oa_price t) (px (bk_heap b) a)" by blast
    obtain q1 b1 io1 F1 where 1: "sweep (best ?s) (\<lambda>p b. before ?s (oa_price t) (level_price ?s p b)) (head ?s) (fill t) q b io =
        sweep (best ?s) (\<lambda>p b. before ?s (oa_price t) (level_price ?s p b)) (head ?s) (fill t) q1 b1 io1"
      "repr F1 b1" "matched v pv t q F b io q1 F1 b1 io1" "q1 = 0 \<or> length (F1 ?s) < length (F ?s)"
      by (rule sweep_level [OF less.prems F, of io])
    have m: "keeps pv (oa_side t) F b F1 b1" "a_match v t q io (abs_list (bk_heap b) (F ?s)) = a_match v t q1 io1 (abs_list (bk_heap b1) (F1 ?s))"
      using 1(3) by (simp_all add: matched_def)
    show ?thesis
    proof (cases "q1 = 0")
      case True
      with 1(1,2) m sweep_stops [OF 1(2), of t q1 io1] show ?thesis
        by (intro exI [of _ q1] exI [of _ b1] exI [of _ io1] exI [of _ F1]) simp
    next
      case q1: False
      with less.hyps [of F1 b1 q1 io1] 1(2,4) m keeps_trans [OF m(1)] show ?thesis unfolding 1(1) m(2) by metis
    qed
  qed
qed

text \<open>What the operations mean for the abstract book.\<close>

lemma abs_book_counter [simp]:
  "abs_book F (b\<lparr>bk_nextMarketOrderId := n\<rparr>) = (abs_book F b)\<lparr>ab_next := n\<rparr>"
  "ab_next (abs_book F b) = bk_nextMarketOrderId b"
  by (simp_all add: abs_book_def)

lemma a_side_abs_book: "a_side s (abs_book F b) = abs_list (bk_heap b) (F s)"
  by (cases s) (simp_all add: abs_book_def)

lemma match_abs:
  assumes rep: "repr F b"
  shows "\<exists>q' b' io' F'. sweep (best (opposite (oa_side t)))
      (\<lambda>p b. before (opposite (oa_side t)) (oa_price t) (level_price (opposite (oa_side t)) p b)) (head (opposite (oa_side t))) (fill t)
      (oa_initialQuantity t) b io = Some (q', b', io') \<and> repr F' b' \<and>
    a_take v t (abs_book F b) io = (q', abs_book F' b', io') \<and>
    card (dom (bk_heap b')) \<le> card (dom (bk_heap b)) \<and>
    pv_cap pv (bk_pool b') = pv_cap pv (bk_pool b) \<and>
    order_keys (bk_heap b') \<subseteq> order_keys (bk_heap b)"
proof -
  define s where "s = opposite (oa_side t)"
  obtain q' b' io' F' where sw: "sweep (best s) (\<lambda>p b. before s (oa_price t) (level_price s p b)) (head s) (fill t)
      (oa_initialQuantity t) b io = Some (q', b', io')" "repr F' b'" and k: "keeps pv (oa_side t) F b F' b'"
    and am: "a_match v t (oa_initialQuantity t) io (abs_list (bk_heap b) (F s)) =
      (q', io', abs_list (bk_heap b') (F' s))"
    using sweep_refines [OF rep, of t "oa_initialQuantity t" io] unfolding s_def by blast
  obtain lv lv' where core: "core_ok pv F lv b" "core_ok pv F' lv' b'"
    using repr_core [OF rep] repr_core [OF sw(2)] by blast
  have "card (dom (bk_heap b')) \<le> card (dom (bk_heap b))"
    using k card_dom_core [OF core(1), of "oa_side t"] card_dom_core [OF core(2), of "oa_side t"]
    by (simp add: keeps_def)
  moreover have "a_take v t (abs_book F b) io = (q', abs_book F' b', io')"
    using am k by (cases "oa_side t") (simp_all add: a_take_def abs_book_def s_def keeps_def)
  ultimately show ?thesis
    using sw k unfolding s_def by (auto simp: keeps_def)
qed

lemma insert_abs:
  assumes rep: "repr F b" and "card (dom (bk_heap b)) < pv_cap pv (bk_pool b)"
    and "(oa_clientId t, oa_clientOrderId t) \<notin> order_keys (bk_heap b)" and "fits (oa_price t)"
  shows "\<exists>b' F'. insert t q b = Some b' \<and> repr F' b' \<and> abs_book F' b' = a_rest t q (abs_book F b) \<and>
    pv_cap pv (bk_pool b') = pv_cap pv (bk_pool b)"
proof -
  obtain b' a where ins: "insert t q b = Some b'" "a \<notin> dom (bk_heap b)"
    "data (bk_heap b') = (data (bk_heap b))(a \<mapsto> order_of t q)"
    "repr (F(oa_side t := prio_insert (oa_side t) (bk_heap b') a (F (oa_side t)))) b'"
    "bk_nextMarketOrderId b' = bk_nextMarketOrderId b" "pv_cap pv (bk_pool b') = pv_cap pv (bk_pool b)"
    using repr_insert [OF assms, of q] by blast
  obtain lv where core: "core_ok pv F lv b" using repr_core [OF rep] by blast
  have aF: "a \<notin> set (F s)" for s using ins(2) core_dom [OF core] by (cases s) auto
  have "abs_list (bk_heap b') (F s) = abs_list (bk_heap b) (F s)" for s
    by (rule abs_list_cong) (use aF [of s] ins(3) in auto)
  then have "abs_book (F(oa_side t := prio_insert (oa_side t) (bk_heap b') a (F (oa_side t)))) b' =
      a_rest t q (abs_book F b)"
    using abs_list_prio_insert [OF aF ins(3), of "oa_side t" "oa_side t"] ins(5)
    by (cases "oa_side t") (simp_all add: abs_book_def a_rest_def)
  with ins show ?thesis by blast
qed

lemma remove_abs:
  assumes rep: "repr F b" and r: "bk_heap b a = Some r"
  shows "\<exists>b' F'. remove a b = Some b' \<and> repr F' b' \<and>
    abs_book F' b' = a_drop (mo_clientId r) (mo_clientOrderId r) (abs_book F b) \<and>
    pv_cap pv (bk_pool b') = pv_cap pv (bk_pool b) \<and>
    Suc (card (dom (bk_heap b'))) = card (dom (bk_heap b)) \<and>
    order_keys (bk_heap b') = order_keys (bk_heap b) - {(mo_clientId r, mo_clientOrderId r)}"
proof -
  obtain b' where b': "remove a b = Some b'" "repr (drop_addr a F) b'"
    "data (bk_heap b') = (data (bk_heap b))(a := None)"
    "bk_nextMarketOrderId b' = bk_nextMarketOrderId b" "pv_cap pv (bk_pool b') = pv_cap pv (bk_pool b)"
    using repr_remove [OF assms] by blast
  obtain lv where core: "core_ok pv F lv b" using repr_core [OF rep] by blast
  have dr: "data (bk_heap b) a = Some (unlinked r)" "has_key (mo_clientId r) (mo_clientOrderId r) (unlinked r)"
    using r by (simp_all add: data_def has_key_def)
  have live: "bk_heap b x \<noteq> None" if "x \<in> set (F s)" for x s
    using that core_dom [OF core] by (cases s) auto
  have "abs_list (bk_heap b') (drop_addr a F s) =
      filter (\<lambda>x. \<not> has_key (mo_clientId r) (mo_clientOrderId r) x) (abs_list (bk_heap b) (F s))" for s
    unfolding drop_addr_def using core_index [OF core] dr live b'(3) by (rule abs_list_removeAll)
  then have "abs_book (drop_addr a F) b' = a_drop (mo_clientId r) (mo_clientOrderId r) (abs_book F b)"
    using b'(4) by (simp add: abs_book_def a_drop_def)
  moreover have dom': "dom (bk_heap b') = dom (bk_heap b) - {a}"
    using arg_cong [OF b'(3), of dom] by simp
  have "finite (dom (bk_heap b))" using core_dom [OF core] by simp
  then have "Suc (card (dom (bk_heap b'))) = card (dom (bk_heap b))"
    unfolding dom' using r by (intro card_Suc_Diff1) auto
  moreover have "order_keys (bk_heap b') = order_keys (bk_heap b) - {(mo_clientId r, mo_clientOrderId r)}"
    using core_index [OF core] dr b'(3) by (rule order_keys_remove)
  ultimately show ?thesis using b' by blast
qed

lemma find_abs:
  assumes rep: "repr F b"
  shows "a_find c k (abs_book F b) =
    (case index_find c k (bk_orders b) of None \<Rightarrow> None | Some a \<Rightarrow> data (bk_heap b) a)"
proof -
  obtain lv where core: "core_ok pv F lv b" using repr_core [OF rep] by blast
  note ix = core_index [OF core]
  have all: "a_orders (abs_book F b) = map (\<lambda>a. the (data (bk_heap b) a)) (F BUY @ F SELL)"
    by (simp add: a_orders_def abs_book_def abs_list_def)
  have live: "\<exists>r. data (bk_heap b) x = Some r" if "x \<in> set (F BUY @ F SELL)" for x
    using that core_dom [OF core] by (force simp: data_def)
  show ?thesis
  proof (cases "index_find c k (bk_orders b)")
    case None
    have "\<not> has_key c k (the (data (bk_heap b) x))" if x: "x \<in> set (F BUY @ F SELL)" for x
      using live [OF x] index_ok_find [OF ix, of x _ c k] None by auto
    then have "find (has_key c k) (map (\<lambda>a. the (data (bk_heap b) a)) (F BUY @ F SELL)) = None"
      by (auto simp: find_None_iff)
    with None show ?thesis unfolding a_find_def all by simp
  next
    case (Some a)
    then obtain d where d: "data (bk_heap b) a = Some d" "has_key c k d"
      using index_ok_iff [OF ix] by blast
    have "a \<in> set (F BUY @ F SELL)" using d(1) core_dom [OF core] by (auto simp: data_def)
    then have ex: "\<exists>x\<in>set (map (\<lambda>a. the (data (bk_heap b) a)) (F BUY @ F SELL)). has_key c k x"
      using d by (force intro: rev_image_eqI [of a])
    then obtain y where y: "find (has_key c k) (map (\<lambda>a. the (data (bk_heap b) a)) (F BUY @ F SELL)) = Some y"
      by (metis find_None_iff2 not_None_eq)
    then have "has_key c k y" "y \<in> (\<lambda>a. the (data (bk_heap b) a)) ` set (F BUY @ F SELL)"
      using find_SomeD [of "has_key c k"] by (metis list.set_map)+
    then obtain x where x: "x \<in> set (F BUY @ F SELL)" "y = the (data (bk_heap b) x)" by blast
    then have "data (bk_heap b) x = Some y" using live [OF x(1)] by auto
    then have "x = a" using index_ok_unique [OF ix d] \<open>has_key c k y\<close> by blast
    with \<open>data (bk_heap b) x = Some y\<close> show ?thesis
      unfolding a_find_def all using y Some by simp
  qed
qed

lemma write_abs:
  assumes rep: "repr F b" and r: "bk_heap b a = Some r" and key: "has_key c k r"
  shows "abs_book F (b\<lparr>bk_heap := (bk_heap b)(a \<mapsto> r\<lparr>mo_remainingQuantity := mo_remainingQuantity r - q\<rparr>)\<rparr>) =
    a_shrink c k q (abs_book F b)"
proof -
  obtain lv where core: "core_ok pv F lv b" using repr_core [OF rep] by blast
  have key': "has_key c k (unlinked r)" using key by (simp add: has_key_def)
  let ?h = "(bk_heap b)(a \<mapsto> r\<lparr>mo_remainingQuantity := mo_remainingQuantity r - q\<rparr>)"
  let ?f = "\<lambda>r. if has_key c k r then r\<lparr>mo_remainingQuantity := mo_remainingQuantity r - q\<rparr> else r"
  have "the (data ?h x) = ?f (the (data (bk_heap b) x))" if xF: "x \<in> set (F s)" for x s
  proof -
    obtain d where d: "data (bk_heap b) x = Some d"
      using xF core_dom [OF core] by (cases s) (force simp: data_def)+
    have "has_key c k d \<longleftrightarrow> x = a"
      using index_ok_unique [OF core_index [OF core] dataI [of "bk_heap b" a r, OF r] key' d] d key' dataI [of "bk_heap b" a r, OF r]
      by auto
    then show ?thesis using d dataI [of "bk_heap b" a r, OF r] by (cases "x = a") auto
  qed
  then have "abs_list ?h (F s) = map ?f (abs_list (bk_heap b) (F s))" for s
    by (simp add: abs_list_def)
  then show ?thesis by (simp add: abs_book_def a_shrink_def Let_def)
qed

lemma room_abs:
  assumes "repr F b"
  shows "card (dom (bk_heap b)) = length (a_orders (abs_book F b))"
proof -
  obtain lv where core: "core_ok pv F lv b" using repr_core [OF assms] by blast
  show ?thesis
    using card_dom_core [OF core, of BUY] by (simp add: a_orders_def abs_book_def abs_list_def)
qed

lemma fresh_abs:
  assumes "repr F b"
  shows "(c, k) \<notin> order_keys (bk_heap b) \<longleftrightarrow> a_find c k (abs_book F b) = None"
proof -
  obtain lv where core: "core_ok pv F lv b" using repr_core [OF assms] by blast
  have "index_find c k (bk_orders b) = Some a \<Longrightarrow> data (bk_heap b) a \<noteq> None" for a
    using index_ok_iff [OF core_index [OF core], of c k a] by (auto simp del: data_eq_None)
  then show ?thesis
    unfolding find_abs [OF assms] index_find_None_iff [OF core, symmetric] by (auto split: option.split)
qed

text \<open>Replacing an order frees the room the replacement may need.\<close>

lemma remove_then_room:
  assumes rep: "repr F b" and r: "bk_heap b a = Some r" and key: "has_key c k r"
  shows "\<exists>b' F'. remove a (b\<lparr>bk_nextMarketOrderId := n\<rparr>) = Some b' \<and> repr F' b' \<and>
    abs_book F' b' = a_drop c k ((abs_book F b)\<lparr>ab_next := n\<rparr>) \<and>
    pv_cap pv (bk_pool b') = pv_cap pv (bk_pool b) \<and>
    card (dom (bk_heap b')) < pv_cap pv (bk_pool b')"
proof -
  let ?b = "b\<lparr>bk_nextMarketOrderId := n\<rparr>"
  have "repr F ?b" "bk_heap ?b a = Some r" using repr_counter [OF rep] r by simp_all
  from remove_abs [OF this] repr_room [OF this(1)] key show ?thesis
    by (fastforce simp: has_key_def)
qed

text \<open>A live order is found by its key, and a lookup that fails fails for the abstract book too.\<close>

lemma found_abs:
  assumes rep: "repr F b" and a: "index_find c k (bk_orders b) = Some a"
  obtains r where "bk_heap b a = Some r" and "has_key c k r" and "a_find c k (abs_book F b) = Some (unlinked r)"
proof -
  obtain lv where core: "core_ok pv F lv b" using repr_core [OF rep] by blast
  obtain d where d: "data (bk_heap b) a = Some d" "has_key c k d"
    using a index_ok_iff [OF core_index [OF core]] by blast
  then obtain r where r: "bk_heap b a = Some r" "d = unlinked r" by (auto simp: data_def)
  then have "has_key c k r" using d(2) by (simp add: has_key_def)
  with r d(1) show ?thesis using that find_abs [OF rep, of c k] a by simp
qed

text \<open>The start of a replace: the order is found and removed, and there is room for its replacement.\<close>

lemma replace_start:
  assumes F: "repr F b" and a: "index_find c k (bk_orders b) = Some a" and ok: "replace_ok fits c k k' ty p (abs_book F b)"
  obtains r b1 F1 where "bk_heap b a = Some r" and "a_find c k (abs_book F b) = Some (unlinked r)"
    and "remove a (b\<lparr>bk_nextMarketOrderId := bk_nextMarketOrderId b + 1\<rparr>) = Some b1" and "repr F1 b1"
    and "abs_book F1 b1 = a_drop c k ((abs_book F b)\<lparr>ab_next := bk_nextMarketOrderId b + 1\<rparr>)"
    and "pv_cap pv (bk_pool b1) = pv_cap pv (bk_pool b)"
    and "ty = GoodTillCancel \<longrightarrow> card (dom (bk_heap b1)) < pv_cap pv (bk_pool b1) \<and> (c, k') \<notin> order_keys (bk_heap b1) \<and> fits p"
proof -
  obtain r where r: "bk_heap b a = Some r" "has_key c k r" "a_find c k (abs_book F b) = Some (unlinked r)"
    using found_abs [OF F a] by metis
  obtain b1 F1 where b1: "remove a (b\<lparr>bk_nextMarketOrderId := bk_nextMarketOrderId b + 1\<rparr>) = Some b1" "repr F1 b1"
    "abs_book F1 b1 = a_drop c k ((abs_book F b)\<lparr>ab_next := bk_nextMarketOrderId b + 1\<rparr>)"
    "pv_cap pv (bk_pool b1) = pv_cap pv (bk_pool b)" "card (dom (bk_heap b1)) < pv_cap pv (bk_pool b1)"
    using remove_then_room [OF F r(1,2), of "bk_nextMarketOrderId b + 1"] by auto
  have "ty = GoodTillCancel \<longrightarrow> card (dom (bk_heap b1)) < pv_cap pv (bk_pool b1) \<and> (c, k') \<notin> order_keys (bk_heap b1) \<and> fits p"
    using ok b1(5) fresh_abs [OF b1(2), of c k'] by (simp add: replace_ok_def b1(3))
  with that [OF r(1,3) b1(1-4)] show thesis by blast
qed

text \<open>The body of a cancel: reduce the order, and remove it when nothing is left.\<close>

lemma cancel_abs:
  assumes rep: "repr F b" and r: "bk_heap b a = Some r" and key: "has_key c k r"
    and b1: "b1 = b\<lparr>bk_heap := (bk_heap b)(a \<mapsto> r\<lparr>mo_remainingQuantity := mo_remainingQuantity r - q\<rparr>)\<rparr>"
  shows "\<exists>b' F'. (if mo_remainingQuantity r = q then remove a b1 else Some b1) = Some b' \<and> repr F' b' \<and>
    abs_book F' b' = (if mo_remainingQuantity r = q then a_drop c k (abs_book F b)
                      else a_shrink c k q (abs_book F b)) \<and>
    pv_cap pv (bk_pool b') = pv_cap pv (bk_pool b)"
proof -
  have rep1: "repr F b1" and abs1: "abs_book F b1 = a_shrink c k q (abs_book F b)"
    unfolding b1 using repr_write [OF rep r] write_abs [OF rep r key] by simp_all
  have "bk_heap b1 a = Some (r\<lparr>mo_remainingQuantity := mo_remainingQuantity r - q\<rparr>)" by (simp add: b1)
  from remove_abs [OF rep1 this] rep1 abs1 key show ?thesis
    by (auto simp: has_key_def b1 a_drop_shrink)
qed

text \<open>
  The common tail of \<^verbatim>\<open>addOrder\<close> and \<^verbatim>\<open>replaceOrder\<close>: match, then rest what is left of a
  good-till-cancel order or drop what is left of a fill-and-kill order. \<open>f\<close> and \<open>g\<close> stand for
  the messages sent in the two cases.
\<close>

lemma take_then_rest:
  assumes rep: "repr F b"
    and pre: "oa_orderType t = GoodTillCancel \<Longrightarrow> card (dom (bk_heap b)) < pv_cap pv (bk_pool b) \<and>
      (oa_clientId t, oa_clientOrderId t) \<notin> order_keys (bk_heap b) \<and> fits (oa_price t)"
  shows "\<exists>b' F'. Option.bind (sweep (best (opposite (oa_side t)))
        (\<lambda>p b. before (opposite (oa_side t)) (oa_price t) (level_price (opposite (oa_side t)) p b)) (head (opposite (oa_side t))) (fill t)
        (oa_initialQuantity t) b io)
      (\<lambda>(q, b, io). if q = 0 then Some (b, io)
        else case oa_orderType t of GoodTillCancel \<Rightarrow> map_option (\<lambda>b. (b, f q io)) (insert t q b)
             | FillAndKill \<Rightarrow> Some (b, g q io)) = Some (b', snd (a_finish v t f g (abs_book F b) io)) \<and>
    repr F' b' \<and> pv_cap pv (bk_pool b') = pv_cap pv (bk_pool b) \<and>
    abs_book F' b' = fst (a_finish v t f g (abs_book F b) io)"
proof -
  obtain q1 b1 io1 F1 where 1: "sweep (best (opposite (oa_side t)))
      (\<lambda>p b. before (opposite (oa_side t)) (oa_price t) (level_price (opposite (oa_side t)) p b)) (head (opposite (oa_side t))) (fill t)
      (oa_initialQuantity t) b io = Some (q1, b1, io1)" "repr F1 b1"
    "a_take v t (abs_book F b) io = (q1, abs_book F1 b1, io1)"
    "card (dom (bk_heap b1)) \<le> card (dom (bk_heap b))"
    "pv_cap pv (bk_pool b1) = pv_cap pv (bk_pool b)" "order_keys (bk_heap b1) \<subseteq> order_keys (bk_heap b)"
    using match_abs [OF rep, of t io] by blast
  show ?thesis
  proof (cases "q1 \<noteq> 0 \<and> oa_orderType t = GoodTillCancel")
    case True
    then obtain b2 F2 where "insert t q1 b1 = Some b2" "repr F2 b2"
      "abs_book F2 b2 = a_rest t q1 (abs_book F1 b1)" "pv_cap pv (bk_pool b2) = pv_cap pv (bk_pool b1)"
      using insert_abs [OF 1(2), of t q1] pre 1(4-6) by auto
    with True 1 show ?thesis by (auto simp: a_finish_def)
  next
    case False
    with 1 show ?thesis by (cases "oa_orderType t") (auto simp: a_finish_def)
  qed
qed

end

end
