(* ===== verification/MapBook.thy ===== *)
theory MapBook
  imports OrderedMap Matching OrderBook
begin

text \<open>
  The default order book, \<^verbatim>\<open>src/src/engine/order_book/order_book_map.cpp\<close>: one ordered map of
  price levels per side, each level a doubly linked list of pool-allocated orders.

  In \<^verbatim>\<open>match\<close> the inner loop keeps the reference \<^verbatim>\<open>priceLevel\<close> into the map while \<^verbatim>\<open>remove\<close> may
  erase that very map node; the loop condition then reads \<^verbatim>\<open>priceLevel.head\<close> of the erased node.
  C++ gives that read no meaning. \<open>erased_read\<close> makes the choice explicit: with \<open>Trap\<close> the read
  is undefined behaviour, with \<open>LastValue\<close> it yields the value last stored in the node, which
  is the null pointer \<^verbatim>\<open>remove\<close> wrote just before the erase (nothing is allocated in between).
\<close>

text \<open>
  Every theorem on matching in the map book is stated for \<open>LastValue\<close>, and says so; only \<open>map_add_reads_erased_level\<close> (C23) is for \<open>Trap\<close>.
\<close>

datatype erased_read = LastValue | Trap

record 'p map_book = "'p book_core" +
  mb_size :: nat
  mb_asks :: "(Price \<times> PriceLevel) list"
  mb_bids :: "(Price \<times> PriceLevel) list"

fun mb_levels :: "Side \<Rightarrow> 'p map_book \<Rightarrow> (Price \<times> PriceLevel) list" where
  "mb_levels BUY b = mb_bids b"
| "mb_levels SELL b = mb_asks b"

fun mb_set_levels :: "Side \<Rightarrow> (Price \<times> PriceLevel) list \<Rightarrow> 'p map_book \<Rightarrow> 'p map_book" where
  "mb_set_levels BUY m b = b\<lparr>mb_bids := m\<rparr>"
| "mb_set_levels SELL m b = b\<lparr>mb_asks := m\<rparr>"

section \<open>The operations of the source\<close>

definition map_book_init :: "nat \<Rightarrow> TickerId \<Rightarrow> 'p \<Rightarrow> 'p map_book" where
  "map_book_init sz tickerId pool =
    \<lparr>bk_tickerId = tickerId, bk_pool = pool, bk_heap = Map.empty, bk_orders = [],
     bk_nextMarketOrderId = 1, mb_size = sz, mb_asks = [], mb_bids = []\<rparr>"

definition map_insert :: "'p pool_ops \<Rightarrow> order_args \<Rightarrow> Quantity \<Rightarrow> 'p map_book \<Rightarrow> 'p map_book option" where
  "map_insert ops t initialQuantity b = do {
     (order, b) \<leftarrow> new_order ops (order_of t initialQuantity) b;
     let m = mb_levels (oa_side t) b;
     (priceLevel, h) \<leftarrow> link_order order (om_get (oa_price t) m) (bk_heap b);
     Some (mb_set_levels (oa_side t) (om_put (before (oa_side t)) (oa_price t) priceLevel m)
       (b\<lparr>bk_heap := h,
          bk_orders := index_put (oa_clientId t) (oa_clientOrderId t) order (bk_orders b)\<rparr>))
   }"

definition map_remove :: "'p pool_ops \<Rightarrow> addr \<Rightarrow> 'p map_book \<Rightarrow> 'p map_book option" where
  "map_remove ops order b = do {
     r \<leftarrow> bk_heap b order;
     let price = mo_price r;
     let m = mb_levels (mo_side r) b;
     (priceLevel, h) \<leftarrow> unlink_order order (om_get price m) (bk_heap b);
     r \<leftarrow> h order;
     let m' = (if pl_head priceLevel = None then om_erase price m
               else om_put (before (mo_side r)) price priceLevel m);
     Some (delete_order ops order (mb_set_levels (mo_side r) m'
       (b\<lparr>bk_heap := h,
          bk_orders := index_erase (mo_clientId r) (mo_clientOrderId r) (bk_orders b)\<rparr>)))
   }"

definition map_best :: "Side \<Rightarrow> 'p map_book \<Rightarrow> Price option" where
  "map_best s b = om_begin (mb_levels s b)"

definition map_head :: "erased_read \<Rightarrow> Side \<Rightarrow> Price \<Rightarrow> 'p map_book \<Rightarrow> addr option option" where
  "map_head er s p b =
    (case map_of (mb_levels s b) p of
      Some l \<Rightarrow> Some (pl_head l)
    | None \<Rightarrow> (case er of LastValue \<Rightarrow> Some None | Trap \<Rightarrow> None))"

text \<open>One turn of the inner loop of \<^verbatim>\<open>match\<close>.\<close>

definition map_fill :: "'p pool_ops \<Rightarrow> order_args \<Rightarrow> Price \<Rightarrow> addr \<Rightarrow> Quantity \<Rightarrow> 'p map_book \<Rightarrow> engine_io \<Rightarrow>
    (Quantity \<times> 'p map_book \<times> engine_io) option" where
  "map_fill ops t levelPrice restingOrder remainingQuantity b io = do {
     r \<leftarrow> bk_heap b restingOrder;
     let fill = min remainingQuantity (mo_remainingQuantity r);
     let (match_id, io) = nextMatchId io;
     let remainingQuantity = remainingQuantity - fill;
     let r = r\<lparr>mo_remainingQuantity := mo_remainingQuantity r - fill\<rparr>;
     let b = b\<lparr>bk_heap := (bk_heap b)(restingOrder \<mapsto> r)\<rparr>;
     let io = sendClientResponse (mk_response (mo_clientId r) (oa_tickerId t) (mo_clientOrderId r)
           (mo_marketOrderId r) (mo_side r) (mo_price r) (mo_initialQuantity r) (mo_orderType r)
           EXECUTED fill levelPrice (mo_remainingQuantity r) match_id (mo_order_token r)) io;
     let io = sendClientResponse (mk_response (oa_clientId t) (oa_tickerId t) (oa_clientOrderId t)
           (oa_marketOrderId t) (oa_side t) (oa_price t) (oa_initialQuantity t) (oa_orderType t)
           EXECUTED fill levelPrice remainingQuantity match_id (oa_orderToken t)) io;
     let io = sendMarketUpdate (mk_update (oa_tickerId t) (mo_marketOrderId r) U_TRADE (mo_side r)
           (mo_price r) fill OrderId_INVALID match_id) io;
     b \<leftarrow> (if mo_remainingQuantity r = 0 then map_remove ops restingOrder b else Some b);
     Some (remainingQuantity, b, io)
   }"

definition map_match :: "erased_read \<Rightarrow> 'p pool_ops \<Rightarrow> order_args \<Rightarrow> 'p map_book \<Rightarrow> engine_io \<Rightarrow>
    (Quantity \<times> 'p map_book \<times> engine_io) option" where
  "map_match er ops t b io =
    (let stop = (\<lambda>levelPrice b. (oa_side t = BUY \<and> oa_price t < levelPrice) \<or>
                              (oa_side t = SELL \<and> oa_price t > levelPrice));
         matchAgainst = (\<lambda>oppositeSide. sweep (map_best oppositeSide) stop (map_head er oppositeSide)
            (map_fill ops t) (oa_initialQuantity t) b io)
     in if oa_side t = BUY then matchAgainst SELL else matchAgainst BUY)"

definition map_addOrder :: "erased_read \<Rightarrow> 'p pool_ops \<Rightarrow> order_args \<Rightarrow> 'p map_book \<Rightarrow> engine_io \<Rightarrow>
    ('p map_book \<times> engine_io) option" where
  "map_addOrder er ops args b io = do {
     let marketOrderId = bk_nextMarketOrderId b;
     let b = b\<lparr>bk_nextMarketOrderId := bk_nextMarketOrderId b + 1\<rparr>;
     let t = args\<lparr>oa_marketOrderId := marketOrderId\<rparr>;
     let io = sendClientResponse (mk_response (oa_clientId t) (oa_tickerId t) (oa_clientOrderId t)
           marketOrderId (oa_side t) (oa_price t) (oa_initialQuantity t) (oa_orderType t)
           ACCEPTED 0 (oa_price t) (oa_initialQuantity t) OrderId_INVALID (oa_orderToken t)) io;
     (remainingQuantity, b, io) \<leftarrow> map_match er ops t b io;
     if remainingQuantity > 0 then
       (case oa_orderType t of
          GoodTillCancel \<Rightarrow> do {
            b \<leftarrow> map_insert ops t remainingQuantity b;
            Some (b, sendMarketUpdate (mk_update (oa_tickerId t) marketOrderId U_ADD (oa_side t)
              (oa_price t) remainingQuantity OrderId_INVALID OrderId_INVALID) io)
          }
        | FillAndKill \<Rightarrow>
            Some (b, sendClientResponse (mk_response (oa_clientId t) (oa_tickerId t)
              (oa_clientOrderId t) marketOrderId (oa_side t) (oa_price t) (oa_initialQuantity t)
              (oa_orderType t) CANCELED 0 (oa_price t) remainingQuantity OrderId_INVALID
              (oa_orderToken t)) io))
     else Some (b, io)
   }"

definition map_cancelOrder :: "'p pool_ops \<Rightarrow> TickerId \<Rightarrow> ClientId \<Rightarrow> OrderId \<Rightarrow> Quantity \<Rightarrow> OrderToken \<Rightarrow>
    'p map_book \<Rightarrow> engine_io \<Rightarrow> ('p map_book \<times> engine_io) option" where
  "map_cancelOrder ops tickerId clientId clientOrderId qty orderToken b io =
    (case map_of (bk_orders b) clientId of
      None \<Rightarrow> Some (b, sendClientResponse (reject_response tickerId clientId clientOrderId orderToken) io)
    | Some clientOrders \<Rightarrow>
      (case map_of clientOrders clientOrderId of
        None \<Rightarrow> Some (b, sendClientResponse (reject_response tickerId clientId clientOrderId orderToken) io)
      | Some order \<Rightarrow> do {
          r \<leftarrow> bk_heap b order;
          let canceled_qty = (if qty = 0 then mo_remainingQuantity r else qty);
          if canceled_qty > mo_remainingQuantity r then
            Some (b, sendClientResponse (mk_response clientId tickerId clientOrderId
              (mo_marketOrderId r) (mo_side r) (mo_price r) (mo_initialQuantity r) (mo_orderType r)
              CANCEL_REJECTED 0 Price_INVALID (mo_remainingQuantity r) OrderId_INVALID
              (mo_order_token r)) io)
          else do {
            let io = sendMarketUpdate (mk_update tickerId (mo_marketOrderId r) U_CANCEL (mo_side r)
              (mo_price r) canceled_qty OrderId_INVALID OrderId_INVALID) io;
            let r = r\<lparr>mo_remainingQuantity := mo_remainingQuantity r - canceled_qty\<rparr>;
            let b = b\<lparr>bk_heap := (bk_heap b)(order \<mapsto> r)\<rparr>;
            let io = sendClientResponse (mk_response clientId tickerId clientOrderId
              (mo_marketOrderId r) (mo_side r) (mo_price r) (mo_initialQuantity r) (mo_orderType r)
              CANCELED 0 (mo_price r) canceled_qty OrderId_INVALID (mo_order_token r)) io;
            b \<leftarrow> (if mo_remainingQuantity r = 0 then map_remove ops order b else Some b);
            Some (b, io)
          }
        }))"

definition map_replaceOrder :: "erased_read \<Rightarrow> 'p pool_ops \<Rightarrow> TickerId \<Rightarrow> ClientId \<Rightarrow> OrderId \<Rightarrow> OrderId \<Rightarrow>
    OrderType \<Rightarrow> Price \<Rightarrow> Quantity \<Rightarrow> OrderToken \<Rightarrow> 'p map_book \<Rightarrow> engine_io \<Rightarrow>
    ('p map_book \<times> engine_io) option" where
  "map_replaceOrder er ops tickerId clientId clientOrderId newClientOrderId orderType price qty orderToken b io =
    (case map_of (bk_orders b) clientId of
      None \<Rightarrow> Some (b, sendClientResponse (reject_response tickerId clientId clientOrderId orderToken) io)
    | Some clientOrders \<Rightarrow>
      (case (if newClientOrderId = 0 \<or> qty = 0 then None else map_of clientOrders clientOrderId) of
        None \<Rightarrow> Some (b, sendClientResponse (reject_response tickerId clientId clientOrderId orderToken) io)
      | Some old_order \<Rightarrow> do {
          r \<leftarrow> bk_heap b old_order;
          let side = mo_side r;
          let old_market_order_id = mo_marketOrderId r;
          let new_market_order_id = bk_nextMarketOrderId b;
          let b = b\<lparr>bk_nextMarketOrderId := bk_nextMarketOrderId b + 1\<rparr>;
          b \<leftarrow> map_remove ops old_order b;
          let io = sendClientResponse (mk_response clientId tickerId newClientOrderId new_market_order_id
            side price qty orderType MODIFIED 0 price qty OrderId_INVALID orderToken) io;
          let io = sendMarketUpdate (mk_update tickerId old_market_order_id U_MODIFY side price qty
            new_market_order_id OrderId_INVALID) io;
          let t = \<lparr>oa_tickerId = tickerId, oa_clientId = clientId, oa_clientOrderId = newClientOrderId,
            oa_marketOrderId = new_market_order_id, oa_orderType = orderType, oa_price = price,
            oa_initialQuantity = qty, oa_side = side, oa_orderToken = orderToken\<rparr>;
          (remaining_qty, b, io) \<leftarrow> map_match er ops t b io;
          if remaining_qty = 0 then Some (b, io)
          else (case orderType of
            GoodTillCancel \<Rightarrow> do { b \<leftarrow> map_insert ops t remaining_qty b; Some (b, io) }
          | FillAndKill \<Rightarrow> do {
              let io = sendClientResponse (mk_response clientId tickerId newClientOrderId
                new_market_order_id side price qty orderType CANCELED 0 price remaining_qty
                OrderId_INVALID orderToken) io;
              let io = sendMarketUpdate (mk_update tickerId new_market_order_id U_CANCEL side price
                remaining_qty OrderId_INVALID OrderId_INVALID) io;
              Some (b, io)
            })
        }))"

section \<open>Representation\<close>

text \<open>
  \<open>map_repr ops pv F b\<close>: the shared state is in order, the maps are sorted, and a price has a
  node in a side's map exactly when an order rests there.
\<close>

definition map_repr :: "'p pool_ops \<Rightarrow> 'p pool_view \<Rightarrow> (Side \<Rightarrow> addr list) \<Rightarrow> 'p map_book \<Rightarrow> bool" where
  "map_repr ops pv F b \<longleftrightarrow> pool_spec ops pv \<and>
     core_ok pv F (\<lambda>s p. om_get p (mb_levels s b)) b \<and>
     (\<forall>s. om_sorted (before s) (mb_levels s b)) \<and>
     (\<forall>s p. map_of (mb_levels s b) p \<noteq> None \<longleftrightarrow> p \<in> px (bk_heap b) ` set (F s))"

lemma mb_levels_simps [simp]:
  "mb_levels s (mb_set_levels s' m b) = (if s' = s then m else mb_levels s b)"
  "mb_levels s (bk_heap_update f b) = mb_levels s b"
  "mb_levels s (bk_orders_update g b) = mb_levels s b"
  "mb_levels s (bk_pool_update h b) = mb_levels s b"
  "mb_levels s (bk_nextMarketOrderId_update i b) = mb_levels s b"
  by (cases s; cases s'; simp)+

lemma mb_set_levels_simps [simp]:
  "bk_heap (mb_set_levels s m b) = bk_heap b"
  "bk_orders (mb_set_levels s m b) = bk_orders b"
  "bk_pool (mb_set_levels s m b) = bk_pool b"
  "bk_nextMarketOrderId (mb_set_levels s m b) = bk_nextMarketOrderId b"
  "bk_tickerId (mb_set_levels s m b) = bk_tickerId b"
  by (cases s; simp)+

lemma om_get_put [simp]:
  "om_sorted (before s) m \<Longrightarrow> om_get q (om_put (before s) p l m) = (if q = p then l else om_get q m)"
  by (simp add: om_get_def side_order.map_of_om_put)

lemma om_get_erase [simp]: "om_get q (om_erase p m) = (if q = p then default_level else om_get q m)"
  by (simp add: om_get_def)

lemma map_repr_pool: "map_repr ops pv F b \<Longrightarrow> pool_spec ops pv"
  and map_repr_core: "map_repr ops pv F b \<Longrightarrow> core_ok pv F (\<lambda>s p. om_get p (mb_levels s b)) b"
  and map_repr_sorted: "map_repr ops pv F b \<Longrightarrow> om_sorted (before s) (mb_levels s b)"
  unfolding map_repr_def by simp_all

lemma map_repr_keys:
  assumes "map_repr ops pv F b"
  shows "map_of (mb_levels s b) p \<noteq> None \<longleftrightarrow> p \<in> px (bk_heap b) ` set (F s)"
proof -
  have "\<forall>s p. map_of (mb_levels s b) p \<noteq> None \<longleftrightarrow> p \<in> px (bk_heap b) ` set (F s)"
    using assms unfolding map_repr_def by (elim conjE)
  from this [THEN spec, THEN spec] show ?thesis .
qed

lemma map_repr_best:
  assumes "map_repr ops pv F b"
  shows "map_best s b = map_option (px (bk_heap b)) (first (F s))"
proof (cases "F s")
  case Nil
  then have "map_of (mb_levels s b) = Map.empty"
    using map_repr_keys [OF assms, of s] by (auto simp: fun_eq_iff)
  then have "mb_levels s b = []" by simp
  with Nil show ?thesis by (simp add: map_best_def om_begin_def)
next
  case (Cons a xs)
  have "om_begin (mb_levels s b) = Some (px (bk_heap b) a)"
  proof (rule side_order.om_begin_least [OF map_repr_sorted [OF assms]])
    show "map_of (mb_levels s b) (px (bk_heap b) a) \<noteq> None"
      using map_repr_keys [OF assms] Cons by simp
  next
    fix p assume "map_of (mb_levels s b) p \<noteq> None"
    then obtain x where "x \<in> set (F s)" "p = px (bk_heap b) x"
      using map_repr_keys [OF assms] by blast
    then show "\<not> before s p (px (bk_heap b) a)"
      using core_prio [OF map_repr_core [OF assms], of s] prio_best [of s "bk_heap b" a xs x] Cons by auto
  qed
  with Cons show ?thesis by (simp add: map_best_def)
qed

lemma map_repr_head:
  assumes "map_repr ops pv F b"
  shows "map_head LastValue s p b = Some (first (at_price (bk_heap b) p (F s)))"
proof (cases "map_of (mb_levels s b) p")
  case None
  then have "at_price (bk_heap b) p (F s) = []"
    using map_repr_keys [OF assms, of s p] by (auto simp: at_price_def filter_empty_conv)
  with None show ?thesis by (simp add: map_head_def)
next
  case (Some l)
  then have "level_ok (bk_heap b) (at_price (bk_heap b) p (F s)) l"
    using core_level [OF map_repr_core [OF assms], of p s] by (simp add: om_get_def)
  with Some show ?thesis by (simp add: map_head_def level_ok_def)
qed

lemma map_repr_write:
  assumes "map_repr ops pv F b" and "bk_heap b a = Some r"
  shows "map_repr ops pv F (b\<lparr>bk_heap := (bk_heap b)(a \<mapsto> r\<lparr>mo_remainingQuantity := q\<rparr>)\<rparr>)"
proof -
  have "px ((bk_heap b)(a \<mapsto> r\<lparr>mo_remainingQuantity := q\<rparr>)) = px (bk_heap b)"
    using assms(2) by (auto simp: px_def)
  then show ?thesis
    using core_write [OF map_repr_core [OF assms(1)] assms(2)] assms(1) by (simp add: map_repr_def)
qed

text \<open>The level maps after a change of one node.\<close>

lemma map_reprI:
  assumes "pool_spec ops pv" and "core_ok pv F (\<lambda>s p. om_get p (mb_levels s b)) b"
    and "\<And>s. om_sorted (before s) (mb_levels s b)"
    and "\<And>s p. map_of (mb_levels s b) p \<noteq> None \<longleftrightarrow> p \<in> px (bk_heap b) ` set (F s)"
  shows "map_repr ops pv F b"
  unfolding map_repr_def using assms by (intro conjI allI)

lemma map_repr_removed:
  assumes rep: "map_repr ops pv F b" and a: "a \<in> set (F s)"
    and core': "core_ok pv (drop_addr a F) (\<lambda>s p. om_get p (mb_levels s b')) b'"
    and d: "data (bk_heap b') = (data (bk_heap b))(a := None)"
    and lvls: "\<And>s'. mb_levels s' b' = (if s' = s then m' else mb_levels s' b)" and srt: "om_sorted (before s) m'"
    and keys: "\<And>q. map_of m' q \<noteq> None \<longleftrightarrow> q \<in> px (bk_heap b) ` (set (F s) - {a})"
  shows "map_repr ops pv (drop_addr a F) b'"
proof (rule map_reprI [OF map_repr_pool [OF rep] core'])
  show "om_sorted (before s') (mb_levels s' b')" for s' using map_repr_sorted [OF rep, of s'] srt by (simp add: lvls)
  fix s' q
  have "px (bk_heap b') x = px (bk_heap b) x" if "x \<noteq> a" for x by (rule px_frame) (simp add: d that)
  then have img: "px (bk_heap b') ` set (drop_addr a F s') = px (bk_heap b) ` (set (F s') - {a})" by auto
  have "s' \<noteq> s \<Longrightarrow> set (F s') - {a} = set (F s')" using a core_disjoint [OF map_repr_core [OF rep], of s s'] by auto
  then show "map_of (mb_levels s' b') q \<noteq> None \<longleftrightarrow> q \<in> px (bk_heap b') ` set (drop_addr a F s')"
    using map_repr_keys [OF rep, of s' q] keys [of q] unfolding img lvls by (cases "s' = s") auto
qed

lemma map_remove_ok:
  assumes rep: "map_repr ops pv F b" and r: "bk_heap b a = Some r"
  shows "\<exists>b'. map_remove ops a b = Some b' \<and> map_repr ops pv (drop_addr a F) b' \<and>
        data (bk_heap b') = (data (bk_heap b))(a := None) \<and>
        bk_nextMarketOrderId b' = bk_nextMarketOrderId b \<and>
        pv_cap pv (bk_pool b') = pv_cap pv (bk_pool b)"
proof -
  define s p m where s_p_m_def: "s = mo_side r" "p = mo_price r" "m = mb_levels (mo_side r) b"
  note core = map_repr_core [OF rep] and spec = map_repr_pool [OF rep]
  have m: "m = mb_levels s b" by (simp add: s_p_m_def)
  have srt: "om_sorted (before s) m" unfolding m by (rule map_repr_sorted [OF rep])
  have a: "a \<in> set (F s)" "px (bk_heap b) a = p" using core_dom_side [OF core r] r by (simp_all add: s_p_m_def px_def)
  let ?Q = "removeAll a (at_price (bk_heap b) p (F s))"
  obtain l' h' where un: "unlink_order a (om_get p m) (bk_heap b) = Some (l', h')"
    and rl: "relinked (bk_heap b) ?Q (om_get p m) l' h'" and ha: "h' a = Some r"
    by (rule core_unlink [OF core r, folded s_p_m_def]) (rule that)
  define m' where "m' = (if pl_head l' = None then om_erase p m else om_put (before s) p l' m)"
  define b' where "b' = delete_order ops a (mb_set_levels s m' (b\<lparr>bk_heap := h',
    bk_orders := index_erase (mo_clientId r) (mo_clientOrderId r) (bk_orders b)\<rparr>))"
  have rem: "map_remove ops a b = Some b'"
    using r un ha unfolding b'_def m'_def m s_p_m_def(1,2) by (simp add: map_remove_def Let_def)
  have lvls: "mb_levels s' b' = (if s' = s then m' else mb_levels s' b)" for s'
    by (simp add: b'_def delete_order_def)
  have b': "bk_heap b' = h'(a := None)" "bk_pool b' = pool_deallocate ops a (bk_pool b)"
    "bk_orders b' = index_erase (mo_clientId r) (mo_clientOrderId r) (bk_orders b)"
    "bk_nextMarketOrderId b' = bk_nextMarketOrderId b"
    by (simp_all add: b'_def delete_order_def)
  have hd: "pl_head l' = first ?Q" "pl_tail l' = final ?Q" using rl by (simp_all add: relinked_def level_ok_def)
  have upd: "level_upd (\<lambda>s p. om_get p (mb_levels s b)) s p l' (\<lambda>s p. om_get p (mb_levels s b'))"
    unfolding level_upd_def lvls m'_def using srt hd by (auto simp: m default_level_def mk_level_def)
  have core': "core_ok pv (drop_addr a F) (\<lambda>s p. om_get p (mb_levels s b')) b'"
    and cap: "pv_cap pv (bk_pool b') = pv_cap pv (bk_pool b)"
    using core_remove [OF spec core r _ _ b'(1-3)] rl upd unfolding m s_p_m_def(1,2) by blast+
  have d: "data (bk_heap b') = (data (bk_heap b))(a := None)" using rl by (simp add: b' relinked_def)
  have "pl_head l' = None \<longleftrightarrow> p \<notin> px (bk_heap b) ` (set (F s) - {a})"
    using at_price_Nil_iff [of "bk_heap b" p "removeAll a (F s)"] by (simp add: hd at_price_removeAll)
  then have keys: "map_of m' q \<noteq> None \<longleftrightarrow> q \<in> px (bk_heap b) ` (set (F s) - {a})" for q
    using map_repr_keys [OF rep, of s q] srt a unfolding m'_def by (cases "q = p") (auto simp: side_order.map_of_om_put m)
  have "om_sorted (before s) m'" using srt by (simp add: m'_def side_order.om_sorted_erase side_order.om_sorted_put)
  from map_repr_removed [OF rep a(1) core' d lvls this keys] rem d cap b'(4) show ?thesis by blast
qed

lemma map_repr_inserted:
  assumes rep: "map_repr ops pv F b" and a: "a \<notin> dom (bk_heap b)"
    and core': "core_ok pv (F(s := prio_insert s (bk_heap b') a (F s))) (\<lambda>s p. om_get p (mb_levels s b')) b'"
    and d: "data (bk_heap b') = (data (bk_heap b))(a \<mapsto> r)"
    and lvls: "\<And>s'. mb_levels s' b' = (if s' = s then om_put (before s) (mo_price r) l' (mb_levels s b) else mb_levels s' b)"
  shows "map_repr ops pv (F(s := prio_insert s (bk_heap b') a (F s))) b'"
proof (rule map_reprI [OF map_repr_pool [OF rep] core'])
  have pxa: "px (bk_heap b') a = mo_price r" using mo_price_the_data [of "bk_heap b'" a] by (simp add: d)
  have "px (bk_heap b') x = px (bk_heap b) x" if "x \<noteq> a" for x by (rule px_frame) (simp add: d that)
  moreover have "a \<notin> set (F s')" for s' using a core_dom [OF map_repr_core [OF rep]] by (cases s') auto
  ultimately have img: "px (bk_heap b') ` set (F s') = px (bk_heap b) ` set (F s')" for s' by (metis image_cong)
  show "om_sorted (before s') (mb_levels s' b')" for s'
    using map_repr_sorted [OF rep] by (simp add: lvls side_order.om_sorted_put)
  show "map_of (mb_levels s' b') q \<noteq> None \<longleftrightarrow> q \<in> px (bk_heap b') ` set ((F(s := prio_insert s (bk_heap b') a (F s))) s')" for s' q
    using map_repr_keys [OF rep, of s' q] map_repr_sorted [OF rep, of s] pxa by (auto simp: lvls img side_order.map_of_om_put)
qed

lemma map_insert_ok:
  assumes rep: "map_repr ops pv F b" and cap: "card (dom (bk_heap b)) < pv_cap pv (bk_pool b)"
    and new: "(oa_clientId t, oa_clientOrderId t) \<notin> order_keys (bk_heap b)"
  shows "\<exists>b' a. map_insert ops t q b = Some b' \<and> a \<notin> dom (bk_heap b) \<and>
        data (bk_heap b') = (data (bk_heap b))(a \<mapsto> order_of t q) \<and>
        map_repr ops pv (F(oa_side t := prio_insert (oa_side t) (bk_heap b') a (F (oa_side t)))) b' \<and>
        bk_nextMarketOrderId b' = bk_nextMarketOrderId b \<and>
        pv_cap pv (bk_pool b') = pv_cap pv (bk_pool b)"
proof -
  define r s p m where r_s_p_m_def: "r = order_of t q" "s = oa_side t" "p = oa_price t" "m = mb_levels (oa_side t) b"
  note core = map_repr_core [OF rep] and spec = map_repr_pool [OF rep]
  have rs: "mo_side r = s" "mo_price r = p" "mo_next r = None" "mo_prev r = None" "unlinked r = r"
    "mo_clientId r = oa_clientId t" "mo_clientOrderId r = oa_clientOrderId t" and m: "m = mb_levels s b"
    by (simp_all add: r_s_p_m_def rec_defs unlinked_def)
  have srt: "om_sorted (before s) m" unfolding m by (rule map_repr_sorted [OF rep])
  obtain a p' where al: "pool_allocate ops (bk_pool b) = Some (a, p')" and a: "bk_heap b a = None"
    using spec core cap by (rule pool_has_room)
  obtain l' h' where li: "link_order a (om_get p m) ((bk_heap b)(a \<mapsto> r)) = Some (l', h')"
    and rl: "relinked ((bk_heap b)(a \<mapsto> r)) (at_price (bk_heap b) p (F s) @ [a]) (om_get p m) l' h'"
    by (rule core_link [OF core a rs(3,4), unfolded rs(1,2), folded m]) (rule that)
  define b' where "b' = mb_set_levels s (om_put (before s) p l' m) (b\<lparr>bk_pool := p', bk_heap := h',
    bk_orders := index_put (oa_clientId t) (oa_clientOrderId t) a (bk_orders b)\<rparr>)"
  have ins: "map_insert ops t q b = Some b'"
    using al li by (simp add: map_insert_def new_order_def Let_def b'_def r_s_p_m_def)
  have b': "bk_heap b' = h'" "bk_pool b' = p'" "bk_orders b' = index_put (mo_clientId r) (mo_clientOrderId r) a (bk_orders b)"
    "bk_nextMarketOrderId b' = bk_nextMarketOrderId b"
    by (simp_all add: b'_def rs)
  have lvls: "mb_levels s' b' = (if s' = s then om_put (before s) (mo_price r) l' (mb_levels s b) else mb_levels s' b)" for s'
    by (simp add: b'_def rs(2) m)
  have upd: "level_upd (\<lambda>s p. om_get p (mb_levels s b)) s p l' (\<lambda>s p. om_get p (mb_levels s b'))"
    unfolding level_upd_def lvls rs(2) using srt by (auto simp: m)
  have new': "index_find (mo_clientId r) (mo_clientOrderId r) (bk_orders b) = None"
    using new index_find_None_iff [OF core] by (simp add: rs)
  have core': "core_ok pv (F(s := prio_insert s (bk_heap b') a (F s))) (\<lambda>s p. om_get p (mb_levels s b')) b'"
    and c: "pv_cap pv (bk_pool b') = pv_cap pv (bk_pool b)"
    using core_insert [OF spec core al new' rs(5), of "om_get p m" l' h' _ b'] rl upd b'(1-3) by (simp_all add: rs)
  have d: "data (bk_heap b') = (data (bk_heap b))(a \<mapsto> r)" using rl by (simp add: relinked_def rs b')
  have "a \<notin> dom (bk_heap b)" using a by (simp add: domIff)
  from map_repr_inserted [OF rep this core' d lvls] ins this d b'(4) c show ?thesis unfolding r_s_p_m_def(1,2) by blast
qed

lemma map_repr_room:
  assumes "map_repr ops pv F b"
  shows "card (dom (bk_heap b)) \<le> pv_cap pv (bk_pool b)"
  using map_repr_pool [OF assms] core_pool [OF map_repr_core [OF assms]]
  unfolding pool_spec_def by metis

lemma map_repr_counter:
  assumes "map_repr ops pv F b"
  shows "map_repr ops pv F (b\<lparr>bk_nextMarketOrderId := n\<rparr>)"
proof -
  have "core_ok pv F lv (b\<lparr>bk_nextMarketOrderId := n\<rparr>) = core_ok pv F lv b" for lv
    by (simp add: core_ok_def)
  then show ?thesis using assms by (simp add: map_repr_def)
qed

lemma map_fill_eq:
  assumes "bk_heap b a = Some r"
  shows "map_fill ops t (mo_price r) a q b io =
        (let fl = min q (mo_remainingQuantity r);
             r' = r\<lparr>mo_remainingQuantity := mo_remainingQuantity r - fl\<rparr>;
             b' = b\<lparr>bk_heap := (bk_heap b)(a \<mapsto> r')\<rparr>;
             io' = a_report MapBook t r' fl (q - fl) io
         in if mo_remainingQuantity r' = 0
            then map_option (\<lambda>b'. (q - fl, b', io')) (map_remove ops a b')
            else Some (q - fl, b', io'))"
  using assms
  by (simp add: map_fill_def a_report_def nextMatchId_def Let_def bind_Some_conv_map)

interpretation mb: book_store MapBook pv "map_repr ops pv" map_best "\<lambda>s p b. p" "map_head LastValue" "map_remove ops"
  "map_fill ops" "map_insert ops" "\<lambda>_. True" for ops :: "'p pool_ops" and pv :: "'p pool_view"
  by unfold_locales
    (rule exI, erule map_repr_core, erule map_repr_best, rule refl, erule map_repr_head, erule (1) map_repr_write,
     erule (1) map_remove_ok, erule map_fill_eq, erule map_repr_room, erule map_repr_counter, erule (2) map_insert_ok)

section \<open>The map book implements the contract\<close>

definition map_represents :: "'p pool_ops \<Rightarrow> 'p pool_view \<Rightarrow> 'p map_book \<Rightarrow> abook \<Rightarrow> bool" where
  "map_represents ops pv b A \<longleftrightarrow> (\<exists>F. map_repr ops pv F b \<and> abs_book F b = A)"

definition map_book_ops :: "erased_read \<Rightarrow> 'p pool_ops \<Rightarrow> 'p map_book book_ops" where
  "map_book_ops er ops = \<lparr>ob_addOrder = map_addOrder er ops, ob_cancelOrder = map_cancelOrder ops,
     ob_replaceOrder = map_replaceOrder er ops\<rparr>"

lemma map_match_eq:
  "map_match er ops t b io = sweep (map_best (opposite (oa_side t)))
     (\<lambda>p b. before (opposite (oa_side t)) (oa_price t) p) (map_head er (opposite (oa_side t)))
     (map_fill ops t) (oa_initialQuantity t) b io"
  by (cases "oa_side t") (simp_all add: map_match_def Let_def)

lemma map_addOrder_refines:
  assumes rep: "map_represents ops pv b A" and ok: "add_ok (pv_cap pv (bk_pool b)) (\<lambda>_. True) args A"
  shows "\<exists>b'. map_addOrder LastValue ops args b io = Some (b', snd (a_addOrder MapBook args A io)) \<and>
    map_represents ops pv b' (fst (a_addOrder MapBook args A io)) \<and>
    pv_cap pv (bk_pool b') = pv_cap pv (bk_pool b)"
proof -
  obtain F where F: "map_repr ops pv F b" and A: "A = abs_book F b"
    using rep by (auto simp: map_represents_def)
  define b0 where "b0 = b\<lparr>bk_nextMarketOrderId := bk_nextMarketOrderId b + 1\<rparr>"
  have F0: "map_repr ops pv F b0" and A0: "abs_book F b0 = A\<lparr>ab_next := ab_next A + 1\<rparr>"
    using map_repr_counter [OF F] by (auto simp: A b0_def)
  define t where "t = args\<lparr>oa_marketOrderId := bk_nextMarketOrderId b\<rparr>"
  have t: "args\<lparr>oa_marketOrderId := ab_next A\<rparr> = t" by (simp add: t_def A)
  have pre: "oa_orderType t = GoodTillCancel \<Longrightarrow> card (dom (bk_heap b0)) < pv_cap pv (bk_pool b0) \<and>
      (oa_clientId t, oa_clientOrderId t) \<notin> order_keys (bk_heap b0) \<and> True"
    using ok mb.room_abs [OF F0] mb.fresh_abs [OF F0, of "oa_clientId t" "oa_clientOrderId t"]
    by (simp add: add_ok_def A t_def b0_def)
  let ?f = "\<lambda>q. sendMarketUpdate (mk_update (oa_tickerId t) (oa_marketOrderId t) U_ADD (oa_side t)
    (oa_price t) q OrderId_INVALID OrderId_INVALID)"
  let ?g = "\<lambda>q. sendClientResponse (own_report t CANCELED q)"
  let ?io = "sendClientResponse (own_report t ACCEPTED (oa_initialQuantity t)) io"
  have conc: "map_addOrder LastValue ops args b io = Option.bind (map_match LastValue ops t b0 ?io)
    (\<lambda>(q, b, io). if q = 0 then Some (b, io) else case oa_orderType t of
       GoodTillCancel \<Rightarrow> map_option (\<lambda>b. (b, ?f q io)) (map_insert ops t q b)
     | FillAndKill \<Rightarrow> Some (b, ?g q io))"
    unfolding map_addOrder_def Let_def own_report_def t_def b0_def
    by (rule Option.bind_cong) (auto simp: bind_Some_conv_map word_gt_0 split: OrderType.split)
  have abst: "a_addOrder MapBook args A io = a_finish MapBook t ?f ?g (abs_book F b0) ?io"
    unfolding a_addOrder_def Let_def t A0 ..
  show ?thesis
    using mb.take_then_rest [OF F0 pre, of ?io ?f ?g] unfolding conc abst map_match_eq
    by (auto simp: map_represents_def b0_def)
qed

lemma map_cancelOrder_refines:
  assumes rep: "map_represents ops pv b A"
  shows "\<exists>b'. map_cancelOrder ops tick c k qty tok b io = Some (b', snd (a_cancelOrder MapBook tick c k qty tok A io)) \<and>
    map_represents ops pv b' (fst (a_cancelOrder MapBook tick c k qty tok A io)) \<and>
    pv_cap pv (bk_pool b') = pv_cap pv (bk_pool b)"
proof -
  obtain F where F: "map_repr ops pv F b" and A: "A = abs_book F b"
    using rep by (auto simp: map_represents_def)
  show ?thesis
  proof (cases "index_find c k (bk_orders b)")
    case None
    then have "a_find c k A = None" using mb.find_abs [OF F] by (simp add: A)
    with None rep show ?thesis
      by (auto simp: map_cancelOrder_def a_cancelOrder_def index_find_def split: option.splits)
  next
    case (Some a)
    then obtain r where r: "bk_heap b a = Some r" "has_key c k r" "a_find c k A = Some (unlinked r)"
      using mb.found_abs [OF F] unfolding A by metis
    define q where "q = (if qty = 0 then mo_remainingQuantity r else qty)"
    obtain b' F' where "(if mo_remainingQuantity r = q then map_remove ops a (b\<lparr>bk_heap := (bk_heap b)(a \<mapsto>
        r\<lparr>mo_remainingQuantity := mo_remainingQuantity r - q\<rparr>)\<rparr>) else Some (b\<lparr>bk_heap := (bk_heap b)(a \<mapsto>
        r\<lparr>mo_remainingQuantity := mo_remainingQuantity r - q\<rparr>)\<rparr>)) = Some b'" "map_repr ops pv F' b'"
      "abs_book F' b' = (if mo_remainingQuantity r = q then a_drop c k A else a_shrink c k q A)"
      "pv_cap pv (bk_pool b') = pv_cap pv (bk_pool b)"
      using mb.cancel_abs [OF F r(1,2) refl] unfolding A by metis
    note body = this
    have mb: "map_of (bk_orders b) c \<noteq> None" "map_of (the (map_of (bk_orders b) c)) k = Some a"
      using Some by (auto simp: index_find_def split: option.splits)
    show ?thesis
    proof (cases "mo_remainingQuantity r < q")
      case True
      with mb r rep show ?thesis
        by (auto simp: map_cancelOrder_def a_cancelOrder_def Let_def q_def split: if_splits)
    next
      case False
      with mb r body show ?thesis
        by (auto simp: map_cancelOrder_def a_cancelOrder_def Let_def map_represents_def bind_Some_conv_map
          q_def split: if_splits)
    qed
  qed
qed

lemma map_replaceOrder_refines:
  assumes rep: "map_represents ops pv b A" and ok: "replace_ok (\<lambda>_. True) c k k' ty p A"
  shows "\<exists>b'. map_replaceOrder LastValue ops tick c k k' ty p qty tok b io =
      Some (b', snd (a_replaceOrder MapBook tick c k k' ty p qty tok A io)) \<and>
    map_represents ops pv b' (fst (a_replaceOrder MapBook tick c k k' ty p qty tok A io)) \<and>
    pv_cap pv (bk_pool b') = pv_cap pv (bk_pool b)"
proof -
  obtain F where F: "map_repr ops pv F b" and A: "A = abs_book F b"
    using rep by (auto simp: map_represents_def)
  show ?thesis
  proof (cases "index_find c k (bk_orders b) = None \<or> k' = 0 \<or> qty = 0")
    case True
    then have "a_find c k A = None \<or> k' = 0 \<or> qty = 0" using mb.find_abs [OF F] by (auto simp: A)
    with True rep show ?thesis
      by (auto simp: map_replaceOrder_def a_replaceOrder_def index_find_def split: option.splits)
  next
    case False
    then obtain a where a: "index_find c k (bk_orders b) = Some a" and nz: "k' \<noteq> 0" "qty \<noteq> 0" by auto
    obtain r b1 F1 where r: "bk_heap b a = Some r" "a_find c k A = Some (unlinked r)"
      and rm: "map_remove ops a (b\<lparr>bk_nextMarketOrderId := bk_nextMarketOrderId b + 1\<rparr>) = Some b1" and F1: "map_repr ops pv F1 b1"
      and A1: "abs_book F1 b1 = a_drop c k (A\<lparr>ab_next := bk_nextMarketOrderId b + 1\<rparr>)"
      and c1: "pv_cap pv (bk_pool b1) = pv_cap pv (bk_pool b)"
      and room: "ty = GoodTillCancel \<longrightarrow> card (dom (bk_heap b1)) < pv_cap pv (bk_pool b1) \<and> (c, k') \<notin> order_keys (bk_heap b1) \<and> True"
      by (rule mb.replace_start [OF F a ok [unfolded A], folded A])
    define t where "t = \<lparr>oa_tickerId = tick, oa_clientId = c, oa_clientOrderId = k',
      oa_marketOrderId = bk_nextMarketOrderId b, oa_orderType = ty, oa_price = p,
      oa_initialQuantity = qty, oa_side = mo_side r, oa_orderToken = tok\<rparr>"
    have pre: "oa_orderType t = GoodTillCancel \<Longrightarrow> card (dom (bk_heap b1)) < pv_cap pv (bk_pool b1) \<and>
        (oa_clientId t, oa_clientOrderId t) \<notin> order_keys (bk_heap b1) \<and> True"
      using room by (simp add: t_def)
    let ?g = "\<lambda>q io. sendMarketUpdate (mk_update tick (oa_marketOrderId t) U_CANCEL (mo_side r) p q
      OrderId_INVALID OrderId_INVALID) (sendClientResponse (own_report t CANCELED q) io)"
    let ?io = "sendMarketUpdate (mk_update tick (mo_marketOrderId r) U_MODIFY (mo_side r) p qty
      (oa_marketOrderId t) OrderId_INVALID) (sendClientResponse (own_report t MODIFIED qty) io)"
    have conc: "map_replaceOrder LastValue ops tick c k k' ty p qty tok b io =
      Option.bind (map_match LastValue ops t b1 ?io)
        (\<lambda>(q, b, io). if q = 0 then Some (b, io) else case oa_orderType t of
           GoodTillCancel \<Rightarrow> map_option (\<lambda>b. (b, io)) (map_insert ops t q b)
         | FillAndKill \<Rightarrow> Some (b, ?g q io))"
      using a nz r(1) rm
      by (auto simp: map_replaceOrder_def index_find_def Let_def own_report_def t_def bind_Some_conv_map
        split: option.splits OrderType.split intro!: Option.bind_cong)
    have abst: "a_replaceOrder MapBook tick c k k' ty p qty tok A io =
      a_finish MapBook t (\<lambda>q io. io) ?g (abs_book F1 b1) ?io"
      using nz r(2) by (simp add: a_replaceOrder_def Let_def A1 t_def) (simp add: A)
    show ?thesis
      using mb.take_then_rest [OF F1 pre, of ?io "\<lambda>q io. io" ?g] c1 unfolding conc abst map_match_eq
      by (auto simp: map_represents_def)
  qed
qed

interpretation map_ob: order_book MapBook "map_represents ops pv" "map_book_ops LastValue ops"
  "\<lambda>b. pv_cap pv (bk_pool b)" "\<lambda>_. True" for ops :: "'p pool_ops" and pv :: "'p pool_view"
  by unfold_locales
    (simp_all add: map_book_ops_def map_addOrder_refines map_cancelOrder_refines map_replaceOrder_refines)

text \<open>A book constructed over an empty pool represents the empty abstract book.\<close>

lemma map_represents_init:
  assumes "pool_spec ops pv" and "pv_inv pv pool" and "pv_live pv pool = {}"
  shows "map_represents ops pv (map_book_init sz tick pool) a_empty"
proof -
  have lv: "mb_levels s (map_book_init sz tick pool) = []" for s
    by (cases s) (simp_all add: map_book_init_def)
  have "map_repr ops pv (\<lambda>_. []) (map_book_init sz tick pool)"
    using assms unfolding map_repr_def lv
    by (simp add: core_ok_def map_book_init_def index_ok_def index_find_def level_ok_def at_price_def prio_def
        om_get_def default_level_def mk_level_def om_sorted_def data_def)
  moreover have "abs_book (\<lambda>_. []) (map_book_init sz tick pool) = a_empty"
    by (simp add: abs_book_def abs_list_def map_book_init_def a_empty_def)
  ultimately show ?thesis unfolding map_represents_def by blast
qed

section \<open>The read of an erased level\<close>

text \<open>While the level is in the map the two readings of \<^verbatim>\<open>priceLevel.head\<close> agree; afterwards \<open>Trap\<close> has none.\<close>

lemma map_head_Trap:
  assumes "map_repr ops pv F b"
  shows "map_head Trap s p b = (if p \<in> px (bk_heap b) ` set (F s) then map_head LastValue s p b else None)"
  using map_repr_keys [OF assms, of s p] by (auto simp: map_head_def split: option.split)

lemma map_match_traps:
  assumes rep: "map_represents ops pv b A" and A: "a_side (opposite (oa_side t)) A = r # rs"
    and cross: "\<not> before (opposite (oa_side t)) (oa_price t) (mo_price r)"
    and full: "mo_remainingQuantity r \<le> oa_initialQuantity t" "oa_initialQuantity t \<noteq> 0"
    and alone: "\<forall>x\<in>set rs. mo_price x \<noteq> mo_price r"
  shows "map_match Trap ops t b io = None"
proof -
  let ?o = "opposite (oa_side t)"
  obtain F where F: "map_repr ops pv F b" and AF: "abs_book F b = A"
    using rep by (auto simp: map_represents_def)
  note core = map_repr_core [OF F]
  have abs: "abs_list (bk_heap b) (F ?o) = r # rs" using A AF mb.a_side_abs_book [of ?o F b] by simp
  then obtain a xs where a: "F ?o = a # xs" "r = the (data (bk_heap b) a)" "rs = abs_list (bk_heap b) xs"
    by (auto simp: abs_list_def)
  obtain r0 where r0: "bk_heap b a = Some r0" using core a(1) core_sideD [of pv F _ b a ?o] by auto
  have r: "r = unlinked r0" using a(2) r0 by (simp add: data_def)
  define p where "p = mo_price r0"
  have px: "px (bk_heap b) a = p" using r0 by (simp add: px_def p_def)
  have others: "px (bk_heap b) x \<noteq> p" if "x \<in> set xs" for x
    using alone that by (auto simp: a(3) abs_list_def r p_def mo_price_the_data)
  define q where "q = oa_initialQuantity t"
  define b1 where "b1 = b\<lparr>bk_heap := (bk_heap b)(a \<mapsto> r0\<lparr>mo_remainingQuantity := 0\<rparr>)\<rparr>"
  have F1: "map_repr ops pv F b1" using map_repr_write [OF F r0, of 0] by (simp add: b1_def)
  obtain b2 where b2: "map_remove ops a b1 = Some b2" "map_repr ops pv (drop_addr a F) b2"
    "data (bk_heap b2) = (data (bk_heap b1))(a := None)"
    using map_remove_ok [OF F1, of a] by (auto simp: b1_def)
  have "min q (mo_remainingQuantity r0) = mo_remainingQuantity r0" using full r by (simp add: q_def)
  then obtain q' io' where fill: "map_fill ops t p a q b io = Some (q', b2, io')"
    using map_fill_eq [of b a r0 ops t q io] r0 b2(1) by (simp add: p_def b1_def Let_def)
  have "px (bk_heap b2) x = px (bk_heap b) x" if "x \<noteq> a" for x
    by (rule px_frame) (use that b2(3) r0 in \<open>simp add: b1_def\<close>)
  moreover have "a \<notin> set xs" using core_dist_side [OF core, of ?o] a(1) by simp
  ultimately have "px (bk_heap b2) x \<noteq> p" if "x \<in> set xs" for x
    using others [OF that] that by metis
  then have "p \<notin> px (bk_heap b2) ` set (drop_addr a F ?o)"
    using a(1) \<open>a \<notin> set xs\<close> by auto
  then have "map_head Trap ?o p b2 = None" by (simp add: map_head_Trap [OF b2(2)])
  then have "level_loop (map_head Trap ?o p) (map_fill ops t p) q' b2 io' = None"
    by (subst level_loop.simps) simp
  moreover have "map_head Trap ?o p b = Some (Some a)"
    using px a(1) by (auto simp: map_head_Trap [OF F] map_repr_head [OF F] at_price_Cons)
  ultimately have "level_loop (map_head Trap ?o p) (map_fill ops t p) q b io = None"
    using fill full by (subst level_loop.simps) (simp add: q_def)
  moreover have "map_best ?o b = Some p" using map_repr_best [OF F, of ?o] a(1) px by simp
  ultimately show ?thesis
    unfolding map_match_eq q_def [symmetric]
    by (subst sweep.simps) (use cross full r in \<open>simp add: p_def q_def\<close>)
qed

end
