(* ===== verification/LevelList.thy ===== *)
theory LevelList
  imports Links
begin

text \<open>
  The active price levels of the vector book (\<^verbatim>\<open>src/src/engine/order_book/order_book_vector.cpp\<close>,
  \<^verbatim>\<open>insertPricelevel\<close> and \<^verbatim>\<open>removePriceLevel\<close>). A side is an array of levels indexed by price;
  the levels that hold orders are threaded on a doubly linked list, best price first, whose
  head the book keeps in \<^verbatim>\<open>best_bid_\<close> or \<^verbatim>\<open>best_ask_\<close>. A \<^verbatim>\<open>PriceLevel*\<close> is the price at which
  the level stands in its side's array.
\<close>

type_synonym level_array = "Price \<Rightarrow> PriceLevel"

definition level_set_next :: "Price \<Rightarrow> Price option \<Rightarrow> level_array \<Rightarrow> level_array" where
  "level_set_next p n L = L(p := (L p)\<lparr>pl_next := n\<rparr>)"

definition level_set_prev :: "Price \<Rightarrow> Price option \<Rightarrow> level_array \<Rightarrow> level_array" where
  "level_set_prev p n L = L(p := (L p)\<lparr>pl_prev := n\<rparr>)"

text \<open>The search loop \<^verbatim>\<open>while (curr->next_ && \<dots>) curr = curr->next_\<close>.\<close>

partial_function (option) level_walk :: "Side \<Rightarrow> Price \<Rightarrow> level_array \<Rightarrow> Price \<Rightarrow> Price option" where
  "level_walk side price L cur =
    (case pl_next (L cur) of
       None \<Rightarrow> Some cur
     | Some n \<Rightarrow> if before side (pl_price (L n)) price then level_walk side price L n else Some cur)"

definition insertPricelevel :: "Side \<Rightarrow> Price \<Rightarrow> level_array \<times> Price option \<Rightarrow>
    (level_array \<times> Price option) option" where
  "insertPricelevel side priceLevel S =
    (case S of (L, best) \<Rightarrow>
      (case best of
        None \<Rightarrow> Some (L, Some priceLevel)
      | Some b \<Rightarrow>
          if before side (pl_price (L priceLevel)) (pl_price (L b)) then
            Some (level_set_prev b (Some priceLevel) (level_set_next priceLevel best L), Some priceLevel)
          else do {
            cur \<leftarrow> level_walk side (pl_price (L priceLevel)) L b;
            let L = level_set_next priceLevel (pl_next (L cur)) L;
            let L = (case pl_next (L cur) of
                       None \<Rightarrow> L | Some n \<Rightarrow> level_set_prev n (Some priceLevel) L);
            let L = level_set_next cur (Some priceLevel) L;
            let L = level_set_prev priceLevel (Some cur) L;
            Some (L, best)
          }))"

definition removePriceLevel :: "Price \<Rightarrow> level_array \<times> Price option \<Rightarrow> level_array \<times> Price option" where
  "removePriceLevel priceLevel S =
    (case S of (L, best) \<Rightarrow>
      let L = (case pl_next (L priceLevel) of
                 None \<Rightarrow> L | Some n \<Rightarrow> level_set_prev n (pl_prev (L priceLevel)) L);
          L = (case pl_prev (L priceLevel) of
                 None \<Rightarrow> L | Some p \<Rightarrow> level_set_next p (pl_next (L priceLevel)) L);
          best = (if best = Some priceLevel then pl_next (L priceLevel) else best)
      in (L(priceLevel := (L priceLevel)\<lparr>pl_next := None, pl_prev := None, pl_head := None, pl_tail := None\<rparr>),
          best))"

section \<open>The list of active levels\<close>

definition level_links :: "level_array \<Rightarrow> Price links" where
  "level_links L p = Some (pl_prev (L p), pl_next (L p))"

definition active_ok :: "Side \<Rightarrow> Price set \<Rightarrow> level_array \<Rightarrow> Price option \<Rightarrow> bool" where
  "active_ok side P L best \<longleftrightarrow>
     (\<exists>G. sorted_wrt (before side) G \<and> set G = P \<and> dlseg (level_links L) None G None \<and> best = first G) \<and>
     (\<forall>p. p \<notin> P \<longrightarrow> pl_next (L p) = None \<and> pl_prev (L p) = None) \<and>
     (\<forall>p. pl_price (L p) = p)"

text \<open>Array updates that leave the orders of every level alone.\<close>

definition same_orders :: "level_array \<Rightarrow> level_array \<Rightarrow> bool" where
  "same_orders L L' \<longleftrightarrow> (\<forall>p. pl_head (L' p) = pl_head (L p) \<and> pl_tail (L' p) = pl_tail (L p))"

lemma level_links_set [simp]:
  "level_links (level_set_next p n L) = lk_next n p (level_links L)"
  "level_links (level_set_prev p n L) = lk_prev n p (level_links L)"
  by (auto simp: level_links_def level_set_next_def level_set_prev_def lk_next_def lk_prev_def fun_eq_iff)

lemma level_set_sel [simp]:
  "pl_price (level_set_next p n L q) = pl_price (L q)" "pl_price (level_set_prev p n L q) = pl_price (L q)"
  "pl_next (level_set_prev p n L q) = pl_next (L q)" "pl_prev (level_set_next p n L q) = pl_prev (L q)"
  "pl_next (level_set_next p n L q) = (if q = p then n else pl_next (L q))"
  "pl_prev (level_set_prev p n L q) = (if q = p then n else pl_prev (L q))"
  "pl_head (level_set_next p n L q) = pl_head (L q)" "pl_head (level_set_prev p n L q) = pl_head (L q)"
  "pl_tail (level_set_next p n L q) = pl_tail (L q)" "pl_tail (level_set_prev p n L q) = pl_tail (L q)"
  by (simp_all add: level_set_next_def level_set_prev_def)

lemma dlseg_level_links:
  assumes "dlseg (level_links L) None (xs @ a # ys) None"
  shows "pl_prev (L a) = final xs" and "pl_next (L a) = first ys"
  using dlseg_lookup [OF assms] by (simp_all add: level_links_def)

lemma before_sorted_distinct: "sorted_wrt (before s) G \<Longrightarrow> distinct G"
  by (induction G) auto

text \<open>The search stops at the last level that is better than the new price, and does stop.\<close>

lemma level_walk_ok:
  assumes "dlseg (level_links L) None (xs @ c # ys) None" and "\<And>p. pl_price (L p) = p"
    and "sorted_wrt (before s) (xs @ c # ys)" and "before s c p"
  shows "\<exists>us c' vs. level_walk s p L c = Some c' \<and> xs @ c # ys = us @ c' # vs \<and> before s c' p \<and>
    (\<forall>v\<in>set vs. \<not> before s v p)"
  using assms(1,3,4)
proof (induction ys arbitrary: xs c)
  case Nil
  have "pl_next (L c) = None" using dlseg_level_links(2) [OF Nil(1)] by simp
  then have "level_walk s p L c = Some c" by (subst level_walk.simps) simp
  with Nil(3) show ?case by (intro exI [of _ xs] exI [of _ c] exI [of _ "[]"]) simp
next
  case (Cons y ys)
  have nx: "pl_next (L c) = Some y" using dlseg_level_links(2) [OF Cons(2)] by simp
  show ?case
  proof (cases "before s y p")
    case True
    then have "level_walk s p L c = level_walk s p L y"
      using nx assms(2) by (subst level_walk.simps) simp
    with Cons.IH [of "xs @ [c]" y] Cons.prems True show ?thesis by simp
  next
    case False
    then have "level_walk s p L c = Some c"
      using nx assms(2) by (subst level_walk.simps) simp
    moreover have "\<forall>v\<in>set (y # ys). \<not> before s v p"
      using False Cons.prems(2) by (auto simp: sorted_wrt_append dest: before_trans)
    ultimately show ?thesis
      using Cons.prems(3) by (intro exI [of _ xs] exI [of _ c] exI [of _ "y # ys"]) simp
  qed
qed

lemma active_okI:
  assumes "sorted_wrt (before s) G" and "set G = P" and "dlseg (level_links L) None G None" and "best = first G"
    and "\<And>p. p \<notin> P \<Longrightarrow> pl_next (L p) = None \<and> pl_prev (L p) = None" and "\<And>p. pl_price (L p) = p"
  shows "active_ok s P L best"
  using assms unfolding active_ok_def by blast

lemma dlseg_insert_after:
  assumes "dlseg lk None (us @ c # vs) None" and "distinct (us @ c # vs)" and "p \<notin> set (us @ c # vs)" and "lk p \<noteq> None"
  shows "dlseg (lk_prev (Some c) p (lk_next (Some p) c (lk_prev_opt (Some p) (first vs) (lk_next (first vs) p lk))))
    None (us @ c # p # vs) None"
  using assms by (cases vs) (auto simp: dlseg_append lk_defs)

lemma insert_in_front:
  assumes G: "sorted_wrt (before s) (b # bs)" "dlseg (level_links L) None (b # bs) None" and p: "p \<notin> set (b # bs)" "before s p b"
    and out: "\<And>q. q \<notin> set (b # bs) \<Longrightarrow> pl_next (L q) = None \<and> pl_prev (L q) = None" and pr: "\<And>q. pl_price (L q) = q"
  shows "active_ok s (insert p (set (b # bs))) (level_set_prev b (Some p) (level_set_next p (Some b) L)) (Some p)"
proof -
  have "dlseg (level_links (level_set_prev b (Some p) (level_set_next p (Some b) L))) None (p # b # bs) None"
    using G(2) before_sorted_distinct [OF G(1)] out [OF p(1)] p by (auto simp: lk_defs level_links_def)
  then show ?thesis
    using G(1) p out pr by (intro active_okI [of s "p # b # bs"]) (auto dest: before_trans)
qed

lemma insert_behind:
  fixes c p vs L
  defines "L1 \<equiv> level_set_next p (first vs) L"
  defines "L2 \<equiv> case first vs of None \<Rightarrow> L1 | Some n \<Rightarrow> level_set_prev n (Some p) L1"
  assumes G: "sorted_wrt (before s) (us @ c # vs)" "dlseg (level_links L) None (us @ c # vs) None"
    and p: "p \<notin> set (us @ c # vs)" "before s c p" "\<forall>v\<in>set vs. \<not> before s v p"
    and out: "\<And>q. q \<notin> set (us @ c # vs) \<Longrightarrow> pl_next (L q) = None \<and> pl_prev (L q) = None" and pr: "\<And>q. pl_price (L q) = q"
  shows "active_ok s (insert p (set (us @ c # vs))) (level_set_prev p (Some c) (level_set_next c (Some p) L2)) (first (us @ c # vs))"
proof (rule active_okI [of s "us @ c # p # vs"])
  have lk2: "level_links L2 = lk_prev_opt (Some p) (first vs) (level_links L1)"
    by (simp add: L2_def lk_prev_opt_def split: option.split)
  show "dlseg (level_links (level_set_prev p (Some c) (level_set_next c (Some p) L2))) None (us @ c # p # vs) None"
    using dlseg_insert_after [of "level_links L" us c vs p] G(2) before_sorted_distinct [OF G(1)] p(1)
    by (simp add: lk2) (simp add: L1_def level_links_def)
  have "before s p v" if "v \<in> set vs" for v using that p before_linear [of s p v] by auto
  then show "sorted_wrt (before s) (us @ c # p # vs)" using G(1) p(2) by (auto simp: sorted_wrt_append intro: before_trans)
  show "pl_next (level_set_prev p (Some c) (level_set_next c (Some p) L2) q) = None \<and>
      pl_prev (level_set_prev p (Some c) (level_set_next c (Some p) L2) q) = None" if "q \<notin> insert p (set (us @ c # vs))" for q
    using that out [of q] unfolding L2_def L1_def by (auto split: option.split dest!: first_in_set)
qed (auto simp: L2_def L1_def pr first_append split: option.split)

lemma insertPricelevel_ok:
  assumes ok: "active_ok s P L best" and p: "p \<notin> P"
  shows "\<exists>L' best'. insertPricelevel s p (L, best) = Some (L', best') \<and> active_ok s (insert p P) L' best' \<and>
    same_orders L L'"
proof -
  from ok obtain G where G: "sorted_wrt (before s) G" "P = set G" "dlseg (level_links L) None G None" "best = first G"
    and out: "\<And>p. p \<notin> P \<Longrightarrow> pl_next (L p) = None \<and> pl_prev (L p) = None" and pr: "\<And>p. pl_price (L p) = p"
    unfolding active_ok_def by auto
  show ?thesis
  proof (cases G)
    case Nil
    then show ?thesis
      using G out pr p by (auto simp: insertPricelevel_def same_orders_def level_links_def intro!: active_okI [where G = "[p]"])
  next
    case (Cons b bs)
    show ?thesis
    proof (cases "before s p b")
      case True
      with insert_in_front [of s b bs L p] G out pr p Cons show ?thesis
        by (auto simp: insertPricelevel_def same_orders_def)
    next
      case False
      then have "before s b p" using before_linear [of s b p] p G(2) Cons by auto
      then obtain us c vs where w: "level_walk s p L b = Some c" "G = us @ c # vs" "before s c p" "\<forall>v\<in>set vs. \<not> before s v p"
        using level_walk_ok [of L "[]" b bs s p] G(1,3) pr Cons by auto
      have nx: "pl_next (L c) = first vs" using dlseg_level_links(2) G(3) unfolding w(2) by blast
      let ?L1 = "level_set_next p (first vs) L"
      let ?L = "level_set_prev p (Some c) (level_set_next c (Some p) (case first vs of None \<Rightarrow> ?L1 | Some n \<Rightarrow> level_set_prev n (Some p) ?L1))"
      have "c \<noteq> p" using p G(2) w(2) by auto
      then have "insertPricelevel s p (L, best) = Some (?L, best)"
        using False G(4) w(1) nx pr Cons by (simp add: insertPricelevel_def Let_def cong: option.case_cong)
      moreover have "active_ok s (insert p P) ?L best"
        using insert_behind [of s us c vs L p] G out pr p w(2-4) by simp
      ultimately show ?thesis by (auto simp: same_orders_def split: option.split)
    qed
  qed
qed

lemma removePriceLevel_ok:
  assumes ok: "active_ok s P L best" and p: "p \<in> P"
  shows "\<exists>L' best'. removePriceLevel p (L, best) = (L', best') \<and> active_ok s (P - {p}) L' best' \<and>
    same_orders (L(p := (L p)\<lparr>pl_head := None, pl_tail := None\<rparr>)) L'"
proof -
  from ok obtain G where G: "sorted_wrt (before s) G" "set G = P" "dlseg (level_links L) None G None" "best = first G"
    and out: "\<And>p. p \<notin> P \<Longrightarrow> pl_next (L p) = None \<and> pl_prev (L p) = None" and pr: "\<And>p. pl_price (L p) = p"
    unfolding active_ok_def by auto
  from p G(2) obtain xs ys where sp: "G = xs @ p # ys" by (meson split_list)
  have d: "distinct (xs @ p # ys)" using before_sorted_distinct [OF G(1)] sp by simp
  have pl: "pl_prev (L p) = final xs" "pl_next (L p) = first ys"
    using dlseg_level_links G(3) unfolding sp by blast+
  have nf: "first ys \<noteq> Some p" "final xs \<noteq> Some p" using d by (auto dest: first_in_set final_in_set)
  let ?L1 = "case first ys of None \<Rightarrow> L | Some n \<Rightarrow> level_set_prev n (final xs) L"
  let ?L2 = "case final xs of None \<Rightarrow> ?L1 | Some q \<Rightarrow> level_set_next q (first ys) ?L1"
  let ?L = "?L2(p := (?L2 p)\<lparr>pl_next := None, pl_prev := None, pl_head := None, pl_tail := None\<rparr>)"
  have L1: "pl_prev (?L1 p) = final xs" "pl_next (?L1 p) = first ys"
    using pl nf by (auto split: option.split)
  have L2: "pl_next (?L2 p) = first ys"
    using pl nf by (auto split: option.split)
  let ?best = "if best = Some p then first ys else best"
  have rm: "removePriceLevel p (L, best) = (?L, ?best)"
    unfolding removePriceLevel_def Let_def prod.case pl unfolding L1 unfolding L2 ..
  have "level_links ?L2 = lk_prev_opt (final xs) (first ys) (lk_next_opt (first ys) (final xs) (level_links L))"
    by (auto simp: lk_defs level_links_def level_set_next_def level_set_prev_def fun_eq_iff split: option.split)
  then have "dlseg (level_links ?L2) None (xs @ ys) None"
    using dlseg_unlink [of "level_links L" xs p ys] G(3) d unfolding sp by simp
  moreover have "level_links ?L = (level_links ?L2)(p := Some (None, None))"
    by (auto simp: level_links_def fun_eq_iff)
  ultimately have seg: "dlseg (level_links ?L) None (xs @ ys) None"
    using d by simp
  have "active_ok s (P - {p}) ?L ?best"
  proof (rule active_okI [OF _ _ seg])
    show "sorted_wrt (before s) (xs @ ys)" using G(1) sp by (simp add: sorted_wrt_append)
    show "set (xs @ ys) = P - {p}" using G(2) sp d by auto
    show "?best = first (xs @ ys)" using G(4) sp d by (cases xs) (auto simp: first_append)
    show "pl_next (?L q) = None \<and> pl_prev (?L q) = None" if "q \<notin> P - {p}" for q
      using that out [of q] G(2) sp by (auto split: option.split dest!: first_in_set final_in_set)
    show "pl_price (?L q) = q" for q by (auto simp: pr split: option.split)
  qed
  with rm show ?thesis by (auto simp: same_orders_def split: option.split)
qed

text \<open>The list does not depend on the orders its levels hold.\<close>

lemma active_ok_upd:
  assumes "active_ok s P L best" and "pl_next l = pl_next (L p)" "pl_prev l = pl_prev (L p)" "pl_price l = pl_price (L p)"
  shows "active_ok s P (L(p := l)) best"
proof -
  have "level_links (L(p := l)) = level_links L"
    using assms(2,3) by (auto simp: level_links_def fun_eq_iff)
  with assms show ?thesis unfolding active_ok_def by auto
qed

end
