(* ===== verification/VectorBook.thy ===== *)
theory VectorBook
  imports LevelList Matching OrderBook
begin

text \<open>
  The array-based order book, \<^verbatim>\<open>src/src/engine/order_book/order_book_vector.cpp\<close>: per side an
  array of \<^verbatim>\<open>MAX_PRICE_LEVELS\<close> levels indexed by price, the non-empty ones threaded on the list
  of theory LevelList. An index past the end of the array is undefined behaviour and has no
  result in the model. \<open>vb_engine\<close> says whether \<^verbatim>\<open>matchingEngine_\<close> is a valid pointer or null:
  the book drops its messages when it is null.
\<close>

definition MAX_PRICE_LEVELS :: nat where
  "MAX_PRICE_LEVELS = 256000"

record 'p vector_book = "'p book_core" +
  vb_engine :: bool
  vb_bids :: level_array
  vb_asks :: level_array
  vb_best_bid :: "Price option"
  vb_best_ask :: "Price option"

text \<open>The array of a side together with its best pointer.\<close>

fun vb_side :: "Side \<Rightarrow> 'p vector_book \<Rightarrow> level_array \<times> Price option" where
  "vb_side BUY b = (vb_bids b, vb_best_bid b)"
| "vb_side SELL b = (vb_asks b, vb_best_ask b)"

fun vb_set_side :: "Side \<Rightarrow> level_array \<times> Price option \<Rightarrow> 'p vector_book \<Rightarrow> 'p vector_book" where
  "vb_set_side BUY S b = b\<lparr>vb_bids := fst S, vb_best_bid := snd S\<rparr>"
| "vb_set_side SELL S b = b\<lparr>vb_asks := fst S, vb_best_ask := snd S\<rparr>"

section \<open>The operations of the source\<close>

definition vector_book_init :: "TickerId \<Rightarrow> bool \<Rightarrow> 'p \<Rightarrow> 'p vector_book" where
  "vector_book_init tickerId engine pool =
    \<lparr>bk_tickerId = tickerId, bk_pool = pool, bk_heap = Map.empty, bk_orders = [],
     bk_nextMarketOrderId = 1, vb_engine = engine, vb_bids = mk_level, vb_asks = mk_level,
     vb_best_bid = None, vb_best_ask = None\<rparr>"

definition vec_sendClientResponse :: "bool \<Rightarrow> MEClientResponse \<Rightarrow> engine_io \<Rightarrow> engine_io" where
  "vec_sendClientResponse me response io = (if me then sendClientResponse response io else io)"

definition vec_sendMarketUpdate :: "bool \<Rightarrow> MEMarketUpdate \<Rightarrow> engine_io \<Rightarrow> engine_io" where
  "vec_sendMarketUpdate me update io = (if me then sendMarketUpdate update io else io)"

lemma vec_send_engine [simp]:
  "vec_sendClientResponse True = sendClientResponse" "vec_sendMarketUpdate True = sendMarketUpdate"
  by (simp_all add: fun_eq_iff vec_sendClientResponse_def vec_sendMarketUpdate_def)

text \<open>\<^verbatim>\<open>&bids_[price]\<close> or \<^verbatim>\<open>&asks_[price]\<close>.\<close>

definition level_ref :: "Price \<Rightarrow> Price option" where
  "level_ref price = (if unat price < MAX_PRICE_LEVELS then Some price else None)"

definition vec_insert :: "'p pool_ops \<Rightarrow> order_args \<Rightarrow> Quantity \<Rightarrow> 'p vector_book \<Rightarrow> 'p vector_book option" where
  "vec_insert ops t initialQuantity b = do {
     (order, b) \<leftarrow> new_order ops (order_of t initialQuantity) b;
     priceLevel \<leftarrow> level_ref (oa_price t);
     let (L, best) = vb_side (oa_side t) b;
     (L, best) \<leftarrow> (if pl_head (L priceLevel) = None then insertPricelevel (oa_side t) priceLevel (L, best)
                   else Some (L, best));
     (l, h) \<leftarrow> link_order order (L priceLevel) (bk_heap b);
     Some (vb_set_side (oa_side t) (L(priceLevel := l), best)
       (b\<lparr>bk_heap := h,
          bk_orders := index_put (oa_clientId t) (oa_clientOrderId t) order (bk_orders b)\<rparr>))
   }"

definition vec_remove :: "'p pool_ops \<Rightarrow> addr \<Rightarrow> 'p vector_book \<Rightarrow> 'p vector_book option" where
  "vec_remove ops order b = do {
     r \<leftarrow> bk_heap b order;
     let price = mo_price r;
     priceLevel \<leftarrow> level_ref price;
     let (L, best) = vb_side (mo_side r) b;
     (l, h) \<leftarrow> unlink_order order (L priceLevel) (bk_heap b);
     r \<leftarrow> h order;
     let (L, best) = (if pl_head l = None then removePriceLevel priceLevel (L(priceLevel := l), best)
                      else (L(priceLevel := l), best));
     Some (delete_order ops order (vb_set_side (mo_side r) (L, best)
       (b\<lparr>bk_heap := h,
          bk_orders := index_erase (mo_clientId r) (mo_clientOrderId r) (bk_orders b)\<rparr>)))
   }"

text \<open>\<open>best_bid_\<close> or \<open>best_ask_\<close>; the fields \<^verbatim>\<open>price_\<close> and \<^verbatim>\<open>head\<close> of the level a pointer refers to.\<close>

definition vec_best :: "Side \<Rightarrow> 'p vector_book \<Rightarrow> Price option" where
  "vec_best s b = snd (vb_side s b)"

definition vec_level_price :: "Side \<Rightarrow> Price \<Rightarrow> 'p vector_book \<Rightarrow> Price" where
  "vec_level_price s level b = pl_price (fst (vb_side s b) level)"

definition vec_head :: "Side \<Rightarrow> Price \<Rightarrow> 'p vector_book \<Rightarrow> addr option option" where
  "vec_head s level b = Some (pl_head (fst (vb_side s b) level))"

text \<open>One turn of the inner loop of \<^verbatim>\<open>match\<close>, which is written out twice, once per side.\<close>

definition vec_fill :: "'p pool_ops \<Rightarrow> order_args \<Rightarrow> Price \<Rightarrow> addr \<Rightarrow> Quantity \<Rightarrow> 'p vector_book \<Rightarrow> engine_io \<Rightarrow>
    (Quantity \<times> 'p vector_book \<times> engine_io) option" where
  "vec_fill ops t level restingOrder remainingQuantity b io = do {
     r \<leftarrow> bk_heap b restingOrder;
     let me = vb_engine b;
     let level_price = vec_level_price (opposite (oa_side t)) level b;
     let fill = min remainingQuantity (mo_remainingQuantity r);
     let (matchId, io) = (if me then nextMatchId io else (OrderId_INVALID, io));
     let remainingQuantity = remainingQuantity - fill;
     let r = r\<lparr>mo_remainingQuantity := mo_remainingQuantity r - fill\<rparr>;
     let b = b\<lparr>bk_heap := (bk_heap b)(restingOrder \<mapsto> r)\<rparr>;
     let io = vec_sendClientResponse me (mk_response (mo_clientId r) (oa_tickerId t) (mo_clientOrderId r)
           (mo_marketOrderId r) (mo_side r) (mo_price r) (mo_initialQuantity r) (mo_orderType r)
           EXECUTED fill level_price (mo_remainingQuantity r) matchId (mo_order_token r)) io;
     let io = vec_sendClientResponse me (mk_response (oa_clientId t) (oa_tickerId t) (oa_clientOrderId t)
           (oa_marketOrderId t) (oa_side t) (oa_price t) (oa_initialQuantity t) (oa_orderType t)
           EXECUTED fill level_price remainingQuantity matchId (oa_orderToken t)) io;
     let io = vec_sendMarketUpdate me (mk_update (oa_tickerId t) (mo_marketOrderId r) U_TRADE (mo_side r)
           (mo_price r) fill OrderId_INVALID OrderId_INVALID) io;
     b \<leftarrow> (if mo_remainingQuantity r = 0 then vec_remove ops restingOrder b else Some b);
     Some (remainingQuantity, b, io)
   }"

definition vec_match :: "'p pool_ops \<Rightarrow> order_args \<Rightarrow> 'p vector_book \<Rightarrow> engine_io \<Rightarrow>
    (Quantity \<times> 'p vector_book \<times> engine_io) option" where
  "vec_match ops t b io =
    (if oa_side t = BUY
     then sweep (vec_best SELL) (\<lambda>level b. oa_price t < vec_level_price SELL level b) (vec_head SELL)
       (vec_fill ops t) (oa_initialQuantity t) b io
     else sweep (vec_best BUY) (\<lambda>level b. oa_price t > vec_level_price BUY level b) (vec_head BUY)
       (vec_fill ops t) (oa_initialQuantity t) b io)"

definition vec_addOrder :: "'p pool_ops \<Rightarrow> order_args \<Rightarrow> 'p vector_book \<Rightarrow> engine_io \<Rightarrow>
    ('p vector_book \<times> engine_io) option" where
  "vec_addOrder ops args b io = do {
     let me = vb_engine b;
     let marketOrderId = bk_nextMarketOrderId b;
     let b = b\<lparr>bk_nextMarketOrderId := bk_nextMarketOrderId b + 1\<rparr>;
     let t = args\<lparr>oa_marketOrderId := marketOrderId\<rparr>;
     let io = vec_sendClientResponse me (mk_response (oa_clientId t) (oa_tickerId t) (oa_clientOrderId t)
           marketOrderId (oa_side t) (oa_price t) (oa_initialQuantity t) (oa_orderType t)
           ACCEPTED 0 (oa_price t) (oa_initialQuantity t) OrderId_INVALID (oa_orderToken t)) io;
     (remainingQuantity, b, io) \<leftarrow> vec_match ops t b io;
     if remainingQuantity > 0 then
       (case oa_orderType t of
          GoodTillCancel \<Rightarrow> do {
            b \<leftarrow> vec_insert ops t remainingQuantity b;
            Some (b, vec_sendMarketUpdate me (mk_update (oa_tickerId t) marketOrderId U_ADD (oa_side t)
              (oa_price t) remainingQuantity OrderId_INVALID OrderId_INVALID) io)
          }
        | FillAndKill \<Rightarrow>
            Some (b, vec_sendClientResponse me (mk_response (oa_clientId t) (oa_tickerId t)
              (oa_clientOrderId t) marketOrderId (oa_side t) (oa_price t) (oa_initialQuantity t)
              (oa_orderType t) CANCELED 0 (oa_price t) remainingQuantity OrderId_INVALID
              (oa_orderToken t)) io))
     else Some (b, io)
   }"

definition vec_cancelOrder :: "'p pool_ops \<Rightarrow> TickerId \<Rightarrow> ClientId \<Rightarrow> OrderId \<Rightarrow> Quantity \<Rightarrow> OrderToken \<Rightarrow>
    'p vector_book \<Rightarrow> engine_io \<Rightarrow> ('p vector_book \<times> engine_io) option" where
  "vec_cancelOrder ops tickerId clientId clientOrderId qty orderToken b io =
    (let me = vb_engine b in
     case map_of (bk_orders b) clientId of
      None \<Rightarrow> Some (b, vec_sendClientResponse me (reject_response tickerId clientId clientOrderId orderToken) io)
    | Some clientOrders \<Rightarrow>
      (case map_of clientOrders clientOrderId of
        None \<Rightarrow> Some (b, vec_sendClientResponse me (reject_response tickerId clientId clientOrderId orderToken) io)
      | Some order \<Rightarrow> do {
          r \<leftarrow> bk_heap b order;
          let canceledQty = (if qty = 0 then mo_remainingQuantity r else qty);
          if canceledQty > mo_remainingQuantity r then
            Some (b, vec_sendClientResponse me (mk_response clientId tickerId clientOrderId
              (mo_marketOrderId r) (mo_side r) (mo_price r) (mo_initialQuantity r) (mo_orderType r)
              CANCEL_REJECTED 0 Price_INVALID (mo_remainingQuantity r) OrderId_INVALID
              (mo_order_token r)) io)
          else do {
            let r = r\<lparr>mo_remainingQuantity := mo_remainingQuantity r - canceledQty\<rparr>;
            let b = b\<lparr>bk_heap := (bk_heap b)(order \<mapsto> r)\<rparr>;
            let io = vec_sendMarketUpdate me (mk_update tickerId (mo_marketOrderId r) U_CANCEL (mo_side r)
              (mo_price r) canceledQty OrderId_INVALID OrderId_INVALID) io;
            let io = vec_sendClientResponse me (mk_response clientId tickerId clientOrderId
              (mo_marketOrderId r) (mo_side r) (mo_price r) (mo_initialQuantity r) (mo_orderType r)
              CANCELED 0 (mo_price r) (mo_remainingQuantity r) OrderId_INVALID (mo_order_token r)) io;
            b \<leftarrow> (if mo_remainingQuantity r = 0 then vec_remove ops order b else Some b);
            Some (b, io)
          }
        }))"

definition vec_replaceOrder :: "'p pool_ops \<Rightarrow> TickerId \<Rightarrow> ClientId \<Rightarrow> OrderId \<Rightarrow> OrderId \<Rightarrow>
    OrderType \<Rightarrow> Price \<Rightarrow> Quantity \<Rightarrow> OrderToken \<Rightarrow> 'p vector_book \<Rightarrow> engine_io \<Rightarrow>
    ('p vector_book \<times> engine_io) option" where
  "vec_replaceOrder ops tickerId clientId clientOrderId newClientOrderId orderType price qty orderToken b io =
    (let me = vb_engine b in
     case map_of (bk_orders b) clientId of
      None \<Rightarrow> Some (b, vec_sendClientResponse me (reject_response tickerId clientId clientOrderId orderToken) io)
    | Some clientOrders \<Rightarrow>
      (case (if newClientOrderId = 0 \<or> qty = 0 then None else map_of clientOrders clientOrderId) of
        None \<Rightarrow> Some (b, vec_sendClientResponse me (reject_response tickerId clientId clientOrderId orderToken) io)
      | Some oldOrder \<Rightarrow> do {
          r \<leftarrow> bk_heap b oldOrder;
          let side = mo_side r;
          let oldMarketOrderId = mo_marketOrderId r;
          let newMarketOrderId = bk_nextMarketOrderId b;
          let b = b\<lparr>bk_nextMarketOrderId := bk_nextMarketOrderId b + 1\<rparr>;
          b \<leftarrow> vec_remove ops oldOrder b;
          let io = vec_sendClientResponse me (mk_response clientId tickerId newClientOrderId newMarketOrderId
            side price qty orderType MODIFIED 0 price qty OrderId_INVALID orderToken) io;
          let io = vec_sendMarketUpdate me (mk_update tickerId oldMarketOrderId U_MODIFY side price qty
            newMarketOrderId OrderId_INVALID) io;
          let t = \<lparr>oa_tickerId = tickerId, oa_clientId = clientId, oa_clientOrderId = newClientOrderId,
            oa_marketOrderId = newMarketOrderId, oa_orderType = orderType, oa_price = price,
            oa_initialQuantity = qty, oa_side = side, oa_orderToken = orderToken\<rparr>;
          (remaining, b, io) \<leftarrow> vec_match ops t b io;
          if remaining > 0 \<and> orderType = GoodTillCancel
          then do { b \<leftarrow> vec_insert ops t remaining b; Some (b, io) }
          else Some (b, io)
        }))"

text \<open>The overloads without a token; cancelling without a quantity cancels what remains.\<close>

definition vec_addOrder_untokened :: "'p pool_ops \<Rightarrow> TickerId \<Rightarrow> ClientId \<Rightarrow> OrderId \<Rightarrow> OrderType \<Rightarrow> Price \<Rightarrow>
    Quantity \<Rightarrow> Side \<Rightarrow> 'p vector_book \<Rightarrow> engine_io \<Rightarrow> ('p vector_book \<times> engine_io) option" where
  "vec_addOrder_untokened ops tickerId clientId clientOrderId orderType price initialQuantity side =
    vec_addOrder ops \<lparr>oa_tickerId = tickerId, oa_clientId = clientId, oa_clientOrderId = clientOrderId,
      oa_marketOrderId = OrderId_INVALID, oa_orderType = orderType, oa_price = price,
      oa_initialQuantity = initialQuantity, oa_side = side, oa_orderToken = zero_token\<rparr>"

definition vec_cancelOrder_untokened :: "'p pool_ops \<Rightarrow> TickerId \<Rightarrow> ClientId \<Rightarrow> OrderId \<Rightarrow>
    'p vector_book \<Rightarrow> engine_io \<Rightarrow> ('p vector_book \<times> engine_io) option" where
  "vec_cancelOrder_untokened ops tickerId clientId clientOrderId =
    vec_cancelOrder ops tickerId clientId clientOrderId 0 zero_token"

section \<open>Representation\<close>

text \<open>
  \<open>vec_repr ops pv F b\<close>: the shared state is in order, every resting price is inside the
  array, and the list of active levels of a side has exactly the prices at which orders rest.
\<close>

definition vec_repr :: "'p pool_ops \<Rightarrow> 'p pool_view \<Rightarrow> (Side \<Rightarrow> addr list) \<Rightarrow> 'p vector_book \<Rightarrow> bool" where
  "vec_repr ops pv F b \<longleftrightarrow> pool_spec ops pv \<and> vb_engine b \<and>
     core_ok pv F (\<lambda>s p. fst (vb_side s b) p) b \<and>
     (\<forall>s. \<forall>a\<in>set (F s). unat (px (bk_heap b) a) < MAX_PRICE_LEVELS) \<and>
     (\<forall>s. active_ok s (px (bk_heap b) ` set (F s)) (fst (vb_side s b)) (snd (vb_side s b)))"

lemma vb_side_simps [simp]:
  "vb_side s (vb_set_side s' S b) = (if s' = s then S else vb_side s b)"
  "vb_side s (bk_heap_update f b) = vb_side s b"
  "vb_side s (bk_orders_update g b) = vb_side s b"
  "vb_side s (bk_pool_update h b) = vb_side s b"
  "vb_side s (bk_nextMarketOrderId_update i b) = vb_side s b"
  by (cases s; cases s'; simp)+

lemma vb_set_side_simps [simp]:
  "bk_heap (vb_set_side s S b) = bk_heap b"
  "bk_orders (vb_set_side s S b) = bk_orders b"
  "bk_pool (vb_set_side s S b) = bk_pool b"
  "bk_nextMarketOrderId (vb_set_side s S b) = bk_nextMarketOrderId b"
  "vb_engine (vb_set_side s S b) = vb_engine b"
  by (cases s; simp)+

lemma vec_reprD:
  assumes "vec_repr ops pv F b"
  shows vec_repr_pool: "pool_spec ops pv" and vec_repr_engine: "vb_engine b"
    and vec_repr_core: "core_ok pv F (\<lambda>s p. fst (vb_side s b) p) b"
    and vec_repr_bound: "a \<in> set (F s) \<Longrightarrow> unat (px (bk_heap b) a) < MAX_PRICE_LEVELS"
    and vec_repr_active: "active_ok s (px (bk_heap b) ` set (F s)) (fst (vb_side s b)) (snd (vb_side s b))"
  using assms unfolding vec_repr_def by auto

lemma vec_reprI:
  assumes "pool_spec ops pv" and "vb_engine b" and "core_ok pv F (\<lambda>s p. fst (vb_side s b) p) b"
    and "\<And>s a. a \<in> set (F s) \<Longrightarrow> unat (px (bk_heap b) a) < MAX_PRICE_LEVELS"
    and "\<And>s. active_ok s (px (bk_heap b) ` set (F s)) (fst (vb_side s b)) (snd (vb_side s b))"
  shows "vec_repr ops pv F b"
  using assms unfolding vec_repr_def by blast

text \<open>The head of the active list is the price of the first order of the side.\<close>

lemma sorted_first_least:
  assumes "sorted_wrt (before s) G" and "p \<in> set G" and "\<And>q. q \<in> set G \<Longrightarrow> \<not> before s q p"
  shows "first G = Some p"
  using assms by (cases G) auto

lemma vec_repr_best:
  assumes rep: "vec_repr ops pv F b"
  shows "vec_best s b = map_option (px (bk_heap b)) (first (F s))"
proof -
  obtain G where G: "sorted_wrt (before s) G" "set G = px (bk_heap b) ` set (F s)" "snd (vb_side s b) = first G"
    using vec_repr_active [OF rep, of s] unfolding active_ok_def by blast
  show ?thesis
  proof (cases "F s")
    case Nil
    with G show ?thesis by (simp add: vec_best_def)
  next
    case (Cons a xs)
    have "first G = Some (px (bk_heap b) a)"
      using G(1) by (rule sorted_first_least)
        (use core_prio [OF vec_repr_core [OF rep], of s] prio_best [of s "bk_heap b" a xs] Cons G(2) in auto)
    with G(3) Cons show ?thesis by (simp add: vec_best_def)
  qed
qed

lemma vec_repr_price: "vec_repr ops pv F b \<Longrightarrow> vec_level_price s p b = p"
  using vec_repr_active [of ops pv F b s] by (simp add: vec_level_price_def active_ok_def)

lemma vec_repr_head:
  "vec_repr ops pv F b \<Longrightarrow> vec_head s p b = Some (first (at_price (bk_heap b) p (F s)))"
  using core_level [OF vec_repr_core, of ops pv F b p s] by (simp add: vec_head_def level_ok_def)

lemma vec_repr_write:
  assumes "vec_repr ops pv F b" and "bk_heap b a = Some r"
  shows "vec_repr ops pv F (b\<lparr>bk_heap := (bk_heap b)(a \<mapsto> r\<lparr>mo_remainingQuantity := q\<rparr>)\<rparr>)"
proof -
  have "px ((bk_heap b)(a \<mapsto> r\<lparr>mo_remainingQuantity := q\<rparr>)) = px (bk_heap b)"
    using assms(2) by (auto simp: px_def)
  then show ?thesis
    using core_write [OF vec_repr_core [OF assms(1)] assms(2)] assms(1) by (simp add: vec_repr_def)
qed

text \<open>An emptied level leaves the list of active levels.\<close>

lemma shrink_active:
  assumes act: "active_ok s P (L(p := l)) best" and p: "p \<in> P"
    and empty: "pl_head l = None \<Longrightarrow> pl_tail l = None \<and> P' = P - {p}" and rest: "pl_head l \<noteq> None \<Longrightarrow> P' = P"
  obtains L' best' where "(if pl_head l = None then removePriceLevel p (L(p := l), best) else (L(p := l), best)) = (L', best')"
    and "active_ok s P' L' best'" and "same_orders (L(p := l)) L'"
proof (cases "pl_head l = None")
  case True
  then have "(L(p := l))(p := l\<lparr>pl_head := None, pl_tail := None\<rparr>) = L(p := l)" using empty by (simp add: fun_eq_iff)
  then show thesis using removePriceLevel_ok [OF act p] True empty that by force
next
  case False
  with act rest show thesis by (intro that [of "L(p := l)" best]) (auto simp: same_orders_def)
qed

lemma vec_repr_removed:
  assumes rep: "vec_repr ops pv F b" and a: "a \<in> set (F s)" and me: "vb_engine b'"
    and core': "core_ok pv (drop_addr a F) (\<lambda>s p. fst (vb_side s b') p) b'"
    and d: "data (bk_heap b') = (data (bk_heap b))(a := None)"
    and lvls: "\<And>s'. vb_side s' b' = (if s' = s then (L', best') else vb_side s' b)"
    and act': "active_ok s (px (bk_heap b) ` (set (F s) - {a})) L' best'"
  shows "vec_repr ops pv (drop_addr a F) b'"
proof (rule vec_reprI [OF vec_repr_pool [OF rep] me core'])
  have pxe: "px (bk_heap b') x = px (bk_heap b) x" if "x \<noteq> a" for x
    by (rule px_frame) (simp add: d that)
  show "unat (px (bk_heap b') x) < MAX_PRICE_LEVELS" if "x \<in> set (drop_addr a F s')" for s' x
    using vec_repr_bound [OF rep, of x s'] pxe that by simp
  fix s'
  have img: "px (bk_heap b') ` set (drop_addr a F s') = px (bk_heap b) ` (set (F s') - {a})" using pxe by auto
  have "s' \<noteq> s \<Longrightarrow> set (F s') - {a} = set (F s')" using a core_disjoint [OF vec_repr_core [OF rep], of s s'] by auto
  then show "active_ok s' (px (bk_heap b') ` set (drop_addr a F s')) (fst (vb_side s' b')) (snd (vb_side s' b'))"
    using act' vec_repr_active [OF rep, of s'] unfolding img lvls by auto
qed

lemma vec_remove_ok:
  assumes rep: "vec_repr ops pv F b" and r: "bk_heap b a = Some r"
  shows "\<exists>b'. vec_remove ops a b = Some b' \<and> vec_repr ops pv (drop_addr a F) b' \<and>
        data (bk_heap b') = (data (bk_heap b))(a := None) \<and>
        bk_nextMarketOrderId b' = bk_nextMarketOrderId b \<and>
        pv_cap pv (bk_pool b') = pv_cap pv (bk_pool b)"
proof -
  define s p where s_p_def: "s = mo_side r" "p = mo_price r"
  obtain L best where S: "vb_side s b = (L, best)" by fastforce
  note core = vec_repr_core [OF rep] and spec = vec_repr_pool [OF rep]
  have a: "a \<in> set (F s)" "px (bk_heap b) a = p" using core_dom_side [OF core r] r by (simp_all add: s_p_def px_def)
  have ref: "level_ref p = Some p" using vec_repr_bound [OF rep a(1)] a(2) by (simp add: level_ref_def)
  let ?Q = "removeAll a (at_price (bk_heap b) p (F s))"
  obtain l' h' where un: "unlink_order a (L p) (bk_heap b) = Some (l', h')" and rl: "relinked (bk_heap b) ?Q (L p) l' h'" and ha: "h' a = Some r"
    by (rule core_unlink [OF core r, folded s_p_def, unfolded S fst_conv]) (rule that)
  let ?P = "px (bk_heap b) ` set (F s)" and ?P' = "px (bk_heap b) ` (set (F s) - {a})"
  have Peq: "?P = insert p ?P'" using a by auto
  have act: "active_ok s ?P (L(p := l')) best"
    using vec_repr_active [OF rep, of s] rl unfolding S fst_conv snd_conv relinked_def by (intro active_ok_upd) simp_all
  have hd: "pl_head l' = first ?Q" "pl_tail l' = final ?Q" using rl by (simp_all add: relinked_def level_ok_def)
  have em: "pl_head l' = None \<longleftrightarrow> p \<notin> ?P'"
    using at_price_Nil_iff [of "bk_heap b" p "removeAll a (F s)"] by (simp add: hd at_price_removeAll)
  obtain L' best' where S': "(if pl_head l' = None then removePriceLevel p (L(p := l'), best) else (L(p := l'), best)) = (L', best')"
    and act': "active_ok s ?P' L' best'" and so: "same_orders (L(p := l')) L'"
    by (rule shrink_active [OF act, of ?P']) (use Peq em hd in auto)
  define b' where "b' = delete_order ops a (vb_set_side s (L', best') (b\<lparr>bk_heap := h',
    bk_orders := index_erase (mo_clientId r) (mo_clientOrderId r) (bk_orders b)\<rparr>))"
  have rem: "vec_remove ops a b = Some b'"
    using r un ha ref S S' by (simp add: vec_remove_def b'_def Let_def flip: s_p_def)
  have b': "bk_heap b' = h'(a := None)" "bk_pool b' = pool_deallocate ops a (bk_pool b)"
    "bk_orders b' = index_erase (mo_clientId r) (mo_clientOrderId r) (bk_orders b)"
    "bk_nextMarketOrderId b' = bk_nextMarketOrderId b" "vb_engine b'"
    using vec_repr_engine [OF rep] by (simp_all add: b'_def delete_order_def)
  have lvls: "vb_side s' b' = (if s' = s then (L', best') else vb_side s' b)" for s'
    by (simp add: b'_def delete_order_def)
  have upd: "level_upd (\<lambda>s p. fst (vb_side s b) p) s p l' (\<lambda>s p. fst (vb_side s b') p)"
    using so unfolding level_upd_def lvls same_orders_def by (auto simp: S)
  have core': "core_ok pv (drop_addr a F) (\<lambda>s p. fst (vb_side s b') p) b'"
    and cap: "pv_cap pv (bk_pool b') = pv_cap pv (bk_pool b)"
    using core_remove [OF spec core r _ _ b'(1-3)] rl upd unfolding s_p_def by blast+
  have d: "data (bk_heap b') = (data (bk_heap b))(a := None)" using rl by (simp add: b' relinked_def)
  show ?thesis using vec_repr_removed [OF rep a(1) b'(5) core' d lvls act'] rem d cap b'(4) by blast
qed

text \<open>A level that was empty joins the list of active levels.\<close>

lemma grow_active:
  assumes act: "active_ok s P L best" and hd: "pl_head (L p) = None \<longleftrightarrow> p \<notin> P"
  obtains L' best' where "(if pl_head (L p) = None then insertPricelevel s p (L, best) else Some (L, best)) = Some (L', best')"
    and "active_ok s (insert p P) L' best'" and "same_orders L L'"
proof (cases "pl_head (L p) = None")
  case True
  then show thesis using insertPricelevel_ok [OF act, of p] hd that by auto
next
  case False
  then have "insert p P = P" using hd by auto
  with False act show thesis by (intro that [of L best]) (auto simp: same_orders_def)
qed

lemma vec_repr_inserted:
  assumes rep: "vec_repr ops pv F b" and a: "a \<notin> dom (bk_heap b)" and me: "vb_engine b'"
    and core': "core_ok pv (F(s := prio_insert s (bk_heap b') a (F s))) (\<lambda>s p. fst (vb_side s b') p) b'"
    and d: "data (bk_heap b') = (data (bk_heap b))(a \<mapsto> r)" and fits: "unat (mo_price r) < MAX_PRICE_LEVELS"
    and lvls: "\<And>s'. vb_side s' b' = (if s' = s then (L', best') else vb_side s' b)"
    and act': "active_ok s (insert (mo_price r) (px (bk_heap b) ` set (F s))) L' best'"
  shows "vec_repr ops pv (F(s := prio_insert s (bk_heap b') a (F s))) b'"
proof (rule vec_reprI [OF vec_repr_pool [OF rep] me core'])
  have pxa: "px (bk_heap b') a = mo_price r" using mo_price_the_data [of "bk_heap b'" a] by (simp add: d)
  have pxe: "px (bk_heap b') x = px (bk_heap b) x" if "x \<noteq> a" for x
    by (rule px_frame) (simp add: d that)
  have "a \<notin> set (F s')" for s' using a core_dom [OF vec_repr_core [OF rep]] by (cases s') auto
  with pxe have img: "px (bk_heap b') ` set (F s') = px (bk_heap b) ` set (F s')" for s' by (metis image_cong)
  show "unat (px (bk_heap b') x) < MAX_PRICE_LEVELS" if "x \<in> set ((F(s := prio_insert s (bk_heap b') a (F s))) s')" for s' x
    using vec_repr_bound [OF rep, of x s'] pxe [of x] pxa fits that by (cases "x = a") (auto split: if_splits)
  show "active_ok s' (px (bk_heap b') ` set ((F(s := prio_insert s (bk_heap b') a (F s))) s')) (fst (vb_side s' b')) (snd (vb_side s' b'))" for s'
    using vec_repr_active [OF rep, of s'] act' by (auto simp: lvls pxa img)
qed

lemma vec_insert_ok:
  assumes rep: "vec_repr ops pv F b" and cap: "card (dom (bk_heap b)) < pv_cap pv (bk_pool b)"
    and new: "(oa_clientId t, oa_clientOrderId t) \<notin> order_keys (bk_heap b)"
    and fits: "unat (oa_price t) < MAX_PRICE_LEVELS"
  shows "\<exists>b' a. vec_insert ops t q b = Some b' \<and> a \<notin> dom (bk_heap b) \<and>
        data (bk_heap b') = (data (bk_heap b))(a \<mapsto> order_of t q) \<and>
        vec_repr ops pv (F(oa_side t := prio_insert (oa_side t) (bk_heap b') a (F (oa_side t)))) b' \<and>
        bk_nextMarketOrderId b' = bk_nextMarketOrderId b \<and>
        pv_cap pv (bk_pool b') = pv_cap pv (bk_pool b)"
proof -
  define r s p where r_s_p_def: "r = order_of t q" "s = oa_side t" "p = oa_price t"
  obtain L best where S: "vb_side s b = (L, best)" by fastforce
  note core = vec_repr_core [OF rep] and spec = vec_repr_pool [OF rep]
  have rs: "mo_side r = s" "mo_price r = p" "mo_next r = None" "mo_prev r = None" "unlinked r = r"
    "mo_clientId r = oa_clientId t" "mo_clientOrderId r = oa_clientOrderId t"
    by (simp_all add: r_s_p_def rec_defs unlinked_def)
  have ref: "level_ref p = Some p" using fits by (simp add: level_ref_def r_s_p_def)
  obtain a p' where al: "pool_allocate ops (bk_pool b) = Some (a, p')" and a: "bk_heap b a = None"
    using spec core cap by (rule pool_has_room)
  let ?P = "px (bk_heap b) ` set (F s)"
  have act: "active_ok s ?P L best" using vec_repr_active [OF rep, of s] by (simp add: S)
  have hd: "pl_head (L p) = None \<longleftrightarrow> p \<notin> ?P"
    using core_level [OF core, of p s] by (auto simp: S level_ok_def at_price_def filter_empty_conv)
  obtain L1 best1 where S1: "(if pl_head (L p) = None then insertPricelevel s p (L, best) else Some (L, best)) = Some (L1, best1)"
    and act1: "active_ok s (insert p ?P) L1 best1" and so: "same_orders L L1"
    by (rule grow_active [OF act hd])
  have core1: "core_ok pv F (\<lambda>s' p. if s' = s then L1 p else fst (vb_side s' b) p) b"
    using core by (rule core_ok_ends) (use so in \<open>simp add: same_orders_def S\<close>)
  obtain l' h' where li: "link_order a (L1 p) ((bk_heap b)(a \<mapsto> r)) = Some (l', h')"
    and rl: "relinked ((bk_heap b)(a \<mapsto> r)) (at_price (bk_heap b) p (F s) @ [a]) (L1 p) l' h'"
    using core_link [OF core1 a rs(3,4)] by (simp add: rs) blast
  define b' where "b' = vb_set_side s (L1(p := l'), best1) (b\<lparr>bk_pool := p', bk_heap := h',
    bk_orders := index_put (oa_clientId t) (oa_clientOrderId t) a (bk_orders b)\<rparr>)"
  have ins: "vec_insert ops t q b = Some b'"
    using al li S S1 ref
    by (simp add: vec_insert_def new_order_def Let_def b'_def split del: if_split cong: if_cong flip: r_s_p_def)
  have b': "bk_heap b' = h'" "bk_pool b' = p'" "bk_orders b' = index_put (mo_clientId r) (mo_clientOrderId r) a (bk_orders b)"
    "bk_nextMarketOrderId b' = bk_nextMarketOrderId b" "vb_engine b'"
    using vec_repr_engine [OF rep] by (simp_all add: b'_def rs)
  have lvls: "vb_side s' b' = (if s' = s then (L1(p := l'), best1) else vb_side s' b)" for s' by (simp add: b'_def)
  have upd: "level_upd (\<lambda>s' p. if s' = s then L1 p else fst (vb_side s' b) p) s p l' (\<lambda>s p. fst (vb_side s b') p)"
    unfolding level_upd_def lvls by auto
  have new': "index_find (mo_clientId r) (mo_clientOrderId r) (bk_orders b) = None"
    using new index_find_None_iff [OF core] by (simp add: rs)
  have core': "core_ok pv (F(s := prio_insert s (bk_heap b') a (F s))) (\<lambda>s p. fst (vb_side s b') p) b'"
    and c: "pv_cap pv (bk_pool b') = pv_cap pv (bk_pool b)"
    using core_insert [OF spec core1 al new' rs(5), of "L1 p" l' h' _ b'] rl upd b'(1-3) by (simp_all add: rs)
  have d: "data (bk_heap b') = (data (bk_heap b))(a \<mapsto> r)" using rl by (simp add: relinked_def rs b')
  have act': "active_ok s (insert (mo_price r) ?P) (L1(p := l')) best1"
    using act1 rl unfolding relinked_def rs by (intro active_ok_upd) simp_all
  have "vec_repr ops pv (F(s := prio_insert s (bk_heap b') a (F s))) b'"
    by (rule vec_repr_inserted [OF rep _ b'(5) core' d _ lvls act']) (use a fits in \<open>simp_all add: rs(2) r_s_p_def(3) domIff\<close>)
  then show ?thesis using ins a d b'(4) c unfolding r_s_p_def by blast
qed

lemma vec_repr_room:
  assumes "vec_repr ops pv F b"
  shows "card (dom (bk_heap b)) \<le> pv_cap pv (bk_pool b)"
  using vec_repr_pool [OF assms] core_pool [OF vec_repr_core [OF assms]]
  unfolding pool_spec_def by metis

lemma vec_repr_counter:
  assumes "vec_repr ops pv F b"
  shows "vec_repr ops pv F (b\<lparr>bk_nextMarketOrderId := n\<rparr>)"
proof -
  have "core_ok pv F lv (b\<lparr>bk_nextMarketOrderId := n\<rparr>) = core_ok pv F lv b" for lv
    by (simp add: core_ok_def)
  then show ?thesis using assms by (simp add: vec_repr_def)
qed

lemma vec_fill_eq:
  assumes rep: "vec_repr ops pv F b" and r: "bk_heap b a = Some r"
  shows "vec_fill ops t (mo_price r) a q b io =
        (let fl = min q (mo_remainingQuantity r);
             r' = r\<lparr>mo_remainingQuantity := mo_remainingQuantity r - fl\<rparr>;
             b' = b\<lparr>bk_heap := (bk_heap b)(a \<mapsto> r')\<rparr>;
             io' = a_report VectorBook t r' fl (q - fl) io
         in if mo_remainingQuantity r' = 0
            then map_option (\<lambda>b'. (q - fl, b', io')) (vec_remove ops a b')
            else Some (q - fl, b', io'))"
  using r vec_repr_price [OF rep] vec_repr_engine [OF rep]
  by (simp add: vec_fill_def a_report_def nextMatchId_def Let_def bind_Some_conv_map
      vec_sendClientResponse_def vec_sendMarketUpdate_def)

definition fits_array :: "Price \<Rightarrow> bool" where
  "fits_array p \<longleftrightarrow> unat p < MAX_PRICE_LEVELS"

interpretation vb: book_store VectorBook pv "vec_repr ops pv" vec_best vec_level_price vec_head "vec_remove ops"
  "vec_fill ops" "vec_insert ops" fits_array for ops :: "'p pool_ops" and pv :: "'p pool_view"
  unfolding fits_array_def
  by unfold_locales
    (rule exI, erule vec_repr_core, erule vec_repr_best, erule vec_repr_price, erule vec_repr_head,
     erule (1) vec_repr_write, erule (1) vec_remove_ok, erule (1) vec_fill_eq, erule vec_repr_room,
     erule vec_repr_counter, erule (3) vec_insert_ok)

section \<open>The vector book implements the contract\<close>

definition vec_represents :: "'p pool_ops \<Rightarrow> 'p pool_view \<Rightarrow> 'p vector_book \<Rightarrow> abook \<Rightarrow> bool" where
  "vec_represents ops pv b A \<longleftrightarrow> (\<exists>F. vec_repr ops pv F b \<and> abs_book F b = A)"

definition vec_book_ops :: "'p pool_ops \<Rightarrow> 'p vector_book book_ops" where
  "vec_book_ops ops = \<lparr>ob_addOrder = vec_addOrder ops, ob_cancelOrder = vec_cancelOrder ops,
     ob_replaceOrder = vec_replaceOrder ops\<rparr>"

lemma vec_match_eq:
  "vec_match ops t b io = sweep (vec_best (opposite (oa_side t)))
     (\<lambda>p b. before (opposite (oa_side t)) (oa_price t) (vec_level_price (opposite (oa_side t)) p b))
     (vec_head (opposite (oa_side t))) (vec_fill ops t) (oa_initialQuantity t) b io"
  by (cases "oa_side t") (simp_all add: vec_match_def)

lemma vec_addOrder_refines:
  assumes rep: "vec_represents ops pv b A" and ok: "add_ok (pv_cap pv (bk_pool b)) fits_array args A"
  shows "\<exists>b'. vec_addOrder ops args b io = Some (b', snd (a_addOrder VectorBook args A io)) \<and>
    vec_represents ops pv b' (fst (a_addOrder VectorBook args A io)) \<and>
    pv_cap pv (bk_pool b') = pv_cap pv (bk_pool b)"
proof -
  obtain F where F: "vec_repr ops pv F b" and A: "A = abs_book F b"
    using rep by (auto simp: vec_represents_def)
  have me: "vb_engine b = True" using vec_repr_engine [OF F] by simp
  define b0 where "b0 = b\<lparr>bk_nextMarketOrderId := bk_nextMarketOrderId b + 1\<rparr>"
  have F0: "vec_repr ops pv F b0" and A0: "abs_book F b0 = A\<lparr>ab_next := ab_next A + 1\<rparr>"
    using vec_repr_counter [OF F] by (auto simp: A b0_def)
  define t where "t = args\<lparr>oa_marketOrderId := bk_nextMarketOrderId b\<rparr>"
  have t: "args\<lparr>oa_marketOrderId := ab_next A\<rparr> = t" by (simp add: t_def A)
  have pre: "oa_orderType t = GoodTillCancel \<Longrightarrow> card (dom (bk_heap b0)) < pv_cap pv (bk_pool b0) \<and>
      (oa_clientId t, oa_clientOrderId t) \<notin> order_keys (bk_heap b0) \<and> fits_array (oa_price t)"
    using ok vb.room_abs [OF F0] vb.fresh_abs [OF F0, of "oa_clientId t" "oa_clientOrderId t"]
    by (simp add: add_ok_def A t_def b0_def)
  let ?f = "\<lambda>q. sendMarketUpdate (mk_update (oa_tickerId t) (oa_marketOrderId t) U_ADD (oa_side t)
    (oa_price t) q OrderId_INVALID OrderId_INVALID)"
  let ?g = "\<lambda>q. sendClientResponse (own_report t CANCELED q)"
  let ?io = "sendClientResponse (own_report t ACCEPTED (oa_initialQuantity t)) io"
  have conc: "vec_addOrder ops args b io = Option.bind (vec_match ops t b0 ?io)
    (\<lambda>(q, b, io). if q = 0 then Some (b, io) else case oa_orderType t of
       GoodTillCancel \<Rightarrow> map_option (\<lambda>b. (b, ?f q io)) (vec_insert ops t q b)
     | FillAndKill \<Rightarrow> Some (b, ?g q io))"
    unfolding vec_addOrder_def Let_def own_report_def t_def b0_def me vec_send_engine
    by (rule Option.bind_cong) (auto simp: bind_Some_conv_map word_gt_0 split: OrderType.split)
  have abst: "a_addOrder VectorBook args A io = a_finish VectorBook t ?f ?g (abs_book F b0) ?io"
    unfolding a_addOrder_def Let_def t A0 ..
  show ?thesis
    using vb.take_then_rest [OF F0 pre, of ?io ?f ?g] unfolding conc abst vec_match_eq
    by (auto simp: vec_represents_def b0_def)
qed

lemma vec_cancelOrder_refines:
  assumes rep: "vec_represents ops pv b A"
  shows "\<exists>b'. vec_cancelOrder ops tick c k qty tok b io = Some (b', snd (a_cancelOrder VectorBook tick c k qty tok A io)) \<and>
    vec_represents ops pv b' (fst (a_cancelOrder VectorBook tick c k qty tok A io)) \<and>
    pv_cap pv (bk_pool b') = pv_cap pv (bk_pool b)"
proof -
  obtain F where F: "vec_repr ops pv F b" and A: "A = abs_book F b"
    using rep by (auto simp: vec_represents_def)
  have me: "vb_engine b = True" using vec_repr_engine [OF F] by simp
  show ?thesis
  proof (cases "index_find c k (bk_orders b)")
    case None
    then have "a_find c k A = None" using vb.find_abs [OF F] by (simp add: A)
    with None rep show ?thesis
      by (auto simp: vec_cancelOrder_def me a_cancelOrder_def index_find_def split: option.splits)
  next
    case (Some a)
    then obtain r where r: "bk_heap b a = Some r" "has_key c k r" "a_find c k A = Some (unlinked r)"
      using vb.found_abs [OF F] unfolding A by metis
    define q where "q = (if qty = 0 then mo_remainingQuantity r else qty)"
    obtain b' F' where "(if mo_remainingQuantity r = q then vec_remove ops a (b\<lparr>bk_heap := (bk_heap b)(a \<mapsto>
        r\<lparr>mo_remainingQuantity := mo_remainingQuantity r - q\<rparr>)\<rparr>) else Some (b\<lparr>bk_heap := (bk_heap b)(a \<mapsto>
        r\<lparr>mo_remainingQuantity := mo_remainingQuantity r - q\<rparr>)\<rparr>)) = Some b'" "vec_repr ops pv F' b'"
      "abs_book F' b' = (if mo_remainingQuantity r = q then a_drop c k A else a_shrink c k q A)"
      "pv_cap pv (bk_pool b') = pv_cap pv (bk_pool b)"
      using vb.cancel_abs [OF F r(1,2) refl] unfolding A by metis
    note body = this
    have mb: "map_of (bk_orders b) c \<noteq> None" "map_of (the (map_of (bk_orders b) c)) k = Some a"
      using Some by (auto simp: index_find_def split: option.splits)
    show ?thesis
    proof (cases "mo_remainingQuantity r < q")
      case True
      with mb r rep show ?thesis
        by (auto simp: vec_cancelOrder_def me a_cancelOrder_def Let_def q_def split: if_splits)
    next
      case False
      with mb r body show ?thesis
        by (auto simp: vec_cancelOrder_def me a_cancelOrder_def Let_def vec_represents_def bind_Some_conv_map
          q_def split: if_splits)
    qed
  qed
qed

lemma vec_replaceOrder_refines:
  assumes rep: "vec_represents ops pv b A" and ok: "replace_ok fits_array c k k' ty p A"
  shows "\<exists>b'. vec_replaceOrder ops tick c k k' ty p qty tok b io =
      Some (b', snd (a_replaceOrder VectorBook tick c k k' ty p qty tok A io)) \<and>
    vec_represents ops pv b' (fst (a_replaceOrder VectorBook tick c k k' ty p qty tok A io)) \<and>
    pv_cap pv (bk_pool b') = pv_cap pv (bk_pool b)"
proof -
  obtain F where F: "vec_repr ops pv F b" and A: "A = abs_book F b"
    using rep by (auto simp: vec_represents_def)
  have me: "vb_engine b = True" using vec_repr_engine [OF F] by simp
  show ?thesis
  proof (cases "index_find c k (bk_orders b) = None \<or> k' = 0 \<or> qty = 0")
    case True
    then have "a_find c k A = None \<or> k' = 0 \<or> qty = 0" using vb.find_abs [OF F] by (auto simp: A)
    with True rep show ?thesis
      by (auto simp: vec_replaceOrder_def me a_replaceOrder_def index_find_def split: option.splits)
  next
    case False
    then obtain a where a: "index_find c k (bk_orders b) = Some a" and nz: "k' \<noteq> 0" "qty \<noteq> 0" by auto
    obtain r b1 F1 where r: "bk_heap b a = Some r" "a_find c k A = Some (unlinked r)"
      and rm: "vec_remove ops a (b\<lparr>bk_nextMarketOrderId := bk_nextMarketOrderId b + 1\<rparr>) = Some b1" and F1: "vec_repr ops pv F1 b1"
      and A1: "abs_book F1 b1 = a_drop c k (A\<lparr>ab_next := bk_nextMarketOrderId b + 1\<rparr>)"
      and c1: "pv_cap pv (bk_pool b1) = pv_cap pv (bk_pool b)"
      and room: "ty = GoodTillCancel \<longrightarrow> card (dom (bk_heap b1)) < pv_cap pv (bk_pool b1) \<and> (c, k') \<notin> order_keys (bk_heap b1) \<and> fits_array p"
      by (rule vb.replace_start [OF F a ok [unfolded A], folded A])
    define t where "t = \<lparr>oa_tickerId = tick, oa_clientId = c, oa_clientOrderId = k',
      oa_marketOrderId = bk_nextMarketOrderId b, oa_orderType = ty, oa_price = p,
      oa_initialQuantity = qty, oa_side = mo_side r, oa_orderToken = tok\<rparr>"
    have pre: "oa_orderType t = GoodTillCancel \<Longrightarrow> card (dom (bk_heap b1)) < pv_cap pv (bk_pool b1) \<and>
        (oa_clientId t, oa_clientOrderId t) \<notin> order_keys (bk_heap b1) \<and> fits_array (oa_price t)"
      using room by (simp add: t_def)
    let ?g = "\<lambda>(q :: Quantity) (io :: engine_io). io"
    let ?io = "sendMarketUpdate (mk_update tick (mo_marketOrderId r) U_MODIFY (mo_side r) p qty
      (oa_marketOrderId t) OrderId_INVALID) (sendClientResponse (own_report t MODIFIED qty) io)"
    have conc: "vec_replaceOrder ops tick c k k' ty p qty tok b io =
      Option.bind (vec_match ops t b1 ?io)
        (\<lambda>(q, b, io). if q = 0 then Some (b, io) else case oa_orderType t of
           GoodTillCancel \<Rightarrow> map_option (\<lambda>b. (b, io)) (vec_insert ops t q b)
         | FillAndKill \<Rightarrow> Some (b, ?g q io))"
      using a nz r(1) rm
      by (auto simp: vec_replaceOrder_def me index_find_def Let_def own_report_def t_def bind_Some_conv_map word_gt_0
        split: option.splits OrderType.split intro!: Option.bind_cong)
    have abst: "a_replaceOrder VectorBook tick c k k' ty p qty tok A io =
      a_finish VectorBook t (\<lambda>q io. io) ?g (abs_book F1 b1) ?io"
      using nz r(2) by (simp add: a_replaceOrder_def Let_def A1 t_def) (simp add: A)
    show ?thesis
      using vb.take_then_rest [OF F1 pre, of ?io "\<lambda>q io. io" ?g] c1 unfolding conc abst vec_match_eq
      by (auto simp: vec_represents_def)
  qed
qed

interpretation vec_ob: order_book VectorBook "vec_represents ops pv" "vec_book_ops ops"
  "\<lambda>b. pv_cap pv (bk_pool b)" fits_array for ops :: "'p pool_ops" and pv :: "'p pool_view"
  by unfold_locales
    (simp_all add: vec_book_ops_def vec_addOrder_refines vec_cancelOrder_refines vec_replaceOrder_refines)

text \<open>A book constructed over an empty pool represents the empty abstract book.\<close>

lemma vec_represents_init:
  assumes "pool_spec ops pv" and "pv_inv pv pool" and "pv_live pv pool = {}"
  shows "vec_represents ops pv (vector_book_init tick True pool) a_empty"
proof -
  have side: "vb_side s (vector_book_init tick True pool) = (mk_level, None)" for s
    by (cases s) (simp_all add: vector_book_init_def)
  have act: "active_ok s {} mk_level None" for s
    by (rule active_okI [of s "[]"]) (simp_all add: mk_level_def)
  have "vec_repr ops pv (\<lambda>_. []) (vector_book_init tick True pool)"
    using assms act unfolding vec_repr_def side
    by (simp add: core_ok_def vector_book_init_def index_ok_def index_find_def level_ok_def at_price_def prio_def
        mk_level_def data_def)
  moreover have "abs_book (\<lambda>_. []) (vector_book_init tick True pool) = a_empty"
    by (simp add: abs_book_def abs_list_def vector_book_init_def a_empty_def)
  ultimately show ?thesis unfolding vec_represents_def by blast
qed

end
