(* ===== verification/Engine.thy ===== *)
theory Engine
  imports Trades MapBook VectorBook
begin

text \<open>
  The matching engine, \<^verbatim>\<open>src/src/engine/matching_engine.cpp\<close>: one order book per ticker, the
  dispatch of client requests, and the polling loop. The engine is written against the facade
  \<^verbatim>\<open>order_book.h\<close>, so the model takes the book operations as a record and is proved inside the
  locale \<open>order_book\<close>; both books then inherit the results.
\<close>

record 'b engine =
  ticker_order_book :: "'b list"
  engine_out :: engine_io

section \<open>The operations of the source\<close>

definition engine_init :: "(TickerId \<Rightarrow> 'b) \<Rightarrow> nat \<Rightarrow> 'b engine" where
  "engine_init mk_book maxOrderBooks =
    \<lparr>ticker_order_book = map (\<lambda>i. mk_book (of_nat i)) [0..<maxOrderBooks],
     engine_out = \<lparr>next_match_id = 1, responses = [], marketUpdates = []\<rparr>\<rparr>"

definition request_args :: "MEClientRequest \<Rightarrow> order_args" where
  "request_args request =
    \<lparr>oa_tickerId = rq_ticker_id request, oa_clientId = rq_client_id request,
     oa_clientOrderId = rq_client_order_id request, oa_marketOrderId = 0,
     oa_orderType = rq_type request, oa_price = rq_price request,
     oa_initialQuantity = rq_qty request, oa_side = rq_side request,
     oa_orderToken = rq_order_token request\<rparr>"

text \<open>\<^verbatim>\<open>ticker_order_book_[ticker_id]\<close> is not bounds-checked: a ticker without a book is undefined behaviour.\<close>

definition processClientRequest :: "'b book_ops \<Rightarrow> MEClientRequest \<Rightarrow> 'b engine \<Rightarrow> 'b engine option" where
  "processClientRequest ops request e =
    (let i = unat (rq_ticker_id request) in
     if i < length (ticker_order_book e) then do {
       let orderbook = ticker_order_book e ! i;
       (orderbook, io) \<leftarrow> (case rq_action request of
           NEW \<Rightarrow> ob_addOrder ops (request_args request) orderbook (engine_out e)
         | CANCEL \<Rightarrow> ob_cancelOrder ops (rq_ticker_id request) (rq_client_id request)
             (rq_client_order_id request) (rq_qty request) (rq_order_token request) orderbook (engine_out e)
         | MODIFY \<Rightarrow> ob_replaceOrder ops (rq_ticker_id request) (rq_client_id request)
             (rq_client_order_id request) (rq_new_client_order_id request) (rq_type request)
             (rq_price request) (rq_qty request) (rq_order_token request) orderbook (engine_out e));
       Some (e\<lparr>ticker_order_book := (ticker_order_book e)[i := orderbook], engine_out := io\<rparr>)
     } else None)"

text \<open>
  The polling loop. The list holds what \<^verbatim>\<open>getNextRead\<close> returned in each turn while \<^verbatim>\<open>run_\<close> was
  set: a request, or the null pointer of an empty queue.
\<close>

fun engine_run :: "'b book_ops \<Rightarrow> MEClientRequest option list \<Rightarrow> 'b engine \<Rightarrow> 'b engine option" where
  "engine_run ops [] e = Some e"
| "engine_run ops (None # polls) e = engine_run ops polls e"
| "engine_run ops (Some request # polls) e = do {
     e \<leftarrow> processClientRequest ops request e;
     engine_run ops polls e
   }"

section \<open>The engine's contract\<close>

definition engine_io0 :: engine_io where
  "engine_io0 = \<lparr>next_match_id = 1, responses = [], marketUpdates = []\<rparr>"

definition a_request :: "variant \<Rightarrow> MEClientRequest \<Rightarrow> abook \<Rightarrow> engine_io \<Rightarrow> abook \<times> engine_io" where
  "a_request v r A io =
    (case rq_action r of
       NEW \<Rightarrow> a_addOrder v (request_args r) A io
     | CANCEL \<Rightarrow> a_cancelOrder v (rq_ticker_id r) (rq_client_id r) (rq_client_order_id r) (rq_qty r)
         (rq_order_token r) A io
     | MODIFY \<Rightarrow> a_replaceOrder v (rq_ticker_id r) (rq_client_id r) (rq_client_order_id r)
         (rq_new_client_order_id r) (rq_type r) (rq_price r) (rq_qty r) (rq_order_token r) A io)"

definition a_process :: "variant \<Rightarrow> MEClientRequest \<Rightarrow> abook list \<times> engine_io \<Rightarrow> abook list \<times> engine_io" where
  "a_process v r S =
    (case S of (As, io) \<Rightarrow>
      let i = unat (rq_ticker_id r); (A, io) = a_request v r (As ! i) io in (As[i := A], io))"

fun a_run :: "variant \<Rightarrow> MEClientRequest option list \<Rightarrow> abook list \<times> engine_io \<Rightarrow> abook list \<times> engine_io" where
  "a_run v [] S = S"
| "a_run v (None # polls) S = a_run v polls S"
| "a_run v (Some r # polls) S = a_run v polls (a_process v r S)"

text \<open>
  What a request must satisfy in a given state: its ticker has a book, a new good-till-cancel
  order has room and a fresh id, a replacement does not take the id of another live order.
\<close>

definition request_ok :: "nat list \<Rightarrow> (Price \<Rightarrow> bool) \<Rightarrow> MEClientRequest \<Rightarrow> abook list \<Rightarrow> bool" where
  "request_ok caps fits r As \<longleftrightarrow>
    (let i = unat (rq_ticker_id r) in
     i < length As \<and>
     (case rq_action r of
        NEW \<Rightarrow> add_ok (caps ! i) fits (request_args r) (As ! i)
      | CANCEL \<Rightarrow> True
      | MODIFY \<Rightarrow> replace_ok fits (rq_client_id r) (rq_client_order_id r) (rq_new_client_order_id r)
          (rq_type r) (rq_price r) (As ! i)))"

fun polls_ok :: "variant \<Rightarrow> nat list \<Rightarrow> (Price \<Rightarrow> bool) \<Rightarrow> MEClientRequest option list \<Rightarrow>
    abook list \<times> engine_io \<Rightarrow> bool" where
  "polls_ok v caps fits [] S = True"
| "polls_ok v caps fits (None # polls) S = polls_ok v caps fits polls S"
| "polls_ok v caps fits (Some r # polls) S =
     (request_ok caps fits r (fst S) \<and> polls_ok v caps fits polls (a_process v r S))"

lemma a_request_ok:
  assumes "abook_ok A" and "rq_action r = NEW \<Longrightarrow> add_ok cap fits (request_args r) A"
    and "rq_action r = MODIFY \<Longrightarrow> replace_ok fits (rq_client_id r) (rq_client_order_id r)
      (rq_new_client_order_id r) (rq_type r) (rq_price r) A"
  shows "abook_ok (fst (a_request v r A io))"
  using assms
  by (auto simp: a_request_def add_ok_def replace_ok_def split: ClientRequestType.split
      intro!: a_addOrder_ok a_cancelOrder_ok a_replaceOrder_ok)

lemma a_process_books:
  assumes "request_ok caps fits r As" and "list_all abook_ok As"
  shows "length (fst (a_process v r (As, io))) = length As" and "list_all abook_ok (fst (a_process v r (As, io)))"
proof -
  let ?i = "unat (rq_ticker_id r)"
  have i: "?i < length As" using assms(1) by (simp add: request_ok_def Let_def)
  have "abook_ok (fst (a_request v r (As ! ?i) io))"
    by (rule a_request_ok [where cap = "caps ! ?i" and fits = fits])
      (use assms i in \<open>auto simp: request_ok_def Let_def list_all_length\<close>)
  with assms(2) i show "list_all abook_ok (fst (a_process v r (As, io)))"
    by (auto simp: a_process_def Let_def list_all_length nth_list_update split: prod.split)
  show "length (fst (a_process v r (As, io))) = length As"
    by (simp add: a_process_def Let_def split: prod.split)
qed

lemma numbered_request: "numbered io \<Longrightarrow> numbered (snd (a_request v r A io))"
  by (simp add: a_request_def numbered_add numbered_cancel numbered_replace split: ClientRequestType.split)

lemma a_process_io: "snd (a_process v r S) = snd (a_request v r (fst S ! unat (rq_ticker_id r)) (snd S))"
  by (simp add: a_process_def Let_def split: prod.split)

lemma numbered_process: "numbered (snd S) \<Longrightarrow> numbered (snd (a_process v r S))"
  by (simp add: a_process_io numbered_request)

lemma numbered_run: "numbered (snd S) \<Longrightarrow> numbered (snd (a_run v polls S))"
  by (induction v polls S rule: a_run.induct) (auto simp: numbered_process)

lemma a_run_length: "length (fst (a_run v polls (As, io))) = length As"
proof (induction polls arbitrary: As io)
  case (Cons p polls)
  show ?case
  proof (cases p)
    case (Some r)
    obtain As' io' where "a_process v r (As, io) = (As', io')" by fastforce
    then show ?thesis using Cons.IH [of As' io'] by (auto simp: Some a_process_def Let_def split: prod.splits)
  qed (use Cons in simp)
qed simp

text \<open>The state of the books does not depend on which book is built in.\<close>

lemma a_process_agree: "fst (a_process v r (As, io)) = fst (a_process v' r (As, io'))"
proof -
  have "fst (a_request v r A io) = fst (a_request v' r A io')" for A
    by (cases "rq_action r") (auto simp: a_request_def intro: addOrder_book cancelOrder_book replaceOrder_book)
  then show ?thesis by (simp add: a_process_def Let_def split: prod.split) (metis fst_conv)
qed

lemma a_run_agree: "fst (a_run v polls (As, io)) = fst (a_run v' polls (As, io'))"
proof (induction polls arbitrary: As io io')
  case (Cons p polls)
  then show ?case by (cases p) (simp_all, metis a_process_agree prod.collapse)
qed simp

lemma polls_ok_agree: "polls_ok v caps fits polls (As, io) = polls_ok v' caps fits polls (As, io')"
proof (induction polls arbitrary: As io io')
  case (Cons p polls)
  then show ?case by (cases p) (simp_all, metis a_process_agree prod.collapse)
qed simp

lemma polls_ok_mono:
  "polls_ok v caps fits polls S \<Longrightarrow> (\<And>p. fits p \<Longrightarrow> fits' p) \<Longrightarrow> polls_ok v caps fits' polls S"
proof (induction polls arbitrary: S)
  case (Cons p polls)
  then show ?case
    by (cases p) (auto simp: request_ok_def Let_def add_ok_def replace_ok_def split: ClientRequestType.splits)
qed simp

section \<open>Refinement, for any book that keeps the facade's contract\<close>

definition engine_rep :: "('b \<Rightarrow> abook \<Rightarrow> bool) \<Rightarrow> ('b \<Rightarrow> nat) \<Rightarrow> nat list \<Rightarrow> 'b engine \<Rightarrow>
    abook list \<times> engine_io \<Rightarrow> bool" where
  "engine_rep represents cap caps e S \<longleftrightarrow>
     length (ticker_order_book e) = length (fst S) \<and> engine_out e = snd S \<and> list_all abook_ok (fst S) \<and>
     (\<forall>i < length (fst S). represents (ticker_order_book e ! i) (fst S ! i) \<and> cap (ticker_order_book e ! i) = caps ! i)"

lemma engine_rep_books:
  assumes "engine_rep represents cap caps e S" and "b \<in> set (ticker_order_book e)"
  shows "\<exists>A. represents b A \<and> abook_ok A"
proof -
  obtain i where "i < length (ticker_order_book e)" "b = ticker_order_book e ! i"
    using assms(2) by (auto simp: in_set_conv_nth)
  then show ?thesis
    using assms(1) by (intro exI [of _ "fst S ! i"]) (simp add: engine_rep_def list_all_length)
qed

context order_book
begin

lemma request_refines:
  assumes rep: "engine_rep represents cap caps e (As, io)" and ok: "request_ok caps fits r As"
  shows "\<exists>e'. processClientRequest ops r e = Some e' \<and> engine_rep represents cap caps e' (a_process v r (As, io))"
proof -
  define i where "i = unat (rq_ticker_id r)"
  have i: "i < length As" and len: "length (ticker_order_book e) = length As" and io: "io = engine_out e"
    using rep ok by (simp_all add: engine_rep_def request_ok_def i_def Let_def)
  let ?b = "ticker_order_book e ! i" and ?A = "As ! i"
  have b: "represents ?b ?A" "cap ?b = caps ! i" using rep i by (simp_all add: engine_rep_def)
  have "\<exists>b'. (case rq_action r of
        NEW \<Rightarrow> ob_addOrder ops (request_args r) ?b (engine_out e)
      | CANCEL \<Rightarrow> ob_cancelOrder ops (rq_ticker_id r) (rq_client_id r) (rq_client_order_id r) (rq_qty r)
          (rq_order_token r) ?b (engine_out e)
      | MODIFY \<Rightarrow> ob_replaceOrder ops (rq_ticker_id r) (rq_client_id r) (rq_client_order_id r)
          (rq_new_client_order_id r) (rq_type r) (rq_price r) (rq_qty r) (rq_order_token r) ?b (engine_out e)) =
      Some (b', snd (a_request v r ?A (engine_out e))) \<and> represents b' (fst (a_request v r ?A (engine_out e))) \<and> cap b' = cap ?b"
    using ok add_refines [OF b(1), of "request_args r" "engine_out e"] cancel_refines [OF b(1)] replace_refines [OF b(1)]
    by (cases "rq_action r") (simp_all add: a_request_def request_ok_def Let_def b(2) flip: i_def)
  then obtain b' where b': "processClientRequest ops r e =
      Some (e\<lparr>ticker_order_book := (ticker_order_book e)[i := b'], engine_out := snd (a_request v r ?A (engine_out e))\<rparr>)"
    "represents b' (fst (a_request v r ?A (engine_out e)))" "cap b' = caps ! i"
    using i len b(2) by (auto simp: processClientRequest_def Let_def simp flip: i_def)
  have S: "a_process v r (As, io) = (As[i := fst (a_request v r ?A (engine_out e))], snd (a_request v r ?A (engine_out e)))"
    by (simp add: a_process_def Let_def i_def io split: prod.split)
  show ?thesis
    using rep b' a_process_books [OF ok, of v io] len i
    by (auto simp: engine_rep_def S nth_list_update)
qed

lemma run_refines:
  assumes "engine_rep represents cap caps e S" and "polls_ok v caps fits polls S"
  shows "\<exists>e'. engine_run ops polls e = Some e' \<and> engine_rep represents cap caps e' (a_run v polls S)"
  using assms
proof (induction polls arbitrary: e S)
  case (Cons p polls)
  show ?case
  proof (cases p)
    case None
    with Cons show ?thesis by simp
  next
    case (Some r)
    obtain As io where S: "S = (As, io)" by (cases S)
    with Cons.prems Some obtain e' where e': "processClientRequest ops r e = Some e'"
      "engine_rep represents cap caps e' (a_process v r (As, io))"
      using request_refines [of caps e As io r] by auto
    with Cons Some S show ?thesis by simp
  qed
qed simp

lemma init_rep:
  assumes "\<And>i. represents (mk_book i) a_empty" and "\<And>i. cap (mk_book i) = c"
  shows "engine_rep represents cap (replicate n c) (engine_init mk_book n)
    (replicate n a_empty, \<lparr>next_match_id = 1, responses = [], marketUpdates = []\<rparr>)"
  using assms by (simp add: engine_rep_def engine_init_def a_empty_ok list_all_length)

end

end
