(* ===== verification/Requests.thy ===== *)
theory Requests
  imports Engine
begin

text \<open>
  Admissibility of whole request streams. \<open>polls_ok\<close> in Engine refers to the state each request
  meets; here it is derived from the stream alone. A request introduces the id it gives a new
  or replacement order; when a stream introduces every id once, names tickers that have a book,
  and introduces no more orders than a book's pool can hold, every request is admissible in
  whatever state the engine is by then.
\<close>

definition introduced :: "MEClientRequest \<Rightarrow> OrderId list" where
  "introduced r = (case rq_action r of NEW \<Rightarrow> [rq_client_order_id r] | CANCEL \<Rightarrow> [] | MODIFY \<Rightarrow> [rq_new_client_order_id r])"

definition introduced_ids :: "MEClientRequest list \<Rightarrow> OrderId list" where
  "introduced_ids rs = concat (map introduced rs)"

definition ids :: "abook \<Rightarrow> OrderId set" where
  "ids A = mo_clientOrderId ` set (a_orders A)"

lemma introduced_ids_simps [simp]:
  "introduced_ids [] = []" "introduced_ids (r # rs) = introduced r @ introduced_ids rs"
  by (simp_all add: introduced_ids_def)

lemma ids_sides: "ids A = mo_clientOrderId ` (set (a_side s A) \<union> set (a_side (opposite s) A))"
  by (cases s) (auto simp: ids_def a_orders_def)

lemma length_sides: "length (a_orders A) = length (a_side s A) + length (a_side (opposite s) A)"
  by (cases s) (auto simp: a_orders_def)

lemma ids_counter [simp]: "ids (A\<lparr>ab_next := n\<rparr>) = ids A"
  by (simp add: ids_def)

lemma find_fresh: "k \<notin> ids A \<Longrightarrow> a_find c k A = None"
  by (auto simp: ids_def a_find_def find_None_iff has_key_def)

section \<open>What an operation adds to a book\<close>

text \<open>\<open>grows A k A'\<close>: compared to \<open>A\<close>, the book \<open>A'\<close> has at most one more order, with id \<open>k\<close>.\<close>

definition grows :: "abook \<Rightarrow> OrderId list \<Rightarrow> abook \<Rightarrow> bool" where
  "grows A ks A' \<longleftrightarrow> ids A' \<subseteq> ids A \<union> set ks \<and> length (a_orders A') \<le> length (a_orders A) + length ks"

lemma grows_refl [simp]: "grows A ks A" "grows A ks (A\<lparr>ab_next := n\<rparr>)"
  by (auto simp: grows_def)

lemma grows_trans: "grows A [] B \<Longrightarrow> grows B ks C \<Longrightarrow> grows A ks C"
  by (auto simp: grows_def)

lemma grows_mono: "grows A [] B \<Longrightarrow> grows A ks B"
  by (auto simp: grows_def)

lemma grows_in_book: "grows A [] (in_book t A)"
proof -
  let ?L = "a_side (opposite (oa_side t)) A"
  obtain n where n: "map mo_clientOrderId (a_leave t (oa_initialQuantity t) ?L) = drop n (map mo_clientOrderId ?L)"
    using a_leave_suffix [of mo_clientOrderId t "oa_initialQuantity t" ?L] by auto
  have "length (a_leave t (oa_initialQuantity t) ?L) \<le> length ?L"
    using arg_cong [OF n, of length] by simp
  moreover have "mo_clientOrderId ` set (a_leave t (oa_initialQuantity t) ?L) \<subseteq> mo_clientOrderId ` set ?L"
    using arg_cong [OF n, of set] by (metis list.set_map set_drop_subset)
  ultimately show ?thesis
    unfolding grows_def ids_sides [of _ "oa_side t"] length_sides [of _ "oa_side t"] in_book_def by auto
qed

lemma length_a_insert [simp]: "length (a_insert s r L) = Suc (length L)"
proof -
  let ?P = "\<lambda>x. \<not> before s (mo_price r) (mo_price x)"
  have "length (takeWhile ?P L) + length (dropWhile ?P L) = length L"
    by (simp only: length_append [symmetric] takeWhile_dropWhile_id)
  then show ?thesis unfolding a_insert_def by simp
qed

lemma grows_rest: "grows A [oa_clientOrderId t] (a_rest t q A)"
  unfolding grows_def ids_sides [of _ "oa_side t"] length_sides [of _ "oa_side t"] a_rest_def
  by (auto simp: rec_defs)

lemma grows_finish:
  assumes "grows A [] B" and "oa_clientOrderId t = k"
  shows "grows A [k] (fst (a_finish v t f g B io))"
  unfolding a_finish_book
  using grows_trans [OF assms(1) grows_trans [OF grows_in_book grows_rest]]
    grows_mono [OF grows_trans [OF assms(1) grows_in_book]] assms(2) by auto

lemma grows_drop: "grows A [] (a_drop c k A)"
  by (auto simp: grows_def ids_def a_orders_def a_drop_def intro: add_mono)

lemma grows_shrink: "grows A [] (a_shrink c k q A)"
  by (auto simp: grows_def ids_def a_orders_def a_shrink_def Let_def)

lemma grows_request: "grows A (introduced r) (fst (a_request v r A io))"
proof (cases "rq_action r")
  case NEW
  have "grows A [rq_client_order_id r] (fst (a_addOrder v (request_args r) A io))"
    unfolding a_addOrder_def Let_def
    by (rule grows_finish) (simp_all add: request_args_def)
  with NEW show ?thesis by (simp add: a_request_def introduced_def)
next
  case CANCEL
  then show ?thesis
    by (auto simp: a_request_def introduced_def a_cancelOrder_def Let_def grows_drop grows_shrink split: option.split)
next
  case MODIFY
  have "grows A [k'] (fst (a_replaceOrder v tick c k k' ty p qty tok A io))" for tick c k k' ty p qty tok
    by (auto simp: a_replaceOrder_def Let_def intro!: grows_finish grows_trans [OF grows_refl(2) grows_drop] split: option.split)
  with MODIFY show ?thesis by (simp add: a_request_def introduced_def)
qed

section \<open>Streams\<close>

definition stream_ok :: "nat \<Rightarrow> nat \<Rightarrow> (Price \<Rightarrow> bool) \<Rightarrow> MEClientRequest list \<Rightarrow> bool" where
  "stream_ok n cap fits rs \<longleftrightarrow> distinct (introduced_ids rs) \<and> length (introduced_ids rs) \<le> cap \<and>
     list_all (\<lambda>r. unat (rq_ticker_id r) < n \<and> (rq_action r \<noteq> CANCEL \<longrightarrow> fits (rq_price r))) rs"

text \<open>How much of the stream \<open>rs\<close> is still to come when the books are \<open>As\<close>.\<close>

definition ahead :: "nat \<Rightarrow> MEClientRequest list \<Rightarrow> abook list \<Rightarrow> bool" where
  "ahead cap rs As \<longleftrightarrow> (\<forall>A\<in>set As. ids A \<inter> set (introduced_ids rs) = {} \<and>
     length (a_orders A) + length (introduced_ids rs) \<le> cap)"

lemma request_ok_stream:
  assumes "ahead cap (r # rs) As" and "unat (rq_ticker_id r) < length As" and "rq_action r \<noteq> CANCEL \<longrightarrow> fits (rq_price r)"
    and "length As = n"
  shows "request_ok (replicate n cap) fits r As"
proof -
  let ?A = "As ! unat (rq_ticker_id r)"
  have A: "?A \<in> set As" using assms(2) by simp
  have nw: "ids ?A \<inter> set (introduced r) = {}" "length (a_orders ?A) + length (introduced r) \<le> cap"
    using assms(1) A by (auto simp: ahead_def)
  have "k \<notin> ids ?A \<Longrightarrow> k \<notin> ids (a_drop c k' ?A)" for k c k'
    using grows_drop [of ?A c k'] by (auto simp: grows_def)
  then show ?thesis
    using assms(2-4) nw find_fresh
    by (cases "rq_action r") (auto simp: request_ok_def Let_def add_ok_def replace_ok_def introduced_def request_args_def)
qed

lemma ahead_step:
  assumes ah: "ahead cap (r # rs) As" and d: "distinct (introduced_ids (r # rs))" and i: "unat (rq_ticker_id r) < length As"
  shows "ahead cap rs (fst (a_process v r (As, io)))"
proof -
  let ?i = "unat (rq_ticker_id r)" and ?A' = "fst (a_request v r (As ! unat (rq_ticker_id r)) io)"
  have S: "fst (a_process v r (As, io)) = As[?i := ?A']"
    by (simp add: a_process_def Let_def split: prod.split)
  have all: "ids A \<inter> set (introduced_ids rs) = {} \<and> length (a_orders A) + length (introduced_ids rs) \<le> cap"
    if "A \<in> set As" for A using ah that by (auto simp: ahead_def)
  have here: "ids (As ! ?i) \<inter> set (introduced_ids (r # rs)) = {}"
    "length (a_orders (As ! ?i)) + length (introduced_ids (r # rs)) \<le> cap"
    using ah i by (auto simp: ahead_def)
  have "ids ?A' \<inter> set (introduced_ids rs) = {} \<and> length (a_orders ?A') + length (introduced_ids rs) \<le> cap"
    using here d grows_request [of "As ! ?i" r v io] by (auto simp: grows_def)
  then show ?thesis
    unfolding ahead_def S using all set_update_subset_insert [of As ?i ?A'] by blast
qed

lemma stream_polls_ok:
  assumes "stream_ok n cap fits (polled polls)" and "ahead cap (polled polls) As" and "length As = n"
  shows "polls_ok v (replicate n cap) fits polls (As, io)"
  using assms
proof (induction polls arbitrary: As io)
  case (Cons p polls)
  show ?case
  proof (cases p)
    case None
    with Cons show ?thesis by simp
  next
    case (Some r)
    obtain As' io' where S: "a_process v r (As, io) = (As', io')" by fastforce
    have st: "unat (rq_ticker_id r) < length As" "rq_action r \<noteq> CANCEL \<longrightarrow> fits (rq_price r)"
      "distinct (introduced_ids (r # polled polls))" "stream_ok n cap fits (polled polls)"
      using Cons.prems Some by (auto simp: stream_ok_def)
    have ah: "ahead cap (r # polled polls) As" using Cons.prems(2) Some by simp
    have "length As' = n" using S Cons.prems(3) by (auto simp: a_process_def Let_def split: prod.splits)
    with Cons.IH [of As' io'] ahead_step [OF ah st(3,1), of v io] st(4) S
      request_ok_stream [OF ah st(1), of fits, OF st(2) Cons.prems(3)] show ?thesis by (simp add: Some)
  qed
qed simp

lemma stream_polls_ok_init:
  assumes "stream_ok n cap fits (polled polls)"
  shows "polls_ok v (replicate n cap) fits polls (replicate n a_empty, io)"
  by (rule stream_polls_ok [OF assms])
    (use assms in \<open>auto simp: ahead_def stream_ok_def ids_def a_empty_def a_orders_def\<close>)

end
