(* ===== verification/Gateway.thy ===== *)
theory Gateway
  imports OrderServer Requests
begin

text \<open>
  The gateway as a machine: the invariant of its whole state, that every event keeps it, and what
  it says about the requests that reach the matching engine. \<open>accepted\<close> is every request the gateway
  has decoded so far: what it pushed to the engine's queue and what is still pending.
\<close>

definition accepted :: "('q \<Rightarrow> MEClientRequest list) \<Rightarrow> 'q FifoNdProcess \<Rightarrow> MEClientRequest list" where
  "accepted view f = view (fifo_requests f) @ map snd (pending f)"

section \<open>Ownership of internal order ids\<close>

definition owns :: "OrderTokenManager \<Rightarrow> ClientId \<Rightarrow> TickerId \<Rightarrow> OrderId \<Rightarrow> bool" where
  "owns m c tick k \<longleftrightarrow> 0 < k \<and> k < next_internal_id m \<and>
     ti_clientId (id_to_token m ! unat k) = c \<and> ti_tickerId (id_to_token m ! unat k) = tick"

text \<open>The ids a request names belong to its client and to orders of its ticker.\<close>

definition owned_request :: "OrderTokenManager \<Rightarrow> MEClientRequest \<Rightarrow> bool" where
  "owned_request m r \<longleftrightarrow> owns m (rq_client_id r) (rq_ticker_id r) (rq_client_order_id r) \<and>
     (rq_action r = MODIFY \<longrightarrow> owns m (rq_client_id r) (rq_ticker_id r) (rq_new_client_order_id r))"

definition ids_ok :: "nat \<Rightarrow> OrderTokenManager \<Rightarrow> MEClientRequest list \<Rightarrow> bool" where
  "ids_ok sz m R \<longleftrightarrow> tokens_ok m \<and> length (id_to_token m) = sz + 1 \<and> distinct (introduced_ids R) \<and> list_all (owned_request m) R"

lemma introduced_ids_append [simp]: "introduced_ids (R @ R') = introduced_ids R @ introduced_ids R'"
  by (simp add: introduced_ids_def)

lemma mset_introduced: "mset R = mset R' \<Longrightarrow> mset (introduced_ids R) = mset (introduced_ids R')"
proof -
  have "mset (introduced_ids R) = (\<Sum>r\<in>#mset R. mset (introduced r))" for R
    by (induction R) auto
  then show "mset R = mset R' \<Longrightarrow> mset (introduced_ids R) = mset (introduced_ids R')" by simp
qed

lemma ids_ok_perm:
  assumes "mset R = mset R'" and "ids_ok sz m R"
  shows "ids_ok sz m R'"
proof -
  have "set R = set R'" using assms(1) by (rule mset_eq_setD)
  moreover have "distinct (introduced_ids R) = distinct (introduced_ids R')"
    by (rule mset_eq_imp_distinct_iff [OF mset_introduced [OF assms(1)]])
  ultimately show ?thesis using assms(2) by (simp add: ids_ok_def list_all_iff)
qed

lemma introduced_owned:
  assumes "ids_ok sz m R" and "k \<in> set (introduced_ids R)"
  shows "0 < k" and "k < next_internal_id m"
proof -
  obtain r where "owned_request m r" "k \<in> set (introduced r)"
    using assms by (auto simp: ids_ok_def introduced_ids_def list_all_iff)
  then show "0 < k" "k < next_internal_id m"
    by (cases "rq_action r"; simp add: introduced_def owned_request_def owns_def)+
qed

lemma register_owns:
  assumes ok: "tokens_ok m" and reg: "registerNewToken c tok tick m = (i, m')" and nz: "i \<noteq> 0"
  shows "i = next_internal_id m" and "owns m' c tick i" and "owns m c' tick' k \<Longrightarrow> owns m' c' tick' k"
proof -
  have i: "i = next_internal_id m" "0 < i" "next_internal_id m' = i + 1" "i < i + 1" "unat i < length (id_to_token m)"
    using register_cases [OF ok reg] reg nz by (auto simp: registerNewToken_def split: if_splits)
  have slot: "id_to_token m' = (id_to_token m)[unat i := \<lparr>ti_token = take OUCH_TOKEN_LEN tok, ti_tickerId = tick, ti_clientId = c\<rparr>]"
    using reg nz i(1) by (auto simp: registerNewToken_def Let_def split: if_splits)
  show "i = next_internal_id m" by (rule i)
  show "owns m' c tick i" using i by (simp add: owns_def slot)
  show "owns m' c' tick' k" if "owns m c' tick' k"
    using that i by (auto simp: owns_def slot nth_list_update word_less_nat_alt)
qed

lemma register_keeps:
  assumes "tokens_ok m" and "registerNewToken c tok tick m = (i, m')" and "owns m c' tick' k"
  shows "owns m' c' tick' k"
  using register_owns(3) [OF assms(1,2) _ assms(3)] register_cases [OF assms(1,2)] assms(3) by (cases "i = 0") auto

lemma getID_owns:
  assumes "tokens_ok m" and "getID c tok m \<noteq> 0"
  shows "owns m c (ti_tickerId (id_to_token m ! unat (getID c tok m))) (getID c tok m)"
  using getID_owner [OF assms(1) refl assms(2)] by (simp add: owns_def)

text \<open>Decoding one message.\<close>

lemma decode_owned:
  assumes ok: "tokens_ok m" and dec: "decodeOuch lib d c m = Some (flag, req, m')"
  shows "flag \<Longrightarrow> owned_request m' req"
    and "flag \<Longrightarrow> introduced req = [] \<or> introduced req = [next_internal_id m]"
    and "owns m c' tick' k \<Longrightarrow> owns m' c' tick' k"
    and "length (id_to_token m') = length (id_to_token m)"
proof -
  obtain t ds where D: "d = t # ds" using dec by (cases d) (auto simp: decodeOuch_def)
  note reg = register_owns [OF ok] and get = getID_owns [OF ok]
  show "owns m' c' tick' k" if "owns m c' tick' k"
    using dec that unfolding D decodeOuch_def
    by (auto simp: Let_def split: if_splits prod.splits intro: register_keeps [OF ok])
  have "length (id_to_token m'') = length (id_to_token m)" if "registerNewToken c tok tick m = (i, m'')" for tok tick i m''
    using that by (auto simp: registerNewToken_def Let_def split: if_splits)
  then show "length (id_to_token m') = length (id_to_token m)"
    using dec unfolding D decodeOuch_def by (auto simp: Let_def split: if_splits prod.splits)
  show "owned_request m' req" if flag
    using dec that get unfolding D decodeOuch_def
    by (auto simp: Let_def owned_request_def default_request_def split: if_splits prod.splits intro: reg)
  show "introduced req = [] \<or> introduced req = [next_internal_id m]" if flag
    using dec that unfolding D decodeOuch_def
    by (auto simp: Let_def introduced_def default_request_def split: if_splits prod.splits dest: reg(1))
qed

lemma decode_ids:
  assumes R: "ids_ok sz m R" and dec: "decodeOuch lib d c m = Some (flag, req, m')" and ok': "tokens_ok m'"
  shows "ids_ok sz m' (if flag then R @ [req] else R)"
proof -
  have ok: "tokens_ok m" using R by (simp add: ids_ok_def)
  note O = decode_owned [OF ok dec]
  have "list_all (owned_request m') R"
    using R O(3) by (auto simp: ids_ok_def list_all_iff owned_request_def)
  moreover have "next_internal_id m \<notin> set (introduced_ids R)" using introduced_owned(2) [OF R] by blast
  ultimately show ?thesis using R O(1,2,4) ok' by (auto simp: ids_ok_def)
qed

lemma gw_decode_ids:
  assumes "ids_ok sz m R" and "gw_decode lib cid d m = Some (rest, m', rs)"
  shows "ids_ok sz m' (R @ rs)"
  using assms
proof (induction "length d" arbitrary: d m R rs rule: less_induct)
  case less
  have ok: "tokens_ok m" using less.prems(1) by (simp add: ids_ok_def)
  show ?case
  proof (cases d)
    case Nil
    with less.prems show ?thesis by (simp add: gw_decode.simps)
  next
    case (Cons t ds)
    let ?n = "ouchMsgSize lib t"
    consider "?n = 0" | "?n \<noteq> 0" "length d < ?n" | "?n \<noteq> 0" "?n \<le> length d" by linarith
    then show ?thesis
    proof cases
      case 1
      with less.prems(2) have "gw_decode lib cid ds m = Some (rest, m', rs)"
        unfolding Cons by (subst (asm) gw_decode.simps) simp
      with less.hyps [of ds] less.prems(1) show ?thesis by (simp add: Cons)
    next
      case 2
      with less.prems show ?thesis unfolding Cons by (subst (asm) gw_decode.simps) simp
    next
      case 3
      obtain flag req m1 where dec: "decodeOuch lib d cid m = Some (flag, req, m1)" and ok1: "tokens_ok m1"
        by (rule decode_ok [OF ok, of d lib cid]) (simp add: Cons, rule that)
      obtain rs1 where rs1: "gw_decode lib cid (drop ?n d) m1 = Some (rest, m', rs1)" "rs = (if flag then req # rs1 else rs1)"
        using less.prems(2) 3 dec unfolding Cons
        by (subst (asm) gw_decode.simps) (auto simp: Let_def split: Option.bind_splits if_splits)
      have "length (drop ?n d) < length d" using 3 Cons by simp
      from less.hyps [OF this decode_ids [OF less.prems(1) dec ok1] rs1(1)] rs1(2) show ?thesis
        by (cases flag) simp_all
    qed
  qed
qed

section \<open>The invariant of the gateway\<close>

definition gw_inv :: "(RecvClientRequest list \<Rightarrow> RecvClientRequest list) \<Rightarrow> ('q \<Rightarrow> MEClientRequest \<Rightarrow> 'q option) \<Rightarrow>
    ('q \<Rightarrow> MEClientRequest list) \<Rightarrow> nat \<Rightarrow> nat \<Rightarrow> 'q OrderServer \<Rightarrow> bool" where
  "gw_inv srt push view sz n s \<longleftrightarrow> sort_spec srt \<and> queue_spec push view \<and> conns_ok s \<and>
     unat (nextClientId s) + n < 2 ^ 64 \<and> fifo_ok (os_fifo s) \<and>
     ids_ok sz (tokenManager s) (accepted view (os_fifo s))"

lemma gw_inv_less: "gw_inv srt push view sz (Suc n) s \<Longrightarrow> gw_inv srt push view sz n s"
  by (simp add: gw_inv_def)

lemma gw_inv_init:
  assumes "sort_spec srt" "queue_spec push view" "view q = []" "tokenPoolSz + 1 < 2 ^ 64" "n < 2 ^ 64 - 1"
  shows "gw_inv srt push view tokenPoolSz n (order_server_init fifoPending tokenPoolSz q)"
  using assms conns_init [of fifoPending tokenPoolSz q] fifo_init_ok [of fifoPending q] tokens_init_ok [OF assms(4)]
  by (simp add: gw_inv_def order_server_init_def ids_ok_def accepted_def) (simp add: fifo_init_def token_manager_init_def)

lemma publish_accepted:
  assumes "fifo_ok f" and "sort_spec srt" and "queue_spec push view"
  shows "mset (accepted view (publishPendingOrders srt push f)) = mset (accepted view f)"
proof -
  let ?f = "publishPendingOrders srt push f"
  obtain out where out: "view (fifo_requests ?f) = view (fifo_requests f) @ map snd out"
    "mset (out @ pending ?f) = mset (pending f)"
    using publish_ok(2) [OF assms refl] by (auto simp: moved_def)
  have "mset (map snd out) + mset (map snd (pending ?f)) = mset (map snd (pending f))"
    using arg_cong [OF out(2), of "image_mset snd"] by simp
  with out(1) show ?thesis by (simp add: accepted_def)
qed

lemma gw_publish_inv:
  assumes "gw_inv srt push view sz n s"
  shows "gw_inv srt push view sz n (s\<lparr>os_fifo := publishPendingOrders srt push (os_fifo s)\<rparr>)"
proof -
  let ?f = "publishPendingOrders srt push (os_fifo s)"
  have spec: "fifo_ok (os_fifo s)" "sort_spec srt" "queue_spec push view" using assms by (simp_all add: gw_inv_def)
  have "ids_ok sz (tokenManager s) (accepted view ?f)"
    by (rule ids_ok_perm [OF publish_accepted [OF spec, symmetric]]) (use assms in \<open>simp add: gw_inv_def\<close>)
  with assms publish_ok(1) [OF spec refl] show ?thesis by (simp add: gw_inv_def)
qed

text \<open>The framing loop, as a statement on what is accepted.\<close>

lemma recv_accepted:
  assumes "view (fifo_requests f') = view (fifo_requests f) @ map snd out"
    and "mset (out @ pending f') = mset (pending f) + mset (map (Pair t) rs)"
  shows "mset (accepted view f') = mset (accepted view f) + mset rs"
proof -
  have "mset (map snd out) + mset (map snd (pending f')) = mset (map snd (pending f)) + mset rs"
    using arg_cong [OF assms(2), of "image_mset snd"] by (simp add: comp_def image_mset.compositionality)
  then show ?thesis by (simp add: accepted_def assms(1))
qed

lemma recv_accepts:
  assumes "tokens_ok m" and "fifo_ok f" and "sort_spec srt" and "queue_spec push view"
    and "recv_loop lib srt push cid t d (m, f) = Some (rest, m', f')"
  shows "\<exists>rs. gw_decode lib cid d m = Some (rest, m', rs) \<and> tokens_ok m' \<and> fifo_ok f' \<and>
    mset (accepted view f') = mset (accepted view f) + mset rs"
proof -
  obtain rest1 m1 rs f1 out where L: "gw_decode lib cid d m = Some (rest1, m1, rs)"
    "recv_loop lib srt push cid t d (m, f) = Some (rest1, m1, f1)" "tokens_ok m1" "fifo_ok f1"
    "view (fifo_requests f1) = view (fifo_requests f) @ map snd out"
    "mset (out @ pending f1) = mset (pending f) + mset (map (Pair t) rs)"
    using recv_loop_ok [OF assms(1-4), of lib cid d t] by blast
  with recv_accepted [OF L(5,6)] assms(5) show ?thesis by simp
qed

lemma gw_recv_inv:
  assumes inv: "gw_inv srt push view sz (Suc n) s"
  shows "\<exists>s'. onRecv lib srt push socket t s = Some s' \<and> gw_inv srt push view sz n s'"
proof -
  define s1 where "s1 = (if map_of (fdToClientId s) (snd socket) = None then registerClient socket s else s)"
  have room: "nextClientId s < nextClientId s + 1" "unat (nextClientId s + 1) = Suc (unat (nextClientId s))"
    using inv by (simp_all add: gw_inv_def word_less_nat_alt unat_word_ariths(1))
  have same: "tokenManager s1 = tokenManager s" "os_fifo s1 = os_fifo s" "inbound_data s1 = inbound_data s"
    by (simp_all add: s1_def registerClient_def Let_def)
  have conns: "conns_ok s1" using inv registerClient_ok [of s socket] room(1) by (simp add: s1_def gw_inv_def)
  have nxt: "unat (nextClientId s1) + n < 2 ^ 64"
    using inv room(2) by (simp add: s1_def gw_inv_def registerClient_def Let_def)
  obtain cid where cid: "map_of (fdToClientId s1) (snd socket) = Some cid"
    by (cases "map_of (fdToClientId s) (snd socket)") (auto simp: s1_def registerClient_def Let_def)
  have pre: "tokens_ok (tokenManager s1)" "fifo_ok (os_fifo s1)" "sort_spec srt" "queue_spec push view"
    using inv by (simp_all add: gw_inv_def ids_ok_def same)
  obtain rest m' f' where run: "recv_loop lib srt push cid t (inbound_data s1 (fst socket)) (tokenManager s1, os_fifo s1) = Some (rest, m', f')"
    using recv_loop_ok [OF pre, of lib cid "inbound_data s1 (fst socket)" t] by blast
  obtain rs where loop: "gw_decode lib cid (inbound_data s1 (fst socket)) (tokenManager s1) = Some (rest, m', rs)"
    "fifo_ok f'" "mset (accepted view f') = mset (accepted view (os_fifo s1)) + mset rs"
    using recv_accepts [OF pre run] by blast
  have perm: "mset (accepted view (os_fifo s1) @ rs) = mset (accepted view f')" by (simp add: loop(3))
  have "ids_ok sz (tokenManager s1) (accepted view (os_fifo s1))" using inv by (simp add: gw_inv_def same)
  from ids_ok_perm [OF perm gw_decode_ids [OF this loop(1)]] have ids: "ids_ok sz m' (accepted view f')" .
  have "onRecv lib srt push socket t s =
      Some (s1\<lparr>tokenManager := m', os_fifo := f', inbound_data := (inbound_data s1)(fst socket := rest)\<rparr>)"
    using cid run by (simp add: onRecv_def Let_def flip: s1_def)
  moreover have "gw_inv srt push view sz n
      (s1\<lparr>tokenManager := m', os_fifo := f', inbound_data := (inbound_data s1)(fst socket := rest)\<rparr>)"
    using conns nxt loop(2) ids pre by (simp add: gw_inv_def)
  ultimately show ?thesis by blast
qed

lemma gw_step_inv:
  assumes inv: "gw_inv srt push view sz (Suc n) s"
  shows "\<exists>s'. gw_step lib srt push e s = Some s' \<and> gw_inv srt push view sz n s'"
proof (cases e)
  case (DrainResponses rs)
  with gw_inv_less [OF inv] show ?thesis by (simp add: gw_step_def gw_inv_def drain_state)
next
  case PublishPending
  with gw_publish_inv [OF gw_inv_less [OF inv]] show ?thesis by (simp add: gw_step_def)
next
  case (ServerRecv socket t bytes)
  have "gw_inv srt push view sz (Suc n) (s\<lparr>inbound_data := x\<rparr>)" for x
    using inv by (simp add: gw_inv_def)
  from gw_recv_inv [OF this] show ?thesis by (simp add: ServerRecv gw_step_def)
next
  case ServerRecvFinished
  with gw_publish_inv [OF gw_inv_less [OF inv]] show ?thesis by (simp add: gw_step_def onRecvFinished_def)
next
  case (ServerDisconnect socket)
  have "conns_ok (onDisconnect socket s)"
    by (rule onDisconnect_ok(1)) (use inv in \<open>simp add: gw_inv_def\<close>)
  moreover have "nextClientId (onDisconnect socket s) = nextClientId s" "os_fifo (onDisconnect socket s) = os_fifo s"
    "tokenManager (onDisconnect socket s) = tokenManager s"
    by (simp_all add: onDisconnect_def split: option.split)
  ultimately show ?thesis using gw_inv_less [OF inv] by (simp add: ServerDisconnect gw_step_def gw_inv_def)
qed

interpretation gateway: machine "gw_step lib srt push" "\<lambda>_. True" "gw_inv srt push view sz" for lib srt push view sz
  by unfold_locales (rule gw_step_inv)

lemma gateway_run_inv:
  assumes "sort_spec srt" and "queue_spec push view" and "view q = []" and "tokenPoolSz + 1 < 2 ^ 64"
    and "length (concat (map turn_events turns)) < 2 ^ 64 - 1"
  shows "\<exists>s. order_server_run lib srt push turns (order_server_init fifoPending tokenPoolSz q) = Some s \<and>
    gw_inv srt push view tokenPoolSz 0 s"
proof -
  let ?es = "concat (map turn_events turns)"
  have "gw_inv srt push view tokenPoolSz (length ?es + 0) (order_server_init fifoPending tokenPoolSz q)"
    using gw_inv_init [where n = "length ?es", OF assms] by simp
  from gateway.steps_ok [OF this] show ?thesis unfolding order_server_run_steps by (simp add: list_all_iff)
qed

section \<open>What reaches the engine\<close>

text \<open>There are never more orders than tokens.\<close>

lemma introduced_bound:
  assumes "ids_ok sz m R"
  shows "length (introduced_ids R) \<le> sz"
proof -
  let ?I = "unat ` set (introduced_ids R)"
  have "?I \<subseteq> {1..sz}"
    using introduced_owned [OF assms] assms
    by (fastforce simp: ids_ok_def tokens_ok_def word_less_nat_alt word_le_nat_alt)
  then have "card ?I \<le> sz" using card_mono [of "{1..sz}" ?I] by simp
  moreover have "card ?I = length (introduced_ids R)"
    using assms by (simp add: ids_ok_def card_image inj_on_def word_unat_eq_iff distinct_card)
  ultimately show ?thesis by simp
qed

lemma ids_ok_prefix: "ids_ok sz m (R @ R') \<Longrightarrow> ids_ok sz m R"
  by (auto simp: ids_ok_def)

lemma gw_stream_ok:
  assumes "gw_inv srt push view sz n s" and "sz \<le> cap"
    and "list_all (\<lambda>r. unat (rq_ticker_id r) < N \<and> (rq_action r \<noteq> CANCEL \<longrightarrow> fits (rq_price r))) (view (fifo_requests (os_fifo s)))"
  shows "stream_ok N cap fits (view (fifo_requests (os_fifo s)))"
proof -
  have "ids_ok sz (tokenManager s) (view (fifo_requests (os_fifo s)))"
    using assms(1) ids_ok_prefix by (auto simp: gw_inv_def accepted_def)
  with introduced_bound [OF this] assms(2,3) show ?thesis by (simp add: stream_ok_def ids_ok_def)
qed

end
