(* ===== verification/Itch.thy ===== *)
theory Itch
  imports Types
begin

unbundle bit_operations_syntax

text \<open>
  The ITCH encoder, \<^verbatim>\<open>src/src/network/protocol/itch_encoder.h\<close>. The message structs, type codes and
  byte-swap functions are QuantLink's and enter as the record \<open>itch_lib\<close>; \<open>il_bytes\<close> is the memory
  image of a struct \<open>il_image64\<close> that of a 64-bit integer and
  \<open>il_read64\<close> the reading of one. Fields hold the stored values, in
  network byte order. The clock is read once per message and is an argument.
\<close>

datatype itch_msg =
  AddOrder (im_type: char) (im_stock_locate: uint16) (im_tracking: uint16) (im_timestamp: "uint8 list")
    (im_order_ref: uint64) (im_buy_sell: char) (im_shares: uint32) (im_stock: uint64) (im_price: uint32)
| OrderDelete (im_type: char) (im_stock_locate: uint16) (im_tracking: uint16) (im_timestamp: "uint8 list")
    (im_order_ref: uint64)
| OrderExecute (im_type: char) (im_stock_locate: uint16) (im_tracking: uint16) (im_timestamp: "uint8 list")
    (im_order_ref: uint64) (im_executed_shares: uint32) (im_match_number: uint64)
| OrderReplace (im_type: char) (im_stock_locate: uint16) (im_tracking: uint16) (im_timestamp: "uint8 list")
    (im_original_order_ref: uint64) (im_new_order_ref: uint64) (im_shares: uint32) (im_price: uint32)

record itch_lib =
  il_swap16 :: "uint16 \<Rightarrow> uint16"
  il_swap32 :: "uint32 \<Rightarrow> uint32"
  il_swap64 :: "uint64 \<Rightarrow> uint64"
  il_ADD_ORDER :: char
  il_ORDER_DELETE :: char
  il_ORDER_EXECUTED :: char
  il_ORDER_REPLACE :: char
  il_bytes :: "itch_msg \<Rightarrow> char list"
  il_image64 :: "uint64 \<Rightarrow> char list"
  il_read64 :: "char list \<Rightarrow> uint64"

section \<open>The operations of the source\<close>

definition writeTimestamp :: "uint64 \<Rightarrow> uint8 list" where
  "writeTimestamp ns_since_midnight =
    [ucast (drop_bit 40 ns_since_midnight AND 0xFF), ucast (drop_bit 32 ns_since_midnight AND 0xFF),
     ucast (drop_bit 24 ns_since_midnight AND 0xFF), ucast (drop_bit 16 ns_since_midnight AND 0xFF),
     ucast (drop_bit 8 ns_since_midnight AND 0xFF), ucast (drop_bit 0 ns_since_midnight AND 0xFF)]"

definition getStockLocate :: "TickerId \<Rightarrow> uint16" where
  "getStockLocate ticker_id = ucast ticker_id"

definition copyStock :: "itch_lib \<Rightarrow> TickerId \<Rightarrow> uint64" where
  "copyStock lib ticker_id = il_swap64 lib (ucast ticker_id)"

text \<open>\<open>None\<close> stands for the return value 0: nothing was written.\<close>

definition encode :: "itch_lib \<Rightarrow> uint64 \<Rightarrow> MEMarketUpdate \<Rightarrow> itch_msg option" where
  "encode lib now u =
    (let locate = il_swap16 lib (getStockLocate (mu_ticker_id u)); ts = writeTimestamp now in
     case mu_type u of
       U_ADD \<Rightarrow> Some (AddOrder (il_ADD_ORDER lib) locate 0 ts (il_swap64 lib (mu_market_order_id u))
         (if mu_side u = BUY then CHR ''B'' else CHR ''S'') (il_swap32 lib (mu_qty u))
         (copyStock lib (mu_ticker_id u)) (il_swap32 lib (ucast (mu_price u))))
     | U_CANCEL \<Rightarrow> Some (OrderDelete (il_ORDER_DELETE lib) locate 0 ts (il_swap64 lib (mu_market_order_id u)))
     | U_TRADE \<Rightarrow> Some (OrderExecute (il_ORDER_EXECUTED lib) locate 0 ts (il_swap64 lib (mu_market_order_id u))
         (il_swap32 lib (mu_qty u)) (il_swap64 lib (mu_match_id u)))
     | U_MODIFY \<Rightarrow> Some (OrderReplace (il_ORDER_REPLACE lib) locate 0 ts (il_swap64 lib (mu_market_order_id u))
         (il_swap64 lib (mu_new_order_id u)) (il_swap32 lib (mu_qty u)) (il_swap32 lib (ucast (mu_price u))))
     | U_SNAPSHOT_START \<Rightarrow> None
     | U_SNAPSHOT_END \<Rightarrow> None
     | U_CLEAR \<Rightarrow> None)"

section \<open>What the code relies on\<close>

text \<open>Byte swapping is its own inverse, and every struct has at least one byte and fits the buffer.\<close>

definition itch_spec :: "itch_lib \<Rightarrow> bool" where
  "itch_spec lib \<longleftrightarrow> (\<forall>x. il_swap16 lib (il_swap16 lib x) = x) \<and> (\<forall>x. il_swap32 lib (il_swap32 lib x) = x) \<and>
     (\<forall>x. il_swap64 lib (il_swap64 lib x) = x) \<and>
     (\<forall>msg. 0 < length (il_bytes lib msg) \<and> length (il_bytes lib msg) \<le> ITCH_MAX_MSG_SIZE)"

definition encodable :: "MEMarketUpdate \<Rightarrow> bool" where
  "encodable u \<longleftrightarrow> mu_type u \<in> {U_ADD, U_CANCEL, U_MODIFY, U_TRADE}"

lemma encode_None_iff: "encode lib now u = None \<longleftrightarrow> \<not> encodable u"
  by (simp add: encode_def encodable_def Let_def split: UpdateType.split)

section \<open>Reading back\<close>

lemma ucast_low32:
  assumes "unat (p :: uint64) < 2 ^ 32"
  shows "(ucast (ucast p :: uint32) :: uint64) = p"
proof -
  have "unat p mod 2 ^ 32 = unat p" using assms by simp
  then show ?thesis
    by (simp add: word_unat_eq_iff unsigned_ucast_eq take_bit_eq_mod unat_mod_distrib)
qed

lemma ucast_low16:
  assumes "unat (t :: uint32) < 2 ^ 16"
  shows "(ucast (ucast t :: uint16) :: uint32) = t"
proof -
  have "unat t mod 2 ^ 16 = unat t" using assms by simp
  then show ?thesis
    by (simp add: word_unat_eq_iff unsigned_ucast_eq take_bit_eq_mod unat_mod_distrib)
qed

text \<open>What a subscriber can rebuild from an add message, and from the six timestamp bytes.\<close>

definition read_add :: "itch_lib \<Rightarrow> itch_msg \<Rightarrow> TickerId \<times> OrderId \<times> Side \<times> Price \<times> Quantity" where
  "read_add lib msg = (ucast (il_swap64 lib (im_stock msg)), il_swap64 lib (im_order_ref msg),
     if im_buy_sell msg = CHR ''B'' then BUY else SELL, ucast (il_swap32 lib (im_price msg)),
     il_swap32 lib (im_shares msg))"

fun read_be :: "uint8 list \<Rightarrow> nat \<Rightarrow> nat" where
  "read_be [] acc = acc"
| "read_be (b # bs) acc = read_be bs (256 * acc + unat b)"

lemma ucast_up_down: "(ucast (ucast (t :: uint32) :: uint64) :: uint32) = t"
  by (simp add: word_unat_eq_iff unsigned_ucast_eq take_bit_eq_mod unat_mod_distrib)

lemma read_add_encode:
  assumes "itch_spec lib" and "mu_type u = U_ADD" and "unat (mu_price u) < 2 ^ 32" and "encode lib now u = Some msg"
  shows "read_add lib msg = (mu_ticker_id u, mu_market_order_id u, mu_side u, mu_price u, mu_qty u)"
proof -
  have "mu_side u = BUY \<or> mu_side u = SELL" by (cases "mu_side u") auto
  then show ?thesis
    using assms ucast_low32 [OF assms(3)]
    by (auto simp: encode_def read_add_def itch_spec_def copyStock_def Let_def ucast_up_down)
qed

lemma unat_byte: "unat (ucast (drop_bit n (x :: uint64) AND 0xFF) :: uint8) = unat x div 2 ^ n mod 256"
proof -
  have "(drop_bit n x AND 0xFF) = take_bit 8 (drop_bit n x)"
    by (simp add: take_bit_eq_mask mask_eq_exp_minus_1)
  then have "unat (ucast (drop_bit n x AND 0xFF) :: uint8) = take_bit 8 (unat (drop_bit n x))"
    by (simp add: unsigned_ucast_eq unsigned_take_bit_eq)
  moreover have "unat (drop_bit n x) = unat x div 2 ^ n"
    by (simp add: unat_drop_bit_eq drop_bit_eq_div [of n "unat x"] del: drop_bit_eq_div)
  ultimately show ?thesis by (simp add: take_bit_eq_mod)
qed

lemma read_timestamp: "read_be (writeTimestamp ns) 0 = unat ns mod 2 ^ 48"
proof -
  have *: "unat ns mod 2 ^ (n + 8) = 2 ^ n * (unat ns div 2 ^ n mod 256) + unat ns mod 2 ^ n" for n
    using mod_mult2_eq [of "unat ns" "2 ^ n" 256] by (simp add: power_add)
  show ?thesis
    using *[of 40] *[of 32] *[of 24] *[of 16] *[of 8] *[of 0]
    by (simp add: writeTimestamp_def unat_byte del: drop_bit_0)
qed

end
