(* ===== verification/Publisher.thy ===== *)
theory Publisher
  imports Itch
begin

text \<open>
  The market data publisher, \<^verbatim>\<open>src/src/network/market/marketdata_publisher.h\<close>: it numbers the
  engine's market updates, encodes each once, sends the frame to the incremental feed and
  passes it to the snapshot streamer. The fan-out socket is outside the repository; the frames
  handed to it and the messages pushed to the streamer's queue are logs.
\<close>

record SnapshotUpdate =
  su_update :: MEMarketUpdate
  su_seq_num :: uint64
  su_bytes :: "char list"

record MarketDataPublisher =
  next_seq_num :: uint64
  published_count :: uint64
  incremental_frames :: "char list list"
  streamer_updates :: "SnapshotUpdate list"

section \<open>The operations of the source\<close>

definition publisher_init :: MarketDataPublisher where
  "publisher_init = \<lparr>next_seq_num = 1, published_count = 0, incremental_frames = [], streamer_updates = []\<rparr>"

definition sendToIncrementalNetwork :: "itch_lib \<Rightarrow> char list \<Rightarrow> MarketDataPublisher \<Rightarrow> MarketDataPublisher" where
  "sendToIncrementalNetwork lib data p =
    p\<lparr>incremental_frames := incremental_frames p @ [il_image64 lib (il_swap64 lib (next_seq_num p)) @ data]\<rparr>"

text \<open>
  One turn of the loop in \<^verbatim>\<open>run\<close>: the update the queue gave, with the clock reading of its encoding,
  or nothing. A message larger than the buffer \<^verbatim>\<open>bytes_\<close> would overflow it: no defined result.
\<close>

definition publisher_turn :: "itch_lib \<Rightarrow> (MEMarketUpdate \<times> uint64) option \<Rightarrow> MarketDataPublisher \<Rightarrow>
    MarketDataPublisher option" where
  "publisher_turn lib poll p =
    (case poll of
       None \<Rightarrow> Some p
     | Some (update, now) \<Rightarrow> do {
         p \<leftarrow> (case encode lib now update of
             None \<Rightarrow> Some p
           | Some msg \<Rightarrow>
               let bytes = il_bytes lib msg in
               if length bytes > ITCH_MAX_MSG_SIZE then None
               else if length bytes = 0 then Some p
               else
                 let snap = \<lparr>su_update = update, su_seq_num = next_seq_num p, su_bytes = bytes\<rparr>;
                     p = sendToIncrementalNetwork lib bytes p
                 in Some (p\<lparr>streamer_updates := streamer_updates p @ [snap]\<rparr>));
         let seq = next_seq_num p + 1;
         Some (p\<lparr>next_seq_num := seq, published_count := seq - 1\<rparr>)
       })"

fun publisher_run :: "itch_lib \<Rightarrow> (MEMarketUpdate \<times> uint64) option list \<Rightarrow> MarketDataPublisher \<Rightarrow>
    MarketDataPublisher option" where
  "publisher_run lib [] p = Some p"
| "publisher_run lib (x # xs) p = do { p \<leftarrow> publisher_turn lib x p; publisher_run lib xs p }"

definition publishedCount :: "MarketDataPublisher \<Rightarrow> uint64" where
  "publishedCount p = published_count p"

section \<open>The feed\<close>

definition frame :: "itch_lib \<Rightarrow> SnapshotUpdate \<Rightarrow> char list" where
  "frame lib snap = il_image64 lib (il_swap64 lib (su_seq_num snap)) @ su_bytes snap"

text \<open>The feed a list of updates should give: numbered from one, in order, one frame each.\<close>

definition numbered_snap :: "itch_lib \<Rightarrow> nat \<Rightarrow> MEMarketUpdate \<times> uint64 \<Rightarrow> SnapshotUpdate" where
  "numbered_snap lib i x = \<lparr>su_update = fst x, su_seq_num = of_nat i + 1,
     su_bytes = il_bytes lib (the (encode lib (snd x) (fst x)))\<rparr>"

definition feed :: "itch_lib \<Rightarrow> (MEMarketUpdate \<times> uint64) list \<Rightarrow> SnapshotUpdate list" where
  "feed lib us = map (\<lambda>i. numbered_snap lib i (us ! i)) [0..<length us]"

lemma length_feed [simp]: "length (feed lib us) = length us"
  by (simp add: feed_def)

lemma feed_append [simp]: "feed lib (us @ [x]) = feed lib us @ [numbered_snap lib (length us) x]"
  by (simp add: feed_def nth_append)

lemma nth_feed: "i < length us \<Longrightarrow> feed lib us ! i = numbered_snap lib i (us ! i)"
  by (simp add: feed_def)

definition published :: "itch_lib \<Rightarrow> (MEMarketUpdate \<times> uint64) list \<Rightarrow> MarketDataPublisher \<Rightarrow> bool" where
  "published lib us p \<longleftrightarrow> next_seq_num p = of_nat (length us) + 1 \<and> published_count p = of_nat (length us) \<and>
     streamer_updates p = feed lib us \<and> incremental_frames p = map (frame lib) (feed lib us)"

lemma published_init: "published lib [] publisher_init"
  by (simp add: published_def publisher_init_def feed_def)

lemma publisher_turn_ok:
  assumes spec: "itch_spec lib" and p: "published lib us p" and e: "encodable u"
  shows "\<exists>p'. publisher_turn lib (Some (u, now)) p = Some p' \<and> published lib (us @ [(u, now)]) p'"
proof -
  obtain msg where msg: "encode lib now u = Some msg"
    using e encode_None_iff [of lib now u] by auto
  have len: "\<not> length (il_bytes lib msg) > ITCH_MAX_MSG_SIZE" "length (il_bytes lib msg) \<noteq> 0"
    using spec by (auto simp: itch_spec_def not_less)
  show ?thesis
    using p msg len
    by (auto simp: publisher_turn_def published_def Let_def sendToIncrementalNetwork_def numbered_snap_def frame_def)
qed

text \<open>Empty polls aside, a run publishes its updates one by one.\<close>

lemma publisher_run_ok:
  assumes "itch_spec lib" and "published lib us p" and "list_all (\<lambda>x. encodable (fst x)) (polled polls)"
  shows "\<exists>p'. publisher_run lib polls p = Some p' \<and> published lib (us @ polled polls) p'"
  using assms(2,3)
proof (induction polls arbitrary: us p)
  case (Cons x polls)
  show ?case
  proof (cases x)
    case None
    with Cons show ?thesis by (simp add: publisher_turn_def)
  next
    case (Some y)
    obtain u now where y: "y = (u, now)" by (cases y)
    have "encodable u" using Cons.prems(2) Some y by simp
    from publisher_turn_ok [OF assms(1) Cons.prems(1) this, of now] obtain p1 where
      "publisher_turn lib x p = Some p1" "published lib (us @ [y]) p1" by (auto simp: Some y)
    with Cons.IH [of "us @ [y]" p1] Cons.prems(2) Some y show ?thesis by simp
  qed
qed simp

end
