(* ===== verification/Snapshot.thy ===== *)
theory Snapshot
  imports Publisher
begin

unbundle bit_operations_syntax

text \<open>
  The snapshot streamer, \<^verbatim>\<open>src/src/network/market/snapshot_stream.h\<close>: a shadow copy of every book
  built from the published updates, a ring of the latest frames, and the replies to snapshot
  and replay requests. A reply is the list of bytes handed to \<^verbatim>\<open>sendAll\<close>;
  theory Sockets adds the socket calls. The order in which an \<^verbatim>\<open>unordered_map\<close> is traversed is unspecified and is the
  parameter \<open>iter\<close>; the clock readings of a bake are the parameter \<open>clk\<close>.
\<close>

definition REPLAY_CAPACITY :: nat where
  "REPLAY_CAPACITY = 8192"

definition SNAP_CTRL_START :: uint16 where "SNAP_CTRL_START = 0xBBBB"
definition SNAP_CTRL_CLEAR :: uint16 where "SNAP_CTRL_CLEAR = 0xCCCC"
definition SNAP_CTRL_END :: uint16 where "SNAP_CTRL_END = 0xEEEE"

type_synonym shadow = "(OrderId \<times> MEMarketUpdate) list"

record ReplayEntry =
  re_seq_be :: "char list"
  re_bytes :: "char list"
  re_len :: uint16

record SnapshotStreamer =
  shadow_book :: "shadow list"
  last_seq_num :: uint64
  dirty :: bool
  replay_buffer :: "ReplayEntry list"
  snapshot_buf :: "char list"

section \<open>The operations of the source\<close>

definition empty_entry :: ReplayEntry where
  "empty_entry = \<lparr>re_seq_be = replicate 8 (CHR 0x00), re_bytes = replicate ITCH_MAX_MSG_SIZE (CHR 0x00), re_len = 0\<rparr>"

definition streamer_init :: "nat \<Rightarrow> SnapshotStreamer" where
  "streamer_init maxTickers = \<lparr>shadow_book = replicate maxTickers [], last_seq_num = 0, dirty = False,
     replay_buffer = replicate REPLAY_CAPACITY empty_entry, snapshot_buf = []\<rparr>"

definition replay_index :: "uint64 \<Rightarrow> nat" where
  "replay_index seq = unat ((seq - 1) AND (of_nat REPLAY_CAPACITY - 1))"

definition writeReplayEntry :: "itch_lib \<Rightarrow> SnapshotUpdate \<Rightarrow> SnapshotStreamer \<Rightarrow> SnapshotStreamer" where
  "writeReplayEntry lib snap s =
    (let i = replay_index (su_seq_num snap);
         e = replay_buffer s ! i;
         len = length (su_bytes snap)
     in s\<lparr>replay_buffer := (replay_buffer s)[i :=
       \<lparr>re_seq_be = il_image64 lib (il_swap64 lib (su_seq_num snap)),
        re_bytes = su_bytes snap @ drop len (re_bytes e), re_len = of_nat len\<rparr>]\<rparr>)"

text \<open>The update of one ticker's shadow book.\<close>

definition shadow_apply :: "MEMarketUpdate \<Rightarrow> shadow \<Rightarrow> shadow" where
  "shadow_apply update orders =
    (case mu_type update of
       U_ADD \<Rightarrow> AList.update (mu_market_order_id update) update orders
     | U_CANCEL \<Rightarrow> AList.delete (mu_market_order_id update) orders
     | U_MODIFY \<Rightarrow>
         let replacement = update\<lparr>mu_market_order_id := mu_new_order_id update, mu_new_order_id := OrderId_INVALID\<rparr>
         in AList.update (mu_market_order_id replacement) replacement
              (AList.delete (mu_market_order_id update) orders)
     | U_TRADE \<Rightarrow>
         (case map_of orders (mu_market_order_id update) of
            None \<Rightarrow> orders
          | Some r \<Rightarrow>
              if mu_qty r \<le> mu_qty update then AList.delete (mu_market_order_id update) orders
              else AList.update (mu_market_order_id update) (r\<lparr>mu_qty := mu_qty r - mu_qty update\<rparr>) orders)
     | _ \<Rightarrow> orders)"

text \<open>\<^verbatim>\<open>shadow_book_[ticker]\<close> is not bounds-checked.\<close>

definition applyToBook :: "MEMarketUpdate \<Rightarrow> SnapshotStreamer \<Rightarrow> SnapshotStreamer option" where
  "applyToBook update s =
    (let ticker = unat (mu_ticker_id update) in
     if mu_type update \<in> {U_ADD, U_CANCEL, U_MODIFY, U_TRADE} then
       if ticker < length (shadow_book s) then
         Some (s\<lparr>shadow_book := (shadow_book s)[ticker := shadow_apply update (shadow_book s ! ticker)], dirty := True\<rparr>)
       else None
     else Some s)"

text \<open>The drain of the publisher's queue in \<^verbatim>\<open>run\<close>.\<close>

fun streamer_drain :: "itch_lib \<Rightarrow> SnapshotUpdate list \<Rightarrow> SnapshotStreamer \<Rightarrow> SnapshotStreamer option" where
  "streamer_drain lib [] s = Some s"
| "streamer_drain lib (snap # snaps) s = do {
     s \<leftarrow> applyToBook (su_update snap) s;
     let s = writeReplayEntry lib snap s;
     let s = s\<lparr>last_seq_num := su_seq_num snap\<rparr>;
     streamer_drain lib snaps s
   }"

definition ctrl_msg :: "itch_lib \<Rightarrow> uint16 \<Rightarrow> uint64 \<Rightarrow> uint64 \<Rightarrow> itch_msg" where
  "ctrl_msg lib code value now = OrderDelete (il_ORDER_DELETE lib) (il_swap16 lib code) 0 (writeTimestamp now) (il_swap64 lib value)"

text \<open>The messages of a snapshot, each a function of its clock reading.\<close>

definition snapshot_msgs :: "itch_lib \<Rightarrow> (shadow \<Rightarrow> shadow) \<Rightarrow> SnapshotStreamer \<Rightarrow> (uint64 \<Rightarrow> itch_msg option) list" where
  "snapshot_msgs lib iter s =
    [\<lambda>now. Some (ctrl_msg lib SNAP_CTRL_START (last_seq_num s) now)] @
    concat (map (\<lambda>ticker_id.
      (\<lambda>now. Some (ctrl_msg lib SNAP_CTRL_CLEAR (of_nat ticker_id) now)) #
      map (\<lambda>(_, order) now. encode lib now (order\<lparr>mu_type := U_ADD\<rparr>)) (iter (shadow_book s ! ticker_id)))
      [0..<length (shadow_book s)]) @
    [\<lambda>now. Some (ctrl_msg lib SNAP_CTRL_END (last_seq_num s) now)]"

definition bake_bytes :: "itch_lib \<Rightarrow> (nat \<Rightarrow> uint64) \<Rightarrow> (uint64 \<Rightarrow> itch_msg option) list \<Rightarrow> char list" where
  "bake_bytes lib clk msgs = concat (map (\<lambda>(k, f). case f (clk k) of None \<Rightarrow> [] | Some m \<Rightarrow> il_bytes lib m)
     (enumerate 0 msgs))"

definition bakeSnapshot :: "itch_lib \<Rightarrow> (shadow \<Rightarrow> shadow) \<Rightarrow> (nat \<Rightarrow> uint64) \<Rightarrow> SnapshotStreamer \<Rightarrow> SnapshotStreamer" where
  "bakeSnapshot lib iter clk s = s\<lparr>snapshot_buf := bake_bytes lib clk (snapshot_msgs lib iter s), dirty := False\<rparr>"

definition serveSnapshot :: "itch_lib \<Rightarrow> (shadow \<Rightarrow> shadow) \<Rightarrow> (nat \<Rightarrow> uint64) \<Rightarrow> SnapshotStreamer \<Rightarrow>
    char list \<times> SnapshotStreamer" where
  "serveSnapshot lib iter clk s =
    (let s = (if dirty s \<or> snapshot_buf s = [] then bakeSnapshot lib iter clk s else s)
     in (snapshot_buf s, s))"

text \<open>\<^verbatim>\<open>for (seq = \<dots>; seq <= last; ++seq)\<close>, on 64-bit integers.\<close>

partial_function (option) replay_loop :: "ReplayEntry list \<Rightarrow> uint64 \<Rightarrow> uint64 \<Rightarrow> char list \<Rightarrow> char list option" where
  "replay_loop buf lst seq scratch =
    (if seq \<le> lst then
       let e = buf ! replay_index seq in
       replay_loop buf lst (seq + 1) (scratch @ re_seq_be e @ take (unat (re_len e)) (re_bytes e))
     else Some scratch)"

definition serveReplay :: "SnapshotStreamer \<Rightarrow> uint64 \<Rightarrow> char list option" where
  "serveReplay s client_seq =
    (if client_seq \<ge> last_seq_num s then Some [CHR ''C'']
     else
       let oldest_replayable = (if last_seq_num s > of_nat REPLAY_CAPACITY
                                then last_seq_num s - of_nat REPLAY_CAPACITY else 0)
       in if client_seq < oldest_replayable then Some [CHR ''N'']
          else map_option (\<lambda>scratch. CHR ''R'' # scratch)
                 (replay_loop (replay_buffer s) (last_seq_num s) (client_seq + 1) []))"

text \<open>
  One request: \<open>req\<close> is what the client sends before it stops or the deadline passes. The reply is
  empty when the request is incomplete or unknown.
\<close>

definition handleClient :: "itch_lib \<Rightarrow> (shadow \<Rightarrow> shadow) \<Rightarrow> (nat \<Rightarrow> uint64) \<Rightarrow> char list \<Rightarrow> SnapshotStreamer \<Rightarrow>
    (char list \<times> SnapshotStreamer) option" where
  "handleClient lib iter clk req s =
    (case req of
       [] \<Rightarrow> Some ([], s)
     | c # rest \<Rightarrow>
         if c = CHR ''S'' then Some (serveSnapshot lib iter clk s)
         else if c = CHR ''R'' then
           if length rest < 8 then Some ([], s)
           else map_option (\<lambda>reply. (reply, s)) (serveReplay s (il_swap64 lib (il_read64 lib (take 8 rest))))
         else Some ([], s))"

text \<open>
  \<^verbatim>\<open>serveRequests\<close> answers the connections that are waiting, each with the clock readings of its
  answer; \<^verbatim>\<open>run\<close> drains the queue and then, when a connection waits, serves. The result lists the
  replies in order.
\<close>

fun serveRequests :: "itch_lib \<Rightarrow> (shadow \<Rightarrow> shadow) \<Rightarrow> ((nat \<Rightarrow> uint64) \<times> char list) list \<Rightarrow> SnapshotStreamer \<Rightarrow>
    (char list list \<times> SnapshotStreamer) option" where
  "serveRequests lib iter [] s = Some ([], s)"
| "serveRequests lib iter ((clk, req) # reqs) s = do {
     (reply, s) \<leftarrow> handleClient lib iter clk req s;
     (replies, s) \<leftarrow> serveRequests lib iter reqs s;
     Some (reply # replies, s)
   }"

fun streamer_run :: "itch_lib \<Rightarrow> (shadow \<Rightarrow> shadow) \<Rightarrow>
    (SnapshotUpdate list \<times> ((nat \<Rightarrow> uint64) \<times> char list) list) list \<Rightarrow> SnapshotStreamer \<Rightarrow>
    (char list list \<times> SnapshotStreamer) option" where
  "streamer_run lib iter [] s = Some ([], s)"
| "streamer_run lib iter ((snaps, reqs) # turns) s = do {
     s \<leftarrow> streamer_drain lib snaps s;
     (replies, s) \<leftarrow> serveRequests lib iter reqs s;
     (replies', s) \<leftarrow> streamer_run lib iter turns s;
     Some (replies @ replies', s)
   }"

section \<open>The replay ring\<close>

lemma replay_index_mod:
  assumes "seq \<noteq> 0"
  shows "replay_index seq = (unat seq - 1) mod REPLAY_CAPACITY"
proof -
  have "(of_nat REPLAY_CAPACITY - 1 :: uint64) = mask 13"
    by (simp add: REPLAY_CAPACITY_def mask_eq_exp_minus_1)
  then have "replay_index seq = take_bit 13 (unat (seq - 1))"
    by (simp add: replay_index_def flip: take_bit_eq_mask unsigned_take_bit_eq)
  moreover have "unat (seq - 1) = unat seq - 1"
    using assms by (simp add: unat_sub word_le_nat_alt Suc_le_eq unat_gt_0)
  ultimately show ?thesis by (simp add: take_bit_eq_mod REPLAY_CAPACITY_def)
qed

text \<open>
  \<open>ring_ok lib H s\<close>: the streamer has processed the updates \<open>H\<close>, numbered from one, and the ring
  holds the frames of the last \<^verbatim>\<open>REPLAY_CAPACITY\<close> of them.
\<close>

definition entry_frame :: "ReplayEntry \<Rightarrow> char list" where
  "entry_frame e = re_seq_be e @ take (unat (re_len e)) (re_bytes e)"

definition ring_ok :: "itch_lib \<Rightarrow> SnapshotUpdate list \<Rightarrow> SnapshotStreamer \<Rightarrow> bool" where
  "ring_ok lib H s \<longleftrightarrow> last_seq_num s = of_nat (length H) \<and> length (replay_buffer s) = REPLAY_CAPACITY \<and>
     (\<forall>i < length H. length H \<le> i + REPLAY_CAPACITY \<longrightarrow>
        entry_frame (replay_buffer s ! (i mod REPLAY_CAPACITY)) = frame lib (H ! i))"

definition seqs_ok :: "SnapshotUpdate list \<Rightarrow> bool" where
  "seqs_ok H \<longleftrightarrow> length H < 2 ^ 64 - 1 \<and>
     (\<forall>i < length H. su_seq_num (H ! i) = of_nat i + 1 \<and> length (su_bytes (H ! i)) \<le> ITCH_MAX_MSG_SIZE)"

lemma ring_init: "ring_ok lib [] (streamer_init n)"
  by (simp add: ring_ok_def streamer_init_def)

lemma applyToBook_ring:
  assumes "applyToBook u s = Some s'"
  shows "replay_buffer s' = replay_buffer s" and "last_seq_num s' = last_seq_num s"
  using assms by (auto simp: applyToBook_def Let_def split: if_splits)

lemma writeReplayEntry_ok:
  assumes ring: "ring_ok lib H s" and sq: "su_seq_num snap = of_nat (length H) + 1"
    and len: "length (su_bytes snap) \<le> ITCH_MAX_MSG_SIZE" and n: "length H < 2 ^ 64 - 1"
  shows "ring_ok lib (H @ [snap]) ((writeReplayEntry lib snap s)\<lparr>last_seq_num := su_seq_num snap\<rparr>)"
proof -
  let ?N = "length H" and ?C = REPLAY_CAPACITY
  have u: "unat (of_nat ?N + 1 :: uint64) = ?N + 1"
    using n unat_Suc_of_nat [of ?N, where 'a = 64] by simp
  then have nz: "su_seq_num snap \<noteq> 0" unfolding sq by (metis add_is_0 unat_0 zero_neq_one)
  have ix: "replay_index (su_seq_num snap) = ?N mod ?C"
    using replay_index_mod [OF nz] u by (simp add: sq)
  have C: "0 < ?C" by (simp add: REPLAY_CAPACITY_def)
  have lb: "unat (of_nat (length (su_bytes snap)) :: uint16) = length (su_bytes snap)"
    using len by (intro unat_of_nat_small) (simp add: ITCH_MAX_MSG_SIZE_def)
  have other: "?N mod ?C \<noteq> i mod ?C" if "i < ?N" "Suc ?N \<le> i + ?C" for i
  proof
    assume "?N mod ?C = i mod ?C"
    then have "?C dvd ?N - i" using that(1) by (metis less_imp_le mod_eq_dvd_iff_nat)
    with that show False by (auto dest: dvd_imp_le)
  qed
  show ?thesis
    using ring other lb C unfolding ring_ok_def writeReplayEntry_def Let_def ix
    by (auto simp: sq nth_append nth_list_update entry_frame_def frame_def less_Suc_eq)
qed

lemma streamer_drain_ring:
  assumes "ring_ok lib H s" and "seqs_ok (H @ snaps)" and "streamer_drain lib snaps s = Some s'"
  shows "ring_ok lib (H @ snaps) s'"
  using assms
proof (induction snaps arbitrary: H s)
  case (Cons snap snaps)
  obtain s1 where s1: "applyToBook (su_update snap) s = Some s1"
    "streamer_drain lib snaps ((writeReplayEntry lib snap s1)\<lparr>last_seq_num := su_seq_num snap\<rparr>) = Some s'"
    using Cons.prems(3) by (auto simp: Let_def split: Option.bind_splits)
  have "ring_ok lib H s1"
    using Cons.prems(1) applyToBook_ring [OF s1(1)] by (simp add: ring_ok_def)
  moreover have "su_seq_num snap = of_nat (length H) + 1" "length (su_bytes snap) \<le> ITCH_MAX_MSG_SIZE" "length H < 2 ^ 64 - 1"
    using Cons.prems(2) by (auto simp: seqs_ok_def nth_append dest: spec [of _ "length H"])
  ultimately have "ring_ok lib (H @ [snap]) ((writeReplayEntry lib snap s1)\<lparr>last_seq_num := su_seq_num snap\<rparr>)"
    by (rule writeReplayEntry_ok)
  from Cons.IH [OF this _ s1(2)] Cons.prems(2) show ?case by simp
qed simp

text \<open>A replay is the frames after the client's sequence number, in order.\<close>

lemma replay_loop_ok:
  assumes ring: "ring_ok lib H s" and n: "length H < 2 ^ 64 - 1" and c: "c \<le> length H" "length H \<le> c + REPLAY_CAPACITY"
  shows "replay_loop (replay_buffer s) (last_seq_num s) (of_nat c + 1) scratch =
    Some (scratch @ concat (map (frame lib) (drop c H)))"
  using c
proof (induction "length H - c" arbitrary: c scratch)
  case 0
  then have "unat (of_nat c + 1 :: uint64) = Suc (length H)" "unat (last_seq_num s) = length H"
    using n ring unat_Suc_of_nat [of c, where 'a = 64] unat_of_nat_small [of "length H", where 'a = 64]
    by (auto simp: ring_ok_def)
  then have "\<not> of_nat c + 1 \<le> last_seq_num s" by (simp add: word_le_nat_alt)
  with 0 show ?case by (subst replay_loop.simps) simp
next
  case (Suc k)
  have u: "unat (of_nat c + 1 :: uint64) = Suc c" "unat (last_seq_num s) = length H"
    using n ring Suc.hyps(2) unat_Suc_of_nat [of c, where 'a = 64] unat_of_nat_small [of "length H", where 'a = 64]
    by (auto simp: ring_ok_def)
  have cH: "c < length H" using Suc.hyps(2) by simp
  then have le: "of_nat c + 1 \<le> last_seq_num s" using u by (simp add: word_le_nat_alt)
  have "(of_nat c + 1 :: uint64) \<noteq> 0" using u(1) by (metis nat.distinct(1) unat_0)
  then have ix: "replay_index (of_nat c + 1) = c mod REPLAY_CAPACITY"
    using replay_index_mod [of "of_nat c + 1"] u(1) by simp
  have e: "entry_frame (replay_buffer s ! (c mod REPLAY_CAPACITY)) = frame lib (H ! c)"
    using ring cH Suc.prems(2) by (simp add: ring_ok_def)
  have "replay_loop (replay_buffer s) (last_seq_num s) (of_nat (Suc c) + 1) (scratch @ frame lib (H ! c)) =
      Some ((scratch @ frame lib (H ! c)) @ concat (map (frame lib) (drop (Suc c) H)))"
    by (rule Suc.hyps(1)) (use Suc.hyps(2) Suc.prems cH in auto)
  moreover have "of_nat (Suc c) + 1 = (of_nat c + 1 + 1 :: uint64)" by (simp add: add_ac)
  moreover have "replay_loop (replay_buffer s) (last_seq_num s) (of_nat c + 1) scratch =
      replay_loop (replay_buffer s) (last_seq_num s) (of_nat c + 1 + 1) (scratch @ frame lib (H ! c))"
    using le by (subst replay_loop.simps) (simp only: if_True Let_def ix flip: e entry_frame_def)
  ultimately show ?case using cH by (simp add: Cons_nth_drop_Suc [symmetric] del: of_nat_Suc)
qed

lemma serveReplay_ok:
  assumes ring: "ring_ok lib H s" and n: "length H < 2 ^ 64 - 1" and c: "unat client_seq = c"
  shows "serveReplay s client_seq =
    (if length H \<le> c then Some [CHR ''C'']
     else if c + REPLAY_CAPACITY < length H then Some [CHR ''N'']
     else Some (CHR ''R'' # concat (map (frame lib) (drop c H))))"
proof -
  have L: "last_seq_num s = of_nat (length H)" "unat (last_seq_num s) = length H"
    using ring n unat_of_nat_small [of "length H", where 'a = 64] by (auto simp: ring_ok_def)
  have seq: "client_seq = of_nat c" using c by (simp add: word_unat_eq_iff unsigned_of_nat take_bit_nat_eq_self flip: c)
  have C: "unat (of_nat REPLAY_CAPACITY :: uint64) = REPLAY_CAPACITY" by (simp add: REPLAY_CAPACITY_def)
  have old: "unat (if last_seq_num s > of_nat REPLAY_CAPACITY then last_seq_num s - of_nat REPLAY_CAPACITY else 0) =
      length H - REPLAY_CAPACITY"
    using L(2) C by (auto simp: word_less_nat_alt unat_sub word_le_nat_alt)
  show ?thesis
    unfolding serveReplay_def Let_def word_less_nat_alt [of client_seq] word_le_nat_alt [of "last_seq_num s"] old L(2) c
    using replay_loop_ok [OF ring n, of c "[]"] by (auto simp: seq)
qed

section \<open>The cached snapshot\<close>

text \<open>A cached snapshot that is not dirty is a snapshot of the current state.\<close>

definition cache_ok :: "itch_lib \<Rightarrow> (shadow \<Rightarrow> shadow) \<Rightarrow> SnapshotStreamer \<Rightarrow> bool" where
  "cache_ok lib iter s \<longleftrightarrow> (\<not> dirty s \<and> snapshot_buf s \<noteq> [] \<longrightarrow>
     (\<exists>clk. snapshot_buf s = bake_bytes lib clk (snapshot_msgs lib iter s)))"

lemma cache_init: "cache_ok lib iter (streamer_init n)"
  by (simp add: cache_ok_def streamer_init_def)

lemma cache_drain:
  assumes "cache_ok lib iter s" and "list_all (\<lambda>x. encodable (su_update x)) snaps" and "streamer_drain lib snaps s = Some s'"
  shows "cache_ok lib iter s'"
  using assms
proof (induction snaps arbitrary: s)
  case (Cons snap snaps)
  obtain s1 where s1: "applyToBook (su_update snap) s = Some s1"
    "streamer_drain lib snaps ((writeReplayEntry lib snap s1)\<lparr>last_seq_num := su_seq_num snap\<rparr>) = Some s'"
    using Cons.prems(3) by (auto simp: Let_def split: Option.bind_splits)
  have "dirty s1" using s1(1) Cons.prems(2) by (auto simp: applyToBook_def encodable_def Let_def split: if_splits)
  then have "cache_ok lib iter ((writeReplayEntry lib snap s1)\<lparr>last_seq_num := su_seq_num snap\<rparr>)"
    by (simp add: cache_ok_def writeReplayEntry_def Let_def)
  from Cons.IH [OF this _ s1(2)] Cons.prems(2) show ?case by simp
qed simp

lemma snapshot_msgs_bake [simp]: "snapshot_msgs lib iter (bakeSnapshot lib iter' clk s) = snapshot_msgs lib iter s"
  by (simp add: snapshot_msgs_def bakeSnapshot_def)

lemma cache_bake: "cache_ok lib iter (bakeSnapshot lib iter clk s)"
  unfolding cache_ok_def snapshot_msgs_bake by (auto simp: bakeSnapshot_def)

lemma serveSnapshot_current:
  assumes "cache_ok lib iter s" and "serveSnapshot lib iter clk s = (reply, s')"
  shows "\<exists>clk. reply = bake_bytes lib clk (snapshot_msgs lib iter s)" and "cache_ok lib iter s'"
    and "shadow_book s' = shadow_book s" and "last_seq_num s' = last_seq_num s"
proof -
  show "\<exists>clk. reply = bake_bytes lib clk (snapshot_msgs lib iter s)"
    using assms by (auto simp: serveSnapshot_def cache_ok_def bakeSnapshot_def split: if_splits)
  show "cache_ok lib iter s'"
    using assms cache_bake [of lib iter clk s] by (auto simp: serveSnapshot_def Let_def split: if_splits)
  show "shadow_book s' = shadow_book s" "last_seq_num s' = last_seq_num s"
    using assms(2) by (auto simp: serveSnapshot_def bakeSnapshot_def split: if_splits)
qed

section \<open>Runs of the streamer\<close>

text \<open>
  The invariant of the streamer after it processed the updates \<open>H\<close>, and that serving a request
  keeps it: a reply changes nothing but the cached snapshot.
\<close>

definition streamer_ok :: "itch_lib \<Rightarrow> (shadow \<Rightarrow> shadow) \<Rightarrow> SnapshotUpdate list \<Rightarrow> SnapshotStreamer \<Rightarrow> bool" where
  "streamer_ok lib iter H s \<longleftrightarrow> ring_ok lib H s \<and> cache_ok lib iter s \<and> length H < 2 ^ 64 - 1"

definition same_books :: "SnapshotStreamer \<Rightarrow> SnapshotStreamer \<Rightarrow> bool" where
  "same_books s s' \<longleftrightarrow> shadow_book s' = shadow_book s \<and> last_seq_num s' = last_seq_num s \<and> replay_buffer s' = replay_buffer s"

lemma same_books_refl [simp]: "same_books s s"
  by (simp add: same_books_def)

lemma same_books_trans: "same_books s s' \<Longrightarrow> same_books s' s'' \<Longrightarrow> same_books s s''"
  by (simp add: same_books_def)

lemma serveSnapshot_same: "serveSnapshot lib iter clk s = (reply, s') \<Longrightarrow> same_books s s'"
  by (auto simp: serveSnapshot_def bakeSnapshot_def same_books_def Let_def split: if_splits)

lemma handleClient_ok:
  assumes "streamer_ok lib iter H s"
  shows "\<exists>reply s'. handleClient lib iter clk req s = Some (reply, s') \<and> streamer_ok lib iter H s' \<and> same_books s s'"
proof -
  obtain reply s' where S: "serveSnapshot lib iter clk s = (reply, s')" by fastforce
  have ok': "streamer_ok lib iter H s'"
    using assms serveSnapshot_current(2) [OF _ S] serveSnapshot_same [OF S] by (auto simp: streamer_ok_def ring_ok_def same_books_def)
  have "\<exists>x. serveReplay s q = Some x" for q
    using serveReplay_ok [of lib H s q] assms by (auto simp: streamer_ok_def)
  then show ?thesis
    using S ok' serveSnapshot_same [OF S] assms
    by (cases req) (auto simp: handleClient_def split: if_splits)
qed

lemma serveRequests_ok:
  assumes "streamer_ok lib iter H s"
  shows "\<exists>replies s'. serveRequests lib iter reqs s = Some (replies, s') \<and> streamer_ok lib iter H s' \<and> same_books s s' \<and>
    length replies = length reqs"
  using assms
proof (induction reqs arbitrary: s)
  case (Cons x reqs)
  obtain clk req where x: "x = (clk, req)" by fastforce
  obtain reply s1 where s1: "handleClient lib iter clk req s = Some (reply, s1)" "streamer_ok lib iter H s1" "same_books s s1"
    using handleClient_ok [OF Cons.prems] by blast
  obtain replies s2 where "serveRequests lib iter reqs s1 = Some (replies, s2)" "streamer_ok lib iter H s2" "same_books s1 s2"
    "length replies = length reqs"
    using Cons.IH [OF s1(2)] by blast
  with s1 show ?case by (auto simp: x intro: same_books_trans)
qed simp

end
