(* ===== verification/Mirror.thy ===== *)
theory Mirror
  imports Trades Snapshot
begin

text \<open>
  The shadow book of the snapshot streamer against the book it shadows. Both are read as a map
  from market order ids to side, price and open quantity: \<open>shadow_view\<close> for the streamer's table,
  \<open>book_view\<close> for the abstract order book. \<open>view_apply\<close> is the effect of one published update on
  such a map. The lemmas say for which operations of the book the published updates carry
  \<open>book_view\<close> along, and for which they do not.
\<close>

type_synonym view = "OrderId \<rightharpoonup> Side \<times> Price \<times> Quantity"

definition update_view :: "MEMarketUpdate \<Rightarrow> Side \<times> Price \<times> Quantity" where
  "update_view u = (mu_side u, mu_price u, mu_qty u)"

definition order_view :: "MEOrder \<Rightarrow> Side \<times> Price \<times> Quantity" where
  "order_view r = (mo_side r, mo_price r, mo_remainingQuantity r)"

definition shadow_view :: "shadow \<Rightarrow> view" where
  "shadow_view sh = (\<lambda>m. map_option update_view (map_of sh m))"

definition by_mid :: "MEOrder list \<Rightarrow> view" where
  "by_mid L = map_of (map (\<lambda>r. (mo_marketOrderId r, order_view r)) L)"

definition book_view :: "abook \<Rightarrow> view" where
  "book_view A = by_mid (a_orders A)"

definition view_apply :: "MEMarketUpdate \<Rightarrow> view \<Rightarrow> view" where
  "view_apply u V =
    (case mu_type u of
       U_ADD \<Rightarrow> V(mu_market_order_id u \<mapsto> update_view u)
     | U_CANCEL \<Rightarrow> V(mu_market_order_id u := None)
     | U_MODIFY \<Rightarrow> V(mu_market_order_id u := None, mu_new_order_id u \<mapsto> update_view u)
     | U_TRADE \<Rightarrow>
         (case V (mu_market_order_id u) of
            None \<Rightarrow> V
          | Some (s, p, q) \<Rightarrow> if q \<le> mu_qty u then V(mu_market_order_id u := None)
              else V(mu_market_order_id u \<mapsto> (s, p, q - mu_qty u)))
     | _ \<Rightarrow> V)"

lemma shadow_view_apply: "shadow_view (shadow_apply u sh) = view_apply u (shadow_view sh)"
  by (rule ext)
    (auto simp: shadow_view_def shadow_apply_def view_apply_def update_view_def Let_def
      split: UpdateType.split option.split)

lemma shadow_view_fold: "shadow_view (fold shadow_apply us sh) = fold view_apply us (shadow_view sh)"
  by (induction us arbitrary: sh) (simp_all add: shadow_view_apply)

section \<open>Market order ids\<close>

text \<open>The book's market ids are distinct and below the counter.\<close>

definition mids :: "abook \<Rightarrow> OrderId list" where
  "mids A = map mo_marketOrderId (a_orders A)"

definition mids_ok :: "abook \<Rightarrow> bool" where
  "mids_ok A \<longleftrightarrow> distinct (mids A) \<and> (\<forall>m\<in>set (mids A). m < ab_next A)"

lemma mids_counter [simp]: "mids (A\<lparr>ab_next := n\<rparr>) = mids A"
  by (simp add: mids_def)

lemma mids_empty: "mids_ok a_empty"
  by (simp add: mids_ok_def mids_def a_empty_def a_orders_def)

lemma mids_sides:
  "set (mids A) = mo_marketOrderId ` (set (a_side s A) \<union> set (a_side (opposite s) A))"
  "distinct (mids A) \<longleftrightarrow> distinct (map mo_marketOrderId (a_side s A)) \<and>
     distinct (map mo_marketOrderId (a_side (opposite s) A)) \<and>
     mo_marketOrderId ` set (a_side s A) \<inter> mo_marketOrderId ` set (a_side (opposite s) A) = {}"
  by (cases s; auto simp: mids_def a_orders_def)+

lemma word_less_succ: "(n :: OrderId) \<noteq> - 1 \<Longrightarrow> n < n + 1"
  by (metis inc_less_eq_self_iff_eq not_le)

lemma mids_fresh: "mids_ok A \<Longrightarrow> ab_next A \<notin> set (mids A)"
  by (auto simp: mids_ok_def)

lemma mids_ok_next:
  assumes "mids_ok A" and "ab_next A \<noteq> - 1"
  shows "mids_ok (A\<lparr>ab_next := ab_next A + 1\<rparr>)"
  using assms word_less_succ [OF assms(2)] by (auto simp: mids_ok_def intro: less_trans)

lemma mset_a_insert: "mset (a_insert s r L) = add_mset r (mset L)"
proof -
  let ?P = "\<lambda>x. \<not> before s (mo_price r) (mo_price x)"
  have "mset (takeWhile ?P L) + mset (dropWhile ?P L) = mset L"
    by (simp only: mset_append [symmetric] takeWhile_dropWhile_id)
  then show ?thesis unfolding a_insert_def by simp
qed

lemma distinct_map_insert:
  "distinct (map f (a_insert s r L)) \<longleftrightarrow> f r \<notin> f ` set L \<and> distinct (map f L)"
proof -
  have "mset (map f (a_insert s r L)) = mset (map f (r # L))" by (simp add: mset_a_insert)
  then have "distinct (map f (a_insert s r L)) = distinct (map f (r # L))"
    by (rule mset_eq_imp_distinct_iff)
  then show ?thesis by simp
qed

section \<open>Views of books\<close>

lemma by_mid_simps [simp]:
  "by_mid [] = Map.empty"
  "by_mid (r # L) = (by_mid L)(mo_marketOrderId r \<mapsto> order_view r)"
  by (simp_all add: by_mid_def)

lemma dom_by_mid [simp]: "dom (by_mid L) = mo_marketOrderId ` set L"
  by (induction L) (simp_all only: by_mid_simps dom_fun_upd option.distinct if_False list.set image_insert image_empty dom_empty)

lemma by_mid_None [simp]: "by_mid L m = None \<longleftrightarrow> m \<notin> mo_marketOrderId ` set L"
  using dom_by_mid [of L] by (metis domIff)

lemma book_view_counter [simp]: "book_view (A\<lparr>ab_next := n\<rparr>) = book_view A"
  by (simp add: book_view_def)

lemma dom_book_view: "dom (book_view A) = set (mids A)"
  by (simp add: book_view_def mids_def)

lemma by_mid_eqI:
  assumes "distinct (map mo_marketOrderId L)" and "mset L = mset L'"
  shows "by_mid L = by_mid L'"
proof -
  have "distinct (map mo_marketOrderId L')"
    using assms mset_eq_imp_distinct_iff [of "map mo_marketOrderId L" "map mo_marketOrderId L'"] by simp
  moreover have "set L = set L'" using assms(2) by (rule mset_eq_setD)
  ultimately show ?thesis
    using assms(1) unfolding by_mid_def
    by (subst map_of_inject_set) (auto simp: comp_def)
qed

lemma by_mid_insert:
  assumes "distinct (map mo_marketOrderId L)" and "mo_marketOrderId r \<notin> mo_marketOrderId ` set L"
  shows "by_mid (a_insert s r L) = (by_mid L)(mo_marketOrderId r \<mapsto> order_view r)"
  using by_mid_eqI [of "a_insert s r L" "r # L"] assms by (simp add: distinct_map_insert mset_a_insert)

lemma book_view_sides:
  assumes "distinct (mids A)"
  shows "book_view A = by_mid (a_side s A) ++ by_mid (a_side (opposite s) A)"
proof (cases s)
  case BUY
  have "dom (by_mid (ab_asks A)) \<inter> dom (by_mid (ab_bids A)) = {}"
    using assms by (auto simp: mids_def a_orders_def)
  then show ?thesis
    using map_add_comm [of "by_mid (ab_asks A)" "by_mid (ab_bids A)"]
    by (simp add: BUY book_view_def by_mid_def a_orders_def)
next
  case SELL
  then show ?thesis by (simp add: book_view_def by_mid_def a_orders_def)
qed

section \<open>Trades\<close>

text \<open>The published trades turn the side an order meets into what the match leaves of it.\<close>

lemma fill_view:
  assumes "distinct (map mo_marketOrderId L)" and "dom W \<inter> mo_marketOrderId ` set L = {}"
  shows "fold view_apply (fill_updates v t m (a_fills t q L)) (W ++ by_mid L) = W ++ by_mid (a_leave t q L)"
  using assms
proof (induction L arbitrary: q m)
  case (Cons r L)
  let ?f = "min q (mo_remainingQuantity r)" and ?id = "mo_marketOrderId r"
  have fresh: "(W ++ by_mid L) ?id = None"
    using Cons.prems by (auto simp: map_add_None)
  have step: "view_apply (trade_update v t r ?f m) (W ++ by_mid (r # L)) =
      (if mo_remainingQuantity r \<le> q then W ++ by_mid L
       else W ++ by_mid (r\<lparr>mo_remainingQuantity := mo_remainingQuantity r - q\<rparr> # L))"
    using fresh by (auto simp: view_apply_def trade_update_def mk_update_def order_view_def min_def fun_upd_idem)
  show ?case
  proof (cases "q = 0 \<or> \<not> crosses t r")
    case False
    then have "fold view_apply (fill_updates v t m (a_fills t q (r # L))) (W ++ by_mid (r # L)) =
        fold view_apply (fill_updates v t (m + 1) (a_fills t (q - ?f) L))
          (view_apply (trade_update v t r ?f m) (W ++ by_mid (r # L)))"
      by (simp add: Let_def)
    also have "\<dots> = W ++ by_mid (a_leave t q (r # L))"
      unfolding step using False Cons by (auto simp: min_def)
    finally show ?thesis .
  qed auto
qed simp

lemma mids_in_book:
  shows "set (mids (in_book t A)) \<subseteq> set (mids A)" and "distinct (mids A) \<Longrightarrow> distinct (mids (in_book t A))"
proof -
  let ?s = "oa_side t" and ?o = "opposite (oa_side t)" and ?q = "oa_initialQuantity t"
  obtain n where n: "map mo_marketOrderId (a_leave t ?q (a_side ?o A)) = drop n (map mo_marketOrderId (a_side ?o A))"
    using a_leave_suffix [of mo_marketOrderId t ?q "a_side ?o A"] by auto
  have sub: "mo_marketOrderId ` set (a_leave t ?q (a_side ?o A)) \<subseteq> mo_marketOrderId ` set (a_side ?o A)"
    using arg_cong [OF n, of set] by (metis list.set_map set_drop_subset)
  then show "set (mids (in_book t A)) \<subseteq> set (mids A)"
    unfolding mids_sides(1) [of _ ?s] in_book_def by auto
  show "distinct (mids (in_book t A))" if "distinct (mids A)"
    using that sub unfolding mids_sides(2) [of _ ?s] in_book_def by (auto simp: n)
qed

lemma take_view:
  assumes "distinct (mids A)"
  shows "fold view_apply (fill_updates v t m (in_fills t A)) (book_view A) = book_view (in_book t A)"
proof -
  let ?s = "oa_side t" and ?o = "opposite (oa_side t)"
  have d: "distinct (map mo_marketOrderId (a_side ?o A))"
    "dom (by_mid (a_side ?s A)) \<inter> mo_marketOrderId ` set (a_side ?o A) = {}"
    using assms unfolding mids_sides(2) [of A ?s] by auto
  show ?thesis
    using fill_view [OF d, of v t m "oa_initialQuantity t"]
    unfolding book_view_sides [OF assms, of ?s] book_view_sides [OF mids_in_book(2) [OF assms, of t], of ?s] in_fills_def
    by (simp add: in_book_def)
qed

lemma mids_rest:
  "set (mids (a_rest t q A)) = insert (oa_marketOrderId t) (set (mids A))"
  "oa_marketOrderId t \<notin> set (mids A) \<Longrightarrow> distinct (mids A) \<Longrightarrow> distinct (mids (a_rest t q A))"
  unfolding mids_sides [of _ "oa_side t"] a_rest_def
  by (auto simp: distinct_map_insert rec_defs)

lemma rest_view:
  assumes "oa_marketOrderId t \<notin> set (mids A)" and "distinct (mids A)"
  shows "book_view (a_rest t q A) = (book_view A)(oa_marketOrderId t \<mapsto> (oa_side t, oa_price t, q))"
proof -
  let ?s = "oa_side t"
  note d = mids_rest(2) [OF assms, of q]
  have "by_mid (a_insert ?s (order_of t q) (a_side ?s A)) =
      (by_mid (a_side ?s A))(oa_marketOrderId t \<mapsto> (?s, oa_price t, q))"
    using assms by (subst by_mid_insert) (auto simp: mids_sides [of A ?s] rec_defs order_view_def)
  moreover have "oa_marketOrderId t \<notin> dom (by_mid (a_side (opposite ?s) A))"
    using assms(1) by (auto simp: mids_sides [of A ?s])
  ultimately show ?thesis
    unfolding book_view_sides [OF d, of ?s] book_view_sides [OF assms(2), of ?s]
    by (simp add: a_rest_def map_add_upd_left)
qed

section \<open>Adding an order\<close>

lemma finish_view:
  assumes ok: "mids_ok A" and fresh: "oa_marketOrderId t \<notin> set (mids A)" "oa_marketOrderId t < ab_next A"
    and B: "B = (if in_left t A \<noteq> 0 \<and> oa_orderType t = GoodTillCancel then a_rest t (in_left t A) (in_book t A) else in_book t A)"
  shows "mids_ok B" and "fold view_apply (fill_updates v t m (in_fills t A)) (book_view A) = book_view (in_book t A)"
    and "book_view B = (if in_left t A \<noteq> 0 \<and> oa_orderType t = GoodTillCancel
      then (book_view (in_book t A))(oa_marketOrderId t \<mapsto> (oa_side t, oa_price t, in_left t A)) else book_view (in_book t A))"
proof -
  have d: "distinct (mids A)" using ok by (simp add: mids_ok_def)
  then show "fold view_apply (fill_updates v t m (in_fills t A)) (book_view A) = book_view (in_book t A)"
    by (rule take_view)
  have new: "oa_marketOrderId t \<notin> set (mids (in_book t A))" using fresh(1) mids_in_book(1) by blast
  note d' = mids_in_book(2) [OF d, of t]
  show "book_view B = (if in_left t A \<noteq> 0 \<and> oa_orderType t = GoodTillCancel
      then (book_view (in_book t A))(oa_marketOrderId t \<mapsto> (oa_side t, oa_price t, in_left t A)) else book_view (in_book t A))"
    unfolding B using rest_view [OF new d'] by simp
  have nxt: "ab_next B = ab_next A" by (simp add: B a_rest_def in_book_def)
  show "mids_ok B"
    unfolding mids_ok_def nxt unfolding B
    using ok fresh(2) mids_in_book(1) [of t A] mids_rest(2) [OF new d'] d' by (auto simp: mids_ok_def mids_rest(1))
qed

lemma add_mirrors:
  assumes ok: "mids_ok A" and top: "ab_next A \<noteq> - 1"
    and A': "A' = fst (a_addOrder v args A io)" and io': "io' = snd (a_addOrder v args A io)"
  shows "mids_ok A'" and "fold view_apply (new_updates io io') (book_view A) = book_view A'"
proof -
  let ?t = "args\<lparr>oa_marketOrderId := ab_next A\<rparr>" and ?A = "A\<lparr>ab_next := ab_next A + 1\<rparr>"
  have pre: "mids_ok ?A" "oa_marketOrderId ?t \<notin> set (mids ?A)" "oa_marketOrderId ?t < ab_next ?A"
    using mids_ok_next [OF ok top] mids_fresh [OF ok] word_less_succ [OF top] by simp_all
  have B: "A' = (if in_left ?t ?A \<noteq> 0 \<and> oa_orderType ?t = GoodTillCancel then a_rest ?t (in_left ?t ?A) (in_book ?t ?A)
      else in_book ?t ?A)"
    unfolding A' using a_addOrder_log(4) [OF refl refl, of v args A io] by simp
  note F = finish_view [OF pre B]
  show "mids_ok A'" by (rule F)
  show "fold view_apply (new_updates io io') (book_view A) = book_view A'"
    unfolding a_addOrder_log(2) [OF refl io'] using F(2) [of v "next_match_id io"]
    by (simp add: F(3) view_apply_def mk_update_def update_view_def)
qed

section \<open>Cancelling\<close>

lemma by_mid_filter:
  assumes "\<And>x. x \<in> set L \<Longrightarrow> P x \<longleftrightarrow> mo_marketOrderId x \<noteq> m"
  shows "by_mid (filter P L) = (by_mid L)(m := None)"
  using assms by (induction L) (auto simp: fun_upd_twist fun_eq_iff)

lemma has_key_mid:
  assumes "abook_ok A" and "distinct (mids A)" and "a_find c k A = Some r" and "x \<in> set (a_orders A)"
  shows "has_key c k x \<longleftrightarrow> mo_marketOrderId x = mo_marketOrderId r"
proof -
  have r: "r \<in> set (a_orders A)" "has_key c k r"
    using find_SomeD [OF assms(3) [unfolded a_find_def]] by simp_all
  have k: "distinct (map okey (a_orders A))" using assms(1) by (simp add: abook_ok_def)
  have "has_key c k x \<longleftrightarrow> okey x = okey r" using r(2) by (auto simp: has_key_def okey_def)
  also have "\<dots> \<longleftrightarrow> x = r" using k r(1) assms(4) by (auto simp: distinct_map inj_on_def)
  also have "\<dots> \<longleftrightarrow> mo_marketOrderId x = mo_marketOrderId r"
    using assms(2,4) r(1) by (auto simp: mids_def distinct_map inj_on_def)
  finally show ?thesis .
qed

lemma drop_view:
  assumes "abook_ok A" and "mids_ok A" and "a_find c k A = Some r"
  shows "book_view (a_drop c k A) = (book_view A)(mo_marketOrderId r := None)"
    and "mids_ok (a_drop c k A)" and "mo_marketOrderId r \<in> set (mids A)"
    and "set (mids (a_drop c k A)) \<subseteq> set (mids A)"
proof -
  have orders: "a_orders (a_drop c k A) = filter (\<lambda>r. \<not> has_key c k r) (a_orders A)"
    by (simp add: a_orders_def a_drop_def)
  have d: "distinct (mids A)" using assms(2) by (simp add: mids_ok_def)
  show "book_view (a_drop c k A) = (book_view A)(mo_marketOrderId r := None)"
    unfolding book_view_def orders by (rule by_mid_filter) (simp add: has_key_mid [OF assms(1) d assms(3)])
  show "mids_ok (a_drop c k A)"
    using assms(2) unfolding mids_ok_def mids_def orders by (auto simp: distinct_map_filter) (simp add: a_drop_def)
  show "mo_marketOrderId r \<in> set (mids A)"
    using find_SomeD [OF assms(3) [unfolded a_find_def]] by (simp add: mids_def)
  show "set (mids (a_drop c k A)) \<subseteq> set (mids A)" by (auto simp: mids_def orders)
qed

text \<open>A cancel request that takes part of an order only.\<close>

definition partial_cancel :: "ClientId \<Rightarrow> OrderId \<Rightarrow> Quantity \<Rightarrow> abook \<Rightarrow> bool" where
  "partial_cancel c k qty A \<longleftrightarrow>
     (case a_find c k A of None \<Rightarrow> False | Some r \<Rightarrow> qty \<noteq> 0 \<and> qty < mo_remainingQuantity r)"

lemma mids_shrink: "mids (a_shrink c k q A) = mids A" "ab_next (a_shrink c k q A) = ab_next A"
  by (auto simp: mids_def a_shrink_def Let_def a_orders_def)

lemma cancel_mirrors:
  assumes ok: "abook_ok A" "mids_ok A"
    and A': "A' = fst (a_cancelOrder v tick c k qty tok A io)" and io': "io' = snd (a_cancelOrder v tick c k qty tok A io)"
  shows "mids_ok A'" and "fold view_apply (new_updates io io') (book_view A) = book_view A' \<longleftrightarrow> \<not> partial_cancel c k qty A"
proof -
  have "mids_ok A' \<and> (fold view_apply (new_updates io io') (book_view A) = book_view A' \<longleftrightarrow> \<not> partial_cancel c k qty A)"
  proof (cases "a_find c k A")
    case None
    with ok show ?thesis by (simp add: A' io' a_cancelOrder_def new_updates_def partial_cancel_def)
  next
    case (Some r)
    define q where "q = (if qty = 0 then mo_remainingQuantity r else qty)"
    let ?u = "mk_update tick (mo_marketOrderId r) U_CANCEL (mo_side r) (mo_price r) q OrderId_INVALID OrderId_INVALID"
    have out: "A' = (if mo_remainingQuantity r < q then A else if mo_remainingQuantity r = q then a_drop c k A
        else a_shrink c k q A)" "new_updates io io' = (if mo_remainingQuantity r < q then [] else [?u])"
      by (simp_all add: A' io' a_cancelOrder_def Some Let_def new_updates_def flip: q_def)
    have part: "partial_cancel c k qty A \<longleftrightarrow> q < mo_remainingQuantity r"
      by (auto simp: partial_cancel_def Some q_def)
    have u: "view_apply ?u (book_view A) = (book_view A)(mo_marketOrderId r := None)"
      by (simp add: view_apply_def mk_update_def)
    note D = drop_view [OF ok Some]
    have shrunk: "(book_view A)(mo_marketOrderId r := None) \<noteq> book_view (a_shrink c k q A)"
    proof
      assume eq: "(book_view A)(mo_marketOrderId r := None) = book_view (a_shrink c k q A)"
      have "mo_marketOrderId r \<notin> dom (book_view (a_shrink c k q A))" unfolding eq [symmetric] by simp
      with D(3) show False by (simp add: dom_book_view mids_shrink)
    qed
    have "mids_ok (a_shrink c k q A)" using ok(2) by (simp add: mids_ok_def mids_shrink)
    then show ?thesis using out part u D(1,2) ok(2) shrunk by auto
  qed
  then show "mids_ok A'" "fold view_apply (new_updates io io') (book_view A) = book_view A' \<longleftrightarrow> \<not> partial_cancel c k qty A"
    by blast+
qed

section \<open>Replacing\<close>

lemma fold_view_other:
  assumes "\<And>u. u \<in> set us \<Longrightarrow> mu_type u = U_TRADE \<and> mu_market_order_id u \<noteq> m"
  shows "fold view_apply us (V(m := x)) = (fold view_apply us V)(m := x)"
  using assms
proof (induction us arbitrary: V)
  case (Cons u us)
  have "view_apply u (V(m := x)) = (view_apply u V)(m := x)"
    using Cons.prems [of u] by (auto simp: view_apply_def fun_upd_twist split: option.split)
  with Cons.IH [of "view_apply u V"] Cons.prems show ?case by (simp del: fun_upd_apply)
qed simp

lemma fill_updates_ids:
  "u \<in> set (fill_updates v t m fs) \<Longrightarrow> mu_type u = U_TRADE \<and> mu_market_order_id u \<in> (\<lambda>x. mo_marketOrderId (fst x)) ` set fs"
  by (induction v t m fs rule: fill_updates.induct) (auto simp: trade_update_def mk_update_def)

lemma in_fills_ids: "(\<lambda>x. mo_marketOrderId (fst x)) ` set (in_fills t A) \<subseteq> set (mids A)"
proof -
  have "set (map fst (in_fills t A)) \<subseteq> set (a_side (opposite (oa_side t)) A)"
    using set_take_subset by (metis in_fills_prefix)
  then show ?thesis unfolding mids_sides(1) [of A "oa_side t"] by auto
qed

text \<open>
  The arguments a replacement is matched with, the book it meets, and when the published updates
  misstate what becomes of it: something was traded, so less than the announced quantity rests,
  or a fill-and-kill replacement vanishes without a message.
\<close>

definition replace_args :: "TickerId \<Rightarrow> ClientId \<Rightarrow> OrderId \<Rightarrow> OrderType \<Rightarrow> Price \<Rightarrow> Quantity \<Rightarrow> OrderToken \<Rightarrow>
    MEOrder \<Rightarrow> abook \<Rightarrow> order_args" where
  "replace_args tick c k' ty px qty tok r A =
    \<lparr>oa_tickerId = tick, oa_clientId = c, oa_clientOrderId = k', oa_marketOrderId = ab_next A, oa_orderType = ty,
     oa_price = px, oa_initialQuantity = qty, oa_side = mo_side r, oa_orderToken = tok\<rparr>"

definition phantom_replace :: "variant \<Rightarrow> TickerId \<Rightarrow> ClientId \<Rightarrow> OrderId \<Rightarrow> OrderId \<Rightarrow> OrderType \<Rightarrow> Price \<Rightarrow>
    Quantity \<Rightarrow> OrderToken \<Rightarrow> abook \<Rightarrow> bool" where
  "phantom_replace v tick c k k' ty px qty tok A \<longleftrightarrow>
    (case a_find c k A of
       None \<Rightarrow> False
     | Some r \<Rightarrow> k' \<noteq> 0 \<and> qty \<noteq> 0 \<and>
         (let left = in_left (replace_args tick c k' ty px qty tok r A) (a_drop c k A) in
          case ty of
            GoodTillCancel \<Rightarrow> left \<noteq> qty
          | FillAndKill \<Rightarrow> v = VectorBook \<or> left = 0))"

lemma a_drop_counter: "a_drop c k (A\<lparr>ab_next := n\<rparr>) = (a_drop c k A)\<lparr>ab_next := n\<rparr>"
  by (simp add: a_drop_def)

lemma replace_log:
  assumes r: "a_find c k A = Some r" and "k' \<noteq> 0" "qty \<noteq> 0"
    and t: "t = replace_args tick c k' ty px qty tok r A" and B: "B = (a_drop c k A)\<lparr>ab_next := ab_next A + 1\<rparr>"
    and io': "io' = snd (a_replaceOrder v tick c k k' ty px qty tok A io)"
  shows "new_updates io io' =
      mk_update tick (mo_marketOrderId r) U_MODIFY (mo_side r) px qty (ab_next A) OrderId_INVALID #
      fill_updates v t (next_match_id io) (in_fills t B) @
      (if in_left t B \<noteq> 0 \<and> ty = FillAndKill \<and> v = MapBook
       then [mk_update tick (ab_next A) U_CANCEL (mo_side r) px (in_left t B) OrderId_INVALID OrderId_INVALID] else [])"
    and "fst (a_replaceOrder v tick c k k' ty px qty tok A io) =
      (if in_left t B \<noteq> 0 \<and> ty = GoodTillCancel then a_rest t (in_left t B) (in_book t B) else in_book t B)"
proof -
  have E: "a_replaceOrder v tick c k k' ty px qty tok A io =
      a_finish v t (\<lambda>q io. io)
        (\<lambda>q io. case v of VectorBook \<Rightarrow> io
          | MapBook \<Rightarrow> sendMarketUpdate (mk_update tick (ab_next A) U_CANCEL (mo_side r) px q OrderId_INVALID OrderId_INVALID)
              (sendClientResponse (own_report t CANCELED q) io)) B
        (sendMarketUpdate (mk_update tick (mo_marketOrderId r) U_MODIFY (mo_side r) px qty (ab_next A) OrderId_INVALID)
          (sendClientResponse (own_report t MODIFIED qty) io))"
    unfolding t B replace_args_def using assms(2,3) by (simp add: a_replaceOrder_def r Let_def a_drop_counter)
  show "fst (a_replaceOrder v tick c k k' ty px qty tok A io) =
      (if in_left t B \<noteq> 0 \<and> ty = GoodTillCancel then a_rest t (in_left t B) (in_book t B) else in_book t B)"
    unfolding E a_finish_book by (simp add: t replace_args_def)
  show "new_updates io io' =
      mk_update tick (mo_marketOrderId r) U_MODIFY (mo_side r) px qty (ab_next A) OrderId_INVALID #
      fill_updates v t (next_match_id io) (in_fills t B) @
      (if in_left t B \<noteq> 0 \<and> ty = FillAndKill \<and> v = MapBook
       then [mk_update tick (ab_next A) U_CANCEL (mo_side r) px (in_left t B) OrderId_INVALID OrderId_INVALID] else [])"
    unfolding io' E a_finish_def a_take_log
    by (cases ty; cases v) (simp_all add: t replace_args_def new_updates_def)
qed

lemma replace_reject:
  assumes "a_find c k A = None \<or> k' = 0 \<or> qty = 0"
  shows "fst (a_replaceOrder v tick c k k' ty px qty tok A io) = A"
    and "new_updates io (snd (a_replaceOrder v tick c k k' ty px qty tok A io)) = []"
    and "\<not> phantom_replace v tick c k k' ty px qty tok A"
  using assms by (auto simp: a_replaceOrder_def new_updates_def phantom_replace_def split: option.split)

lemma replace_fresh:
  assumes ok: "abook_ok A" "mids_ok A" and top: "ab_next A \<noteq> - 1" and r: "a_find c k A = Some r"
    and B: "B = (a_drop c k A)\<lparr>ab_next := ab_next A + 1\<rparr>"
  shows "mids_ok B" and "ab_next A \<notin> set (mids B)" and "ab_next A < ab_next B" and "book_view (in_book t B) (ab_next A) = None"
proof -
  note D = drop_view [OF ok r]
  have "mids_ok ((a_drop c k A)\<lparr>ab_next := ab_next (a_drop c k A) + 1\<rparr>)"
    by (rule mids_ok_next) (use D(2) top in \<open>simp_all add: a_drop_def\<close>)
  then show "mids_ok B" by (simp add: B a_drop_def)
  show f: "ab_next A \<notin> set (mids B)" and "ab_next A < ab_next B"
    using D(4) mids_fresh [OF ok(2)] word_less_succ [OF top] by (auto simp: B)
  show "book_view (in_book t B) (ab_next A) = None"
    using f mids_in_book(1) [of t B] by (metis dom_book_view domIff subsetD)
qed

text \<open>What a shadow book shows after a replacement: as long as it is not cancelled, the new order with its whole quantity.\<close>

lemma replace_shadow:
  assumes ok: "abook_ok A" "mids_ok A" and top: "ab_next A \<noteq> - 1" and r: "a_find c k A = Some r" "k' \<noteq> 0" "qty \<noteq> 0"
    and t: "t = replace_args tick c k' ty px qty tok r A" and B: "B = (a_drop c k A)\<lparr>ab_next := ab_next A + 1\<rparr>"
    and io': "io' = snd (a_replaceOrder v tick c k k' ty px qty tok A io)"
  shows "fold view_apply (new_updates io io') (book_view A) =
    (if in_left t B \<noteq> 0 \<and> ty = FillAndKill \<and> v = MapBook then book_view (in_book t B)
     else (book_view (in_book t B))(ab_next A \<mapsto> (mo_side r, px, qty)))"
proof -
  define m where "m = ab_next A"
  note D = drop_view [OF ok r(1)] and N = replace_fresh [OF ok top r(1) B, folded m_def] and L = replace_log [OF r t B io']
  have "oa_marketOrderId t = m" by (simp add: t replace_args_def m_def)
  note F = finish_view [OF N(1), of t, unfolded this, OF N(2,3) refl]
  have "m \<noteq> mo_marketOrderId r" using D(3) mids_fresh [OF ok(2)] by (auto simp: m_def)
  then have mod: "view_apply (mk_update tick (mo_marketOrderId r) U_MODIFY (mo_side r) px qty m OrderId_INVALID) (book_view A) =
      (book_view B)(m \<mapsto> (mo_side r, px, qty))"
    using D(1) by (simp add: view_apply_def mk_update_def update_view_def B)
  have can: "view_apply (mk_update tick m U_CANCEL (mo_side r) px q OrderId_INVALID OrderId_INVALID) W = W(m := None)" for q W
    by (simp add: view_apply_def mk_update_def)
  have tr: "fold view_apply (fill_updates v t (next_match_id io) (in_fills t B)) ((book_view B)(m \<mapsto> (mo_side r, px, qty))) =
      (book_view (in_book t B))(m \<mapsto> (mo_side r, px, qty))"
    using F(2) [of v "next_match_id io"] N(2) in_fills_ids [of t B] fill_updates_ids
    by (subst fold_view_other) (fastforce simp del: fun_upd_apply)+
  show ?thesis
    using N(4) [of t] unfolding L(1) m_def [symmetric] fold_append fold_simps comp_apply mod tr
    by (simp add: can fun_upd_idem del: fun_upd_apply)
qed

lemma replace_mirrors:
  assumes ok: "abook_ok A" "mids_ok A" and top: "ab_next A \<noteq> - 1"
    and A': "A' = fst (a_replaceOrder v tick c k k' ty px qty tok A io)"
    and io': "io' = snd (a_replaceOrder v tick c k k' ty px qty tok A io)"
  shows "mids_ok A'" and "fold view_apply (new_updates io io') (book_view A) = book_view A' \<longleftrightarrow>
    \<not> phantom_replace v tick c k k' ty px qty tok A"
proof -
  have "mids_ok A' \<and> (fold view_apply (new_updates io io') (book_view A) = book_view A' \<longleftrightarrow>
    \<not> phantom_replace v tick c k k' ty px qty tok A)"
  proof (cases "a_find c k A = None \<or> k' = 0 \<or> qty = 0")
    case True
    with replace_reject [OF this] ok show ?thesis by (simp add: A' io')
  next
    case False
    then obtain r where r: "a_find c k A = Some r" "k' \<noteq> 0" "qty \<noteq> 0" by auto
    define t where "t = replace_args tick c k' ty px qty tok r A"
    define B where "B = (a_drop c k A)\<lparr>ab_next := ab_next A + 1\<rparr>"
    let ?V = "book_view (in_book t B)" and ?m = "ab_next A"
    note N = replace_fresh [OF ok top r(1) B_def]
    have tm: "oa_marketOrderId t = ?m" "oa_side t = mo_side r" "oa_price t = px" "oa_orderType t = ty"
      by (simp_all add: t_def replace_args_def)
    have "A' = (if in_left t B \<noteq> 0 \<and> oa_orderType t = GoodTillCancel then a_rest t (in_left t B) (in_book t B) else in_book t B)"
      using replace_log(2) [OF r t_def B_def io'] by (simp add: A' tm)
    note F = finish_view [OF N(1), of t, unfolded tm(1), OF N(2,3) this]
    have ph: "phantom_replace v tick c k k' ty px qty tok A \<longleftrightarrow>
        (case ty of GoodTillCancel \<Rightarrow> in_left t B \<noteq> qty | FillAndKill \<Rightarrow> v = VectorBook \<or> in_left t B = 0)"
      unfolding phantom_replace_def t_def B_def using r by (cases ty) (simp_all add: Let_def)
    have ne: "?V(?m \<mapsto> x) \<noteq> ?V" "?V(?m \<mapsto> x) = ?V(?m \<mapsto> y) \<longleftrightarrow> x = y" for x y
      using N(4) [of t] by (metis fun_upd_same option.distinct(1)) (metis fun_upd_same option.inject)
    show ?thesis
      using F(1) ne r(3) unfolding replace_shadow [OF ok top r t_def B_def io'] ph F(3) tm by (cases ty; cases v) auto
  qed
  then show "mids_ok A'" "fold view_apply (new_updates io io') (book_view A) = book_view A' \<longleftrightarrow>
    \<not> phantom_replace v tick c k k' ty px qty tok A" by blast+
qed

end
