(* ===== verification/Feed.thy ===== *)
theory Feed
  imports Mirror Engine
begin

text \<open>
  The market data path from end to end: the updates the engine publishes, numbered and encoded by
  the publisher, applied by the snapshot streamer. \<open>mirrored\<close> says that the streamer's shadow books
  show exactly the resting orders of the engine's books.
\<close>

definition apply_update :: "MEMarketUpdate \<Rightarrow> shadow list \<Rightarrow> shadow list" where
  "apply_update u SB = SB[unat (mu_ticker_id u) := shadow_apply u (SB ! unat (mu_ticker_id u))]"

definition mirrored :: "abook list \<Rightarrow> shadow list \<Rightarrow> bool" where
  "mirrored As SB \<longleftrightarrow> length SB = length As \<and> (\<forall>i < length As. shadow_view (SB ! i) = book_view (As ! i))"

lemma length_apply [simp]: "length (fold apply_update us SB) = length SB"
  by (induction us arbitrary: SB) (simp_all add: apply_update_def)

lemma fold_same_ticker:
  assumes "i < length SB" and "\<And>u. u \<in> set us \<Longrightarrow> unat (mu_ticker_id u) = i"
  shows "fold apply_update us SB = SB[i := fold shadow_apply us (SB ! i)]"
  using assms by (induction us arbitrary: SB) (simp_all add: apply_update_def)

definition in_range :: "nat \<Rightarrow> MEMarketUpdate \<Rightarrow> bool" where
  "in_range n u \<longleftrightarrow> encodable u \<and> unat (mu_ticker_id u) < n"

text \<open>Draining a queue of such updates is defined and applies them in order.\<close>

lemma drain_shadow:
  assumes "list_all (in_range (length (shadow_book s))) (map su_update snaps)"
  shows "\<exists>s'. streamer_drain lib snaps s = Some s' \<and> shadow_book s' = fold apply_update (map su_update snaps) (shadow_book s)"
  using assms
proof (induction snaps arbitrary: s)
  case (Cons x snaps)
  let ?u = "su_update x"
  let ?s = "(writeReplayEntry lib x (s\<lparr>shadow_book := apply_update ?u (shadow_book s), dirty := True\<rparr>))\<lparr>last_seq_num := su_seq_num x\<rparr>"
  have "applyToBook ?u s = Some (s\<lparr>shadow_book := apply_update ?u (shadow_book s), dirty := True\<rparr>)"
    using Cons.prems by (auto simp: applyToBook_def in_range_def encodable_def Let_def apply_update_def)
  moreover have "shadow_book ?s = apply_update ?u (shadow_book s)"
    by (simp add: writeReplayEntry_def Let_def)
  moreover have "length (apply_update ?u (shadow_book s)) = length (shadow_book s)"
    by (simp add: apply_update_def)
  ultimately show ?case using Cons.IH [of ?s] Cons.prems by (simp add: Let_def)
qed simp

lemma feed_seqs:
  assumes "itch_spec lib" and "list_all (\<lambda>x. encodable (fst x)) us" and "length us < 2 ^ 64 - 1"
  shows "seqs_ok (feed lib us)"
  using assms by (auto simp: seqs_ok_def nth_feed numbered_snap_def itch_spec_def)

lemma feed_updates: "map su_update (feed lib us) = map fst us"
  by (rule nth_equalityI) (simp_all add: nth_feed numbered_snap_def)

lemma feed_in_range [simp]:
  "list_all (in_range n \<circ> su_update) (feed lib us) \<longleftrightarrow> list_all (\<lambda>x. in_range n (fst x)) us"
  using arg_cong [OF feed_updates [of lib us], of "list_all (in_range n)"] by (simp add: list.pred_map comp_def)

text \<open>
  A run of the streamer, however the queue is cut into turns and whatever clients ask in
  between, is defined; afterwards the ring, the cached snapshot and the shadow books belong to
  the updates processed.
\<close>

lemma streamer_run_ok:
  assumes "streamer_ok lib iter H s" and "seqs_ok (H @ concat (map fst turns))"
    and "list_all (in_range (length (shadow_book s))) (map su_update (concat (map fst turns)))"
  shows "\<exists>replies s'. streamer_run lib iter turns s = Some (replies, s') \<and>
    streamer_ok lib iter (H @ concat (map fst turns)) s' \<and>
    shadow_book s' = fold apply_update (map su_update (concat (map fst turns))) (shadow_book s)"
  using assms
proof (induction turns arbitrary: H s)
  case (Cons t turns)
  obtain snaps reqs where t: "t = (snaps, reqs)" by fastforce
  let ?rest = "concat (map fst turns)"
  have rng: "list_all (in_range (length (shadow_book s))) (map su_update snaps)"
    "list_all (in_range (length (shadow_book s))) (map su_update ?rest)" using Cons.prems(3) by (simp_all add: t)
  obtain s1 where s1: "streamer_drain lib snaps s = Some s1"
    "shadow_book s1 = fold apply_update (map su_update snaps) (shadow_book s)"
    using drain_shadow [OF rng(1)] by blast
  have sq: "seqs_ok ((H @ snaps) @ ?rest)" using Cons.prems(2) by (simp add: t)
  then have sq1: "seqs_ok (H @ snaps)" "length (H @ snaps) < 2 ^ 64 - 1"
    by (auto simp: seqs_ok_def nth_append split: if_splits)
  have "list_all (\<lambda>x. encodable (su_update x)) snaps" using rng(1) by (auto simp: list_all_iff in_range_def)
  then have ok1: "streamer_ok lib iter (H @ snaps) s1"
    using Cons.prems(1) sq1 streamer_drain_ring [OF _ sq1(1) s1(1)] cache_drain [OF _ _ s1(1)]
    by (simp add: streamer_ok_def)
  obtain replies s2 where s2: "serveRequests lib iter reqs s1 = Some (replies, s2)" "streamer_ok lib iter (H @ snaps) s2" "same_books s1 s2"
    using serveRequests_ok [OF ok1] by blast
  have "length (shadow_book s2) = length (shadow_book s)" using s1(2) s2(3) by (simp add: same_books_def)
  with Cons.IH [OF s2(2) sq] rng(2) obtain replies' s3 where
    "streamer_run lib iter turns s2 = Some (replies', s3)" "streamer_ok lib iter ((H @ snaps) @ ?rest) s3"
    "shadow_book s3 = fold apply_update (map su_update ?rest) (shadow_book s2)" by auto
  with s1 s2 show ?case by (simp add: t same_books_def)
qed simp

lemma streamer_init_ok: "streamer_ok lib iter [] (streamer_init n)"
  by (simp add: streamer_ok_def ring_init cache_init)

section \<open>The updates of one request\<close>

lemma add_extends:
  "marketUpdates (snd (a_addOrder v args A io)) = marketUpdates io @ new_updates io (snd (a_addOrder v args A io))"
  by (cases "oa_orderType args") (simp_all add: a_addOrder_def a_finish_def a_take_log Let_def new_updates_def)

lemma cancel_extends:
  "marketUpdates (snd (a_cancelOrder v tick c k qty tok A io)) =
     marketUpdates io @ new_updates io (snd (a_cancelOrder v tick c k qty tok A io))"
  by (simp add: a_cancelOrder_def Let_def new_updates_def split: option.split)

lemma replace_extends:
  "marketUpdates (snd (a_replaceOrder v tick c k k' ty p qty tok A io)) =
     marketUpdates io @ new_updates io (snd (a_replaceOrder v tick c k k' ty p qty tok A io))"
  by (cases ty; cases v) (simp_all add: a_replaceOrder_def a_finish_def a_take_log Let_def new_updates_def split: option.split)

lemma request_extends:
  "marketUpdates (snd (a_request v r A io)) = marketUpdates io @ new_updates io (snd (a_request v r A io))"
  by (simp add: a_request_def add_extends cancel_extends replace_extends split: ClientRequestType.split)

text \<open>They carry the request's ticker, and each has an ITCH message.\<close>

definition about :: "TickerId \<Rightarrow> MEMarketUpdate \<Rightarrow> bool" where
  "about tick u \<longleftrightarrow> mu_ticker_id u = tick \<and> encodable u"

lemma about_mk_update [simp]:
  "about tick (mk_update t m ty s p q n x) \<longleftrightarrow> t = tick \<and> ty \<in> {U_ADD, U_CANCEL, U_MODIFY, U_TRADE}"
  by (simp add: about_def encodable_def mk_update_def)

lemma about_fills: "oa_tickerId t = tick \<Longrightarrow> list_all (about tick) (fill_updates v t m fs)"
  by (induction v t m fs rule: fill_updates.induct) (auto simp: trade_update_def)

lemma about_replace:
  "list_all (about tick) (new_updates io (snd (a_replaceOrder v tick c k k' ty p qty tok A io)))"
proof (cases "a_find c k A = None \<or> k' = 0 \<or> qty = 0")
  case True
  then show ?thesis by (simp add: replace_reject)
next
  case False
  then obtain r where r: "a_find c k A = Some r" "k' \<noteq> 0" "qty \<noteq> 0" by auto
  show ?thesis unfolding replace_log(1) [OF r refl refl refl] by (simp add: about_fills replace_args_def)
qed

lemma about_request: "list_all (about (rq_ticker_id r)) (new_updates io (snd (a_request v r A io)))"
proof (cases "rq_action r")
  case NEW
  have "list_all (about (oa_tickerId args)) (new_updates io (snd (a_addOrder v args A io)))" for args
    unfolding a_addOrder_log(2) [OF refl refl] by (simp add: about_fills)
  from this [of "request_args r"] NEW show ?thesis by (simp add: a_request_def) (simp add: request_args_def)
next
  case CANCEL
  then show ?thesis
    by (simp add: a_request_def a_cancelOrder_def Let_def new_updates_def split: option.split)
next
  case MODIFY
  then show ?thesis by (simp add: a_request_def about_replace)
qed

text \<open>
  Requests whose updates tell the whole story: no cancel of part of an order, and no replacement
  that trades (Mirror). The market id counter must not be at its last value.
\<close>

definition feed_safe :: "variant \<Rightarrow> MEClientRequest \<Rightarrow> abook \<Rightarrow> bool" where
  "feed_safe v r A \<longleftrightarrow> ab_next A \<noteq> - 1 \<and>
    (case rq_action r of
       NEW \<Rightarrow> True
     | CANCEL \<Rightarrow> \<not> partial_cancel (rq_client_id r) (rq_client_order_id r) (rq_qty r) A
     | MODIFY \<Rightarrow> \<not> phantom_replace v (rq_ticker_id r) (rq_client_id r) (rq_client_order_id r)
         (rq_new_client_order_id r) (rq_type r) (rq_price r) (rq_qty r) (rq_order_token r) A)"

lemma request_mirrors:
  assumes "abook_ok A" and "mids_ok A" and "feed_safe v r A"
  shows "mids_ok (fst (a_request v r A io))"
    and "fold view_apply (new_updates io (snd (a_request v r A io))) (book_view A) = book_view (fst (a_request v r A io))"
  using assms add_mirrors [OF assms(2) _ refl refl]
    cancel_mirrors [OF assms(1,2) refl refl] replace_mirrors [OF assms(1,2) _ refl refl]
  by (cases "rq_action r"; simp add: feed_safe_def a_request_def)+

section \<open>Runs\<close>

fun feed_polls :: "variant \<Rightarrow> MEClientRequest option list \<Rightarrow> abook list \<times> engine_io \<Rightarrow> bool" where
  "feed_polls v [] S = True"
| "feed_polls v (None # polls) S = feed_polls v polls S"
| "feed_polls v (Some r # polls) S =
     (feed_safe v r (fst S ! unat (rq_ticker_id r)) \<and> feed_polls v polls (a_process v r S))"

text \<open>The invariant of the path, for shadow books that start as \<open>SB\<close>.\<close>

definition path_ok :: "shadow list \<Rightarrow> abook list \<times> engine_io \<Rightarrow> bool" where
  "path_ok SB S \<longleftrightarrow> list_all abook_ok (fst S) \<and> list_all mids_ok (fst S) \<and>
     list_all (in_range (length (fst S))) (marketUpdates (snd S)) \<and>
     mirrored (fst S) (fold apply_update (marketUpdates (snd S)) SB)"

lemma process_path:
  assumes path: "path_ok SB (As, io)" and ok: "request_ok caps fits r As" and safe: "feed_safe v r (As ! unat (rq_ticker_id r))"
  shows "path_ok SB (a_process v r (As, io))"
proof -
  let ?i = "unat (rq_ticker_id r)"
  let ?A = "As ! ?i" and ?R = "a_request v r (As ! ?i) io" and ?SB = "fold apply_update (marketUpdates io) SB"
  let ?us = "new_updates io (snd ?R)"
  have i: "?i < length As" using ok by (simp add: request_ok_def Let_def)
  have P: "list_all abook_ok As" "list_all mids_ok As" "list_all (in_range (length As)) (marketUpdates io)" "mirrored As ?SB"
    using path by (simp_all add: path_ok_def)
  have S: "a_process v r (As, io) = (As[?i := fst ?R], snd ?R)"
    by (simp add: a_process_def Let_def split: prod.split)
  note M = request_mirrors [OF _ _ safe, of io]
  have A: "abook_ok ?A" "mids_ok ?A" using P i by (simp_all add: list_all_length)
  have ab: "u \<in> set ?us \<Longrightarrow> unat (mu_ticker_id u) = ?i \<and> in_range (length As) u" for u
    using about_request [of r io v ?A] i by (auto simp: list_all_iff about_def in_range_def)
  have len: "length ?SB = length As" using P(4) by (simp add: mirrored_def)
  have sh: "fold apply_update ?us ?SB = ?SB[?i := fold shadow_apply ?us (?SB ! ?i)]"
    by (rule fold_same_ticker) (use ab i len in auto)
  have "shadow_view (fold shadow_apply ?us (?SB ! ?i)) = book_view (fst ?R)"
    using P(4) i M(2) [OF A] by (simp add: shadow_view_fold mirrored_def)
  then have "mirrored (As[?i := fst ?R]) (?SB[?i := fold shadow_apply ?us (?SB ! ?i)])"
    using P(4) i by (auto simp: mirrored_def nth_list_update)
  moreover have "list_all abook_ok (As[?i := fst ?R])"
    using a_process_books(2) [OF ok P(1), of v io] by (simp add: S)
  moreover have "list_all mids_ok (As[?i := fst ?R])"
    using P(2) M(1) [OF A] i by (auto simp: list_all_length nth_list_update)
  ultimately show ?thesis
    using P(3) ab by (auto simp: path_ok_def S request_extends sh list_all_iff)
qed

lemma run_path:
  assumes "path_ok SB S" and "polls_ok v caps fits polls S" and "feed_polls v polls S"
  shows "path_ok SB (a_run v polls S)"
  using assms
proof (induction v polls S rule: a_run.induct)
  case (3 v r polls S)
  then show ?case using process_path [of SB "fst S" "snd S" caps fits r v] by simp
qed simp_all

lemma path_init: "path_ok (replicate n []) (replicate n a_empty, \<lparr>next_match_id = 1, responses = [], marketUpdates = []\<rparr>)"
proof -
  have "book_view a_empty = shadow_view []"
    by (simp add: book_view_def shadow_view_def a_empty_def a_orders_def)
  then show ?thesis by (simp add: path_ok_def mirrored_def list_all_iff a_empty_ok mids_empty)
qed

text \<open>
  Whatever the publisher and the streamer make of the engine's updates, the shadow books end up
  mirroring the engine's books, and the ring holds the published frames.
\<close>

lemma path_published:
  assumes spec: "itch_spec lib" and path: "path_ok (replicate n []) S" and n: "length (fst S) = n"
    and polls: "map fst (polled ups) = marketUpdates (snd S)" and room: "length (polled ups) < 2 ^ 64 - 1"
  shows "\<exists>p. publisher_run lib ups publisher_init = Some p \<and> published lib (polled ups) p \<and>
    (\<forall>turns iter. concat (map fst turns) = streamer_updates p \<longrightarrow>
      (\<exists>replies s. streamer_run lib iter turns (streamer_init n) = Some (replies, s) \<and>
        streamer_ok lib iter (streamer_updates p) s \<and> mirrored (fst S) (shadow_book s)))"
proof -
  have enc: "list_all (in_range n) (map fst (polled ups))" using path n polls by (simp add: path_ok_def)
  then have enc': "list_all (\<lambda>x. encodable (fst x)) (polled ups)" by (auto simp: list_all_iff in_range_def)
  from publisher_run_ok [OF spec published_init this] obtain p where
    p: "publisher_run lib ups publisher_init = Some p" "published lib (polled ups) p" by auto
  have q: "streamer_updates p = feed lib (polled ups)" using p(2) by (simp add: published_def)
  have "\<exists>replies s. streamer_run lib iter turns (streamer_init n) = Some (replies, s) \<and>
      streamer_ok lib iter (streamer_updates p) s \<and> mirrored (fst S) (shadow_book s)"
    if turns: "concat (map fst turns) = streamer_updates p" for turns iter
  proof -
    have len: "length (shadow_book (streamer_init n)) = n" by (simp add: streamer_init_def)
    obtain replies s where run: "streamer_run lib iter turns (streamer_init n) = Some (replies, s)"
      "streamer_ok lib iter ([] @ concat (map fst turns)) s"
      "shadow_book s = fold apply_update (map su_update (concat (map fst turns))) (shadow_book (streamer_init n))"
      using streamer_run_ok [OF streamer_init_ok, of turns n lib iter] feed_seqs [OF spec enc' room] enc
      by (auto simp: turns q feed_updates len)
    then show ?thesis using path by (auto simp: turns q feed_updates polls path_ok_def streamer_init_def)
  qed
  with p show ?thesis by blast
qed

end
