(* ===== verification/FreePool.thy ===== *)
theory FreePool
  imports Engine
begin

text \<open>
  A concrete object pool: a stack of free slots and the list of slots in use. It satisfies
  \<open>pool_spec\<close>, so every statement that assumes a pool holds of something, and the order books can
  be run on concrete requests. The real pool is outside the repository.
\<close>

type_synonym free_pool = "addr list \<times> addr list"

definition free_pool :: "free_pool pool_ops" where
  "free_pool = \<lparr>pool_allocate = (\<lambda>(free, used). case free of [] \<Rightarrow> None | a # free \<Rightarrow> Some (a, (free, a # used))),
     pool_deallocate = (\<lambda>a (free, used). (a # free, removeAll a used))\<rparr>"

definition free_pool_view :: "free_pool pool_view" where
  "free_pool_view = \<lparr>pv_inv = (\<lambda>(free, used). distinct (free @ used)), pv_live = (\<lambda>(free, used). set used),
     pv_cap = (\<lambda>(free, used). length free + length used)\<rparr>"

definition fresh_pool :: "nat \<Rightarrow> free_pool" where
  "fresh_pool n = ([0..<n], [])"

lemma length_removeAll_distinct:
  assumes "distinct xs" and "a \<in> set xs"
  shows "Suc (length (removeAll a xs)) = length xs"
  using assms by (induction xs) auto

lemma free_pool_spec: "pool_spec free_pool free_pool_view"
proof -
  have 1: "finite (set u) \<and> card (set u) \<le> length f + length u \<and>
      (card (set u) < length f + length u \<longrightarrow> pool_allocate free_pool (f, u) \<noteq> None)"
    if "distinct (f @ u)" for f u
    using that distinct_card [of u] by (auto simp: free_pool_def split: list.split)
  have 2: "distinct (f' @ u') \<and> a \<notin> set u \<and> set u' = insert a (set u) \<and> length f' + length u' = length f + length u"
    if "distinct (f @ u)" "pool_allocate free_pool (f, u) = Some (a, (f', u'))" for f u a f' u'
    using that by (auto simp: free_pool_def split: list.splits)
  have 3: "distinct ((a # f) @ removeAll a u) \<and> length (a # f) + length (removeAll a u) = length f + length u"
    if "distinct (f @ u)" "a \<in> set u" for f u and a :: addr
    using that length_removeAll_distinct [of u a] by (auto simp: distinct_removeAll)
  have view: "pv_inv free_pool_view (f, u) = distinct (f @ u)" "pv_live free_pool_view (f, u) = set u"
    "pv_cap free_pool_view (f, u) = length f + length u" for f u
    by (simp_all add: free_pool_view_def)
  have dealloc: "pool_deallocate free_pool a (f, u) = (a # f, removeAll a u)" for a f u
    by (simp add: free_pool_def)
  show ?thesis
    unfolding pool_spec_def split_paired_All dealloc view
  proof (intro conjI)
    show "\<forall>f u. distinct (f @ u) \<longrightarrow> finite (set u) \<and> card (set u) \<le> length f + length u \<and>
      (card (set u) < length f + length u \<longrightarrow> pool_allocate free_pool (f, u) \<noteq> None)"
      using 1 by blast
  next
    show "\<forall>f u a f' u'. distinct (f @ u) \<and> pool_allocate free_pool (f, u) = Some (a, f', u') \<longrightarrow>
      distinct (f' @ u') \<and> a \<notin> set u \<and> set u' = insert a (set u) \<and> length f' + length u' = length f + length u"
      using 2 by blast
  next
    show "\<forall>f u (a :: addr). distinct (f @ u) \<and> a \<in> set u \<longrightarrow> distinct ((a # f) @ removeAll a u) \<and>
      set (removeAll a u) = set u - {a} \<and> length (a # f) + length (removeAll a u) = length f + length u"
    proof (intro allI impI)
      fix f u and a :: addr assume "distinct (f @ u) \<and> a \<in> set u"
      then show "distinct ((a # f) @ removeAll a u) \<and> set (removeAll a u) = set u - {a} \<and>
          length (a # f) + length (removeAll a u) = length f + length u"
        using 3 [of f u a] set_removeAll [of a u] by blast
    qed
  qed
qed

lemma fresh_pool_ok [simp]:
  "pv_inv free_pool_view (fresh_pool n)" "pv_live free_pool_view (fresh_pool n) = {}"
  "pv_cap free_pool_view (fresh_pool n) = n"
  by (simp_all add: free_pool_view_def fresh_pool_def)

text \<open>The two books over such a pool, as the engine's constructor makes them.\<close>

definition map_book0 :: "nat \<Rightarrow> TickerId \<Rightarrow> free_pool map_book" where
  "map_book0 n i = map_book_init n i (fresh_pool n)"

definition vec_book0 :: "nat \<Rightarrow> TickerId \<Rightarrow> free_pool vector_book" where
  "vec_book0 n i = vector_book_init i True (fresh_pool n)"

lemma map_book0_rep: "map_represents free_pool free_pool_view (map_book0 n i) a_empty"
  unfolding map_book0_def by (rule map_represents_init) (simp_all add: free_pool_spec)

lemma vec_book0_rep: "vec_represents free_pool free_pool_view (vec_book0 n i) a_empty"
  unfolding vec_book0_def by (rule vec_represents_init) (simp_all add: free_pool_spec)

lemma book0_cap [simp]:
  "pv_cap free_pool_view (bk_pool (map_book0 n i)) = n" "pv_cap free_pool_view (bk_pool (vec_book0 n i)) = n"
  by (simp_all add: map_book0_def map_book_init_def vec_book0_def vector_book_init_def)

end
