(* ===== verification/TradeReports.thy ===== *)
theory TradeReports
  imports Requests
begin

text \<open>
  Who is told of a trade. Each trade of a run of the engine is a triple: the report to the owner of the resting order, the report to the
  owner of the incoming order, and the market update. \<open>trade_ok\<close> says that the three agree and that each report goes to the client
  whose request introduced the order it names. \<open>same_trades\<close> compares the trades of the two order books.
\<close>

section \<open>The parties of a trade\<close>

text \<open>A report about an order goes to the client that introduced it, with the ticker, token and limit price of that request.\<close>

definition party :: "MEClientRequest set \<Rightarrow> MEClientResponse \<Rightarrow> bool" where
  "party R r \<longleftrightarrow> (\<exists>q\<in>R. introduced q = [rs_client_order_id r] \<and> rq_client_id q = rs_client_id r \<and>
     rq_ticker_id q = rs_ticker_id r \<and> rq_order_token q = rs_order_token r \<and> rq_price q = rs_price r)"

text \<open>A price is inside the limit of the order a report is about.\<close>

definition in_limit :: "Price \<Rightarrow> MEClientResponse \<Rightarrow> bool" where
  "in_limit p r \<longleftrightarrow> (case rs_side r of BUY \<Rightarrow> p \<le> rs_price r | SELL \<Rightarrow> rs_price r \<le> p)"

type_synonym trade = "MEClientResponse \<times> MEClientResponse \<times> MEMarketUpdate"

definition trade_ok :: "MEClientRequest set \<Rightarrow> trade \<Rightarrow> bool" where
  "trade_ok R x \<longleftrightarrow>
    (case x of (resting, incoming, u) \<Rightarrow>
       party R resting \<and> party R incoming \<and> rs_side resting = opposite (rs_side incoming) \<and>
       rs_match_id incoming = rs_match_id resting \<and> rs_executed_qty incoming = rs_executed_qty resting \<and>
       rs_ticker_id incoming = rs_ticker_id resting \<and> rs_execution_price resting = rs_price resting \<and>
       rs_execution_price incoming = rs_price resting \<and> in_limit (rs_price resting) incoming \<and>
       mu_ticker_id u = rs_ticker_id resting \<and> mu_market_order_id u = rs_market_order_id resting \<and>
       mu_side u = rs_side resting \<and> mu_price u = rs_price resting \<and> mu_qty u = rs_executed_qty resting)"

definition reports :: "trade list \<Rightarrow> MEClientResponse list" where
  "reports ts = concat (map (\<lambda>(a, b, u). [a, b]) ts)"

definition published_trades :: "trade list \<Rightarrow> MEMarketUpdate list" where
  "published_trades ts = map (\<lambda>(a, b, u). u) ts"

lemma trade_lists_simps [simp]:
  "reports [] = []" "reports (x # ts) = [fst x, fst (snd x)] @ reports ts" "reports (ts @ ts') = reports ts @ reports ts'"
  "published_trades [] = []" "published_trades (x # ts) = snd (snd x) # published_trades ts"
  "published_trades (ts @ ts') = published_trades ts @ published_trades ts'"
  by (simp_all add: reports_def published_trades_def split_def)

definition trade_log :: "MEClientRequest set \<Rightarrow> engine_io \<Rightarrow> bool" where
  "trade_log R io \<longleftrightarrow> (\<exists>ts. executions (responses io) = reports ts \<and> trades (marketUpdates io) = published_trades ts \<and>
     list_all (trade_ok R) ts)"

lemma trade_log_send [simp]:
  "rs_status r \<noteq> EXECUTED \<Longrightarrow> trade_log R (sendClientResponse r io) = trade_log R io"
  "mu_type u \<noteq> U_TRADE \<Longrightarrow> trade_log R (sendMarketUpdate u io) = trade_log R io"
  by (simp_all add: trade_log_def)

section \<open>The trades of a match\<close>

text \<open>Where a resting and an incoming order come from.\<close>

definition order_from :: "MEClientRequest set \<Rightarrow> TickerId \<Rightarrow> MEOrder \<Rightarrow> bool" where
  "order_from R T x \<longleftrightarrow> (\<exists>q\<in>R. introduced q = [mo_clientOrderId x] \<and> rq_client_id q = mo_clientId x \<and>
     rq_ticker_id q = T \<and> rq_order_token q = mo_order_token x \<and> rq_price q = mo_price x)"

definition args_from :: "MEClientRequest set \<Rightarrow> order_args \<Rightarrow> bool" where
  "args_from R t \<longleftrightarrow> (\<exists>q\<in>R. introduced q = [oa_clientOrderId t] \<and> rq_client_id q = oa_clientId t \<and>
     rq_ticker_id q = oa_tickerId t \<and> rq_order_token q = oa_orderToken t \<and> rq_price q = oa_price t)"

definition side_from :: "MEClientRequest set \<Rightarrow> TickerId \<Rightarrow> Side \<Rightarrow> MEOrder list \<Rightarrow> bool" where
  "side_from R T s L \<longleftrightarrow> list_all (\<lambda>x. mo_side x = s \<and> order_from R T x) L"

definition book_from :: "MEClientRequest set \<Rightarrow> TickerId \<Rightarrow> abook \<Rightarrow> bool" where
  "book_from R T A \<longleftrightarrow> side_from R T BUY (ab_bids A) \<and> side_from R T SELL (ab_asks A)"

lemma book_from_sides: "book_from R T A \<longleftrightarrow> side_from R T s (a_side s A) \<and> side_from R T (opposite s) (a_side (opposite s) A)"
  by (cases s) (auto simp: book_from_def)

lemma book_from_counter [simp]: "book_from R T (A\<lparr>ab_next := n\<rparr>) = book_from R T A"
  by (simp add: book_from_def)

lemma order_from_quantity [simp]: "order_from R T (x\<lparr>mo_remainingQuantity := q\<rparr>) = order_from R T x"
  by (simp add: order_from_def)

lemma side_from_leave: "side_from R T s L \<Longrightarrow> side_from R T s (a_leave t q L)"
  by (auto simp: side_from_def list_all_iff dest!: a_leave_set)

fun fill_trades :: "variant \<Rightarrow> order_args \<Rightarrow> Quantity \<Rightarrow> OrderId \<Rightarrow> (MEOrder \<times> Quantity) list \<Rightarrow> trade list" where
  "fill_trades v t q m [] = []"
| "fill_trades v t q m ((r, f) # fs) =
     (resting_fill t r f m, incoming_fill t r f (q - f) m, trade_update v t r f m) # fill_trades v t (q - f) (m + 1) fs"

lemma fill_trades_messages:
  "fill_responses t q m fs = reports (fill_trades v t q m fs)" "fill_updates v t m fs = published_trades (fill_trades v t q m fs)"
  by (induction v t q m fs rule: fill_trades.induct) simp_all

lemma fill_trade_ok:
  assumes "order_from R (oa_tickerId t) r" and "mo_side r = opposite (oa_side t)" and "args_from R t" and "crosses t r"
  shows "trade_ok R (resting_fill t r f m, incoming_fill t r f q m, trade_update v t r f m)"
  using assms
  by (cases "oa_side t") (auto simp: trade_ok_def party_def order_from_def args_from_def in_limit_def crosses_def resting_fill_def
      incoming_fill_def trade_update_def rec_defs)

lemma fill_trades_ok:
  assumes "args_from R t" and "list_all (\<lambda>x. order_from R (oa_tickerId t) (fst x) \<and> mo_side (fst x) = opposite (oa_side t) \<and> crosses t (fst x)) fs"
  shows "list_all (trade_ok R) (fill_trades v t q m fs)"
  using assms(2) fill_trade_ok [OF _ _ assms(1)] by (induction v t q m fs rule: fill_trades.induct) simp_all

lemma in_fills_from:
  assumes "book_from R (oa_tickerId t) A"
  shows "list_all (\<lambda>x. order_from R (oa_tickerId t) (fst x) \<and> mo_side (fst x) = opposite (oa_side t) \<and> crosses t (fst x)) (in_fills t A)"
proof -
  have "fst x \<in> set (a_side (opposite (oa_side t)) A)" if "x \<in> set (in_fills t A)" for x
    using that in_fills_prefix [of t A] by (metis image_eqI in_set_takeD list.set_map)
  moreover have "crosses t (fst x)" if "x \<in> set (in_fills t A)" for x
    using a_fills_crosses [of "fst x" "snd x"] that by (simp add: in_fills_def)
  ultimately show ?thesis using assms by (simp add: book_from_sides [of _ _ _ "oa_side t"] side_from_def list_all_iff)
qed

section \<open>Every request keeps it\<close>

lemma finish_from:
  assumes A: "book_from R T A" and t: "args_from R t" "oa_tickerId t = T" and io: "trade_log R io"
    and f: "\<And>q io. trade_log R io \<Longrightarrow> trade_log R (f q io)" and g: "\<And>q io. trade_log R io \<Longrightarrow> trade_log R (g q io)"
  shows "book_from R T (fst (a_finish v t f g A io))" and "trade_log R (snd (a_finish v t f g A io))"
proof -
  have B: "book_from R T (in_book t A)"
    using A side_from_leave by (simp add: book_from_sides [of _ _ _ "oa_side t"] in_book_def)
  moreover have "order_from R T (order_of t q)" "mo_side (order_of t q) = oa_side t" for q
    using t by (simp_all add: order_from_def args_from_def rec_defs)
  ultimately have "book_from R T (a_rest t q (in_book t A))" for q
    by (simp add: book_from_sides [of _ _ _ "oa_side t"] side_from_def a_rest_def list_all_iff)
  with B show "book_from R T (fst (a_finish v t f g A io))" by (simp add: a_finish_book)
  obtain ts where ts: "executions (responses io) = reports ts" "trades (marketUpdates io) = published_trades ts" "list_all (trade_ok R) ts"
    using io by (auto simp: trade_log_def)
  let ?ts = "fill_trades v t (oa_initialQuantity t) (next_match_id io) (in_fills t A)"
  have "list_all (trade_ok R) ?ts" by (rule fill_trades_ok [OF t(1) in_fills_from [OF A [folded t(2)]]])
  then have "trade_log R (snd (snd (a_take v t A io)))"
    unfolding trade_log_def a_take_log
    by (intro exI [of _ "ts @ ?ts"]) (simp add: ts flip: fill_trades_messages)
  with f g show "trade_log R (snd (a_finish v t f g A io))"
    by (simp add: a_finish_def a_take_log split: OrderType.split)
qed

lemma drop_from: "book_from R T A \<Longrightarrow> book_from R T (a_drop c k A)"
  by (auto simp: book_from_def side_from_def a_drop_def list_all_iff)

lemma shrink_from: "book_from R T A \<Longrightarrow> book_from R T (a_shrink c k q A)"
  by (auto simp: book_from_def side_from_def a_shrink_def Let_def list_all_iff)

lemma request_from:
  assumes A: "book_from R (rq_ticker_id r) A" and io: "trade_log R io" and r: "r \<in> R"
  shows "book_from R (rq_ticker_id r) (fst (a_request v r A io)) \<and> trade_log R (snd (a_request v r A io))"
proof (cases "rq_action r")
  case NEW
  have "args_from R ((request_args r)\<lparr>oa_marketOrderId := m\<rparr>)" for m
    unfolding args_from_def by (rule bexI [OF _ r]) (simp add: request_args_def introduced_def NEW)
  with A io show ?thesis
    by (auto simp: a_request_def NEW a_addOrder_def Let_def request_args_def intro!: finish_from)
next
  case CANCEL
  with A io show ?thesis
    by (auto simp: a_request_def a_cancelOrder_def Let_def drop_from shrink_from reject_response_def split: option.split)
next
  case MODIFY
  have "args_from R t" if "oa_tickerId t = rq_ticker_id r" "oa_clientId t = rq_client_id r" "oa_clientOrderId t = rq_new_client_order_id r"
    "oa_orderToken t = rq_order_token r" "oa_price t = rq_price r" for t
    unfolding args_from_def by (rule bexI [OF _ r]) (simp add: that introduced_def MODIFY)
  with A io show ?thesis
    by (auto simp: a_request_def MODIFY a_replaceOrder_def Let_def drop_from reject_response_def
        intro!: finish_from split: option.split variant.split)
qed

definition engine_from :: "MEClientRequest set \<Rightarrow> abook list \<times> engine_io \<Rightarrow> bool" where
  "engine_from R S \<longleftrightarrow> (\<forall>T. unat T < length (fst S) \<longrightarrow> book_from R T (fst S ! unat T)) \<and> trade_log R (snd S)"

lemma run_from:
  assumes "engine_from R S" and "set (polled polls) \<subseteq> R" and "list_all (\<lambda>r. unat (rq_ticker_id r) < length (fst S)) (polled polls)"
  shows "engine_from R (a_run v polls S)"
  using assms
proof (induction v polls S rule: a_run.induct)
  case (3 v r polls S)
  obtain As io where S: "S = (As, io)" by (cases S)
  have "book_from R (rq_ticker_id r) (As ! unat (rq_ticker_id r))" "trade_log R io" "r \<in> R"
    using 3(2-4) by (auto simp: S engine_from_def)
  note Q = request_from [OF this, of v]
  let ?Q = "a_request v r (As ! unat (rq_ticker_id r)) io"
  have "book_from R T (As[unat (rq_ticker_id r) := fst ?Q] ! unat T)" if "unat T < length As" for T
  proof (cases "T = rq_ticker_id r")
    case True
    with that Q show ?thesis by simp
  next
    case False
    then have "unat (rq_ticker_id r) \<noteq> unat T" by (simp add: word_unat_eq_iff)
    with that 3(2) show ?thesis by (simp add: S engine_from_def)
  qed
  with Q have "engine_from R (a_process v r S)" by (simp add: S engine_from_def a_process_def Let_def split_def)
  moreover have "length (fst (a_process v r S)) = length (fst S)"
    by (simp add: S a_process_def Let_def split: prod.split)
  ultimately show ?case using 3 by simp
qed simp_all

lemma engine_from_init: "engine_from R (replicate n a_empty, engine_io0)"
  by (auto simp: engine_from_def book_from_def side_from_def a_empty_def engine_io0_def trade_log_def intro: exI [of _ "[]"])

lemma polls_ok_tickers:
  "polls_ok v caps fits polls S \<Longrightarrow> list_all (\<lambda>r. unat (rq_ticker_id r) < length (fst S)) (polled polls)"
proof (induction polls arbitrary: S)
  case (Cons p polls)
  show ?case
  proof (cases p)
    case (Some r)
    have "length (fst (a_process v r S)) = length (fst S)" by (cases S) (simp add: a_process_def Let_def split: prod.split)
    with Cons Some show ?thesis by (fastforce simp: request_ok_def Let_def)
  qed (use Cons in simp)
qed simp

text \<open>Numbered reports that are those of a list of trades.\<close>

lemma length_reports [simp]: "length (reports ts) = 2 * length ts"
  by (induction ts) simp_all

lemma length_pair_up [simp]: "length (pair_up ms) = 2 * length ms"
  by (induction ms rule: pair_up.induct) simp_all

lemma trades_numbered:
  assumes "numbered io" and "trade_log R io"
  obtains ts where "executions (responses io) = reports ts" and "trades (marketUpdates io) = published_trades ts" and "list_all (trade_ok R) ts"
    and "map rs_match_id (reports ts) = pair_up (ids_from 1 (length ts))" and "next_match_id io = 1 + of_nat (length ts)"
proof -
  obtain ts where ts: "executions (responses io) = reports ts" "trades (marketUpdates io) = published_trades ts" "list_all (trade_ok R) ts"
    using assms(2) by (auto simp: trade_log_def)
  obtain n where n: "next_match_id io = 1 + of_nat n" "map rs_match_id (executions (responses io)) = pair_up (ids_from 1 n)"
    using assms(1) by (auto simp: numbered_def)
  have "n = length ts" using arg_cong [OF n(2), of length] by (simp add: ts(1) ids_from_def)
  with n that [OF ts] show thesis by (simp add: ts(1))
qed

section \<open>The trades of the two books\<close>

definition same_trades :: "engine_io \<Rightarrow> engine_io \<Rightarrow> bool" where
  "same_trades io io' \<longleftrightarrow> next_match_id io = next_match_id io' \<and> executions (responses io) = executions (responses io') \<and>
     map without_match_id (trades (marketUpdates io)) = map without_match_id (trades (marketUpdates io'))"

lemma same_trades_refl [simp]: "same_trades io io"
  by (simp add: same_trades_def)

lemma same_trades_send [simp]:
  "rs_status r \<noteq> EXECUTED \<Longrightarrow> same_trades (sendClientResponse r io) io' = same_trades io io'"
  "rs_status r \<noteq> EXECUTED \<Longrightarrow> same_trades io (sendClientResponse r io') = same_trades io io'"
  "mu_type u \<noteq> U_TRADE \<Longrightarrow> same_trades (sendMarketUpdate u io) io' = same_trades io io'"
  "mu_type u \<noteq> U_TRADE \<Longrightarrow> same_trades io (sendMarketUpdate u io') = same_trades io io'"
  by (simp_all add: same_trades_def)

lemma same_trades_finish:
  assumes "same_trades io io'" and "\<And>q io io'. same_trades io io' \<Longrightarrow> same_trades (f q io) (f' q io')"
    and "\<And>q io io'. same_trades io io' \<Longrightarrow> same_trades (g q io) (g' q io')"
  shows "same_trades (snd (a_finish v t f g A io)) (snd (a_finish v' t f' g' A io'))"
proof -
  have "same_trades (snd (snd (a_take v t A io))) (snd (snd (a_take v' t A io')))"
    using assms(1) fill_updates_variants [of v t _ _ v'] by (simp add: a_take_log same_trades_def)
  with assms(2,3) show ?thesis by (simp add: a_finish_def a_take_log split: OrderType.split)
qed

lemma same_trades_request: "same_trades io io' \<Longrightarrow> same_trades (snd (a_request v r A io)) (snd (a_request v' r A io'))"
  by (cases "rq_action r")
    (auto simp: a_request_def a_addOrder_def a_cancelOrder_def a_replaceOrder_def Let_def reject_response_def
      intro!: same_trades_finish split: option.split variant.split)

lemma same_trades_run:
  assumes "same_trades io io'"
  shows "same_trades (snd (a_run v polls (As, io))) (snd (a_run v' polls (As, io')))"
  using assms
proof (induction polls arbitrary: As io io')
  case (Cons p polls)
  show ?case
  proof (cases p)
    case (Some r)
    have "fst (a_process v r (As, io)) = fst (a_process v' r (As, io'))" by (rule a_process_agree)
    moreover have "same_trades (snd (a_process v r (As, io))) (snd (a_process v' r (As, io')))"
      using same_trades_request [OF Cons.prems] by (simp add: a_process_io)
    ultimately show ?thesis using Cons.IH by (simp add: Some) (metis prod.collapse)
  qed (use Cons in simp)
qed simp

end
