(* ===== verification/BookTheorems.thy ===== *)
theory BookTheorems
  imports FreePool TradeReports
begin

text \<open>
  The properties of the two order books, stated over the operations of the source. Each follows
  from the interpretation of the locales \<open>book_store\<close> and \<open>order_book\<close> on the book and from the
  facts on the abstract book in BookProps and Trades.
\<close>

section \<open>Sample data\<close>

definition sample_io :: engine_io where
  "sample_io = \<lparr>next_match_id = 1, responses = [], marketUpdates = []\<rparr>"

definition sample_args :: "ClientId \<Rightarrow> OrderId \<Rightarrow> OrderType \<Rightarrow> Side \<Rightarrow> Price \<Rightarrow> Quantity \<Rightarrow> order_args" where
  "sample_args c k ty s p q = \<lparr>oa_tickerId = 0, oa_clientId = c, oa_clientOrderId = k, oa_marketOrderId = 0,
     oa_orderType = ty, oa_price = p, oa_initialQuantity = q, oa_side = s, oa_orderToken = zero_token\<rparr>"

text \<open>A sell order of ten at a hundred, resting alone.\<close>

definition sample_book :: abook where
  "sample_book = fst (a_addOrder MapBook (sample_args 7 1 GoodTillCancel SELL 100 10) a_empty sample_io)"

definition sample_vbook :: abook where
  "sample_vbook = fst (a_addOrder VectorBook (sample_args 7 1 GoodTillCancel SELL 100 10) a_empty sample_io)"

lemma map_sample_rep:
  "\<exists>b. map_represents free_pool free_pool_view b sample_book \<and> pv_cap free_pool_view (bk_pool b) = 4"
proof -
  have "add_ok 4 (\<lambda>_. True) (sample_args 7 1 GoodTillCancel SELL 100 10) a_empty"
    by (simp add: add_ok_def a_empty_def a_find_def a_orders_def)
  then show ?thesis
    using map_ob.add_refines [OF map_book0_rep, of 4 0 "sample_args 7 1 GoodTillCancel SELL 100 10" sample_io]
    unfolding sample_book_def by (simp) blast
qed

lemma vec_sample_rep:
  "\<exists>b. vec_represents free_pool free_pool_view b sample_vbook \<and> pv_cap free_pool_view (bk_pool b) = 4"
proof -
  have "add_ok 4 fits_array (sample_args 7 1 GoodTillCancel SELL 100 10) a_empty"
    by (simp add: add_ok_def a_empty_def a_find_def a_orders_def fits_array_def sample_args_def MAX_PRICE_LEVELS_def)
  then show ?thesis
    using vec_ob.add_refines [OF vec_book0_rep, of 4 0 "sample_args 7 1 GoodTillCancel SELL 100 10" sample_io]
    unfolding sample_vbook_def by (simp) blast
qed

lemma sample_book_eq:
  "sample_book = \<lparr>ab_bids = [], ab_asks = [mk_order 0 7 1 1 GoodTillCancel 100 10 SELL zero_token], ab_next = 2\<rparr>"
  "sample_vbook = sample_book"
  by (simp_all add: sample_book_def sample_vbook_def a_addOrder_def a_finish_def a_take_def a_rest_def a_insert_def
      order_of_def sample_args_def a_empty_def)

section \<open>The books implement the contract\<close>

text \<open>
  C1. Adding an order to the map book, if a read of \<^verbatim>\<open>priceLevel.head\<close> after its map node was erased yields the value last
  stored there (\<open>LastValue\<close>): on any memory that represents an abstract book, with room
  and a fresh id for a good-till-cancel order, \<^verbatim>\<open>addOrder\<close> returns,
  sends exactly the messages of the contract, and leaves a memory that represents the
  contract's result. By the C++ standard that read is undefined behaviour; C23 says when it happens.
\<close>

theorem map_add_implements:
  assumes "map_represents ops pv b A" and "add_ok (pv_cap pv (bk_pool b)) (\<lambda>_. True) args A"
  shows "\<exists>b'. map_addOrder LastValue ops args b io = Some (b', snd (a_addOrder MapBook args A io)) \<and>
    map_represents ops pv b' (fst (a_addOrder MapBook args A io)) \<and>
    pv_cap pv (bk_pool b') = pv_cap pv (bk_pool b)"
  using map_ob.add_refines [OF assms, of io] by (simp add: map_book_ops_def)

theorem map_add_implements_witness:
  "\<exists>b'. map_addOrder LastValue free_pool (sample_args 7 1 GoodTillCancel SELL 100 10) (map_book0 4 0) sample_io =
      Some (b', snd (a_addOrder MapBook (sample_args 7 1 GoodTillCancel SELL 100 10) a_empty sample_io))"
  using map_add_implements [OF map_book0_rep, of 4 0 "sample_args 7 1 GoodTillCancel SELL 100 10" sample_io]
  by (simp add: add_ok_def a_empty_def a_find_def a_orders_def) blast

text \<open>
  C2. Cancelling in the map book: an unknown order, a partial quantity, the whole quantity and a
  quantity larger than what rests all behave as the contract says, without undefined behaviour.
\<close>

theorem map_cancel_implements:
  assumes "map_represents ops pv b A"
  shows "\<exists>b'. map_cancelOrder ops tick c k qty tok b io = Some (b', snd (a_cancelOrder MapBook tick c k qty tok A io)) \<and>
    map_represents ops pv b' (fst (a_cancelOrder MapBook tick c k qty tok A io)) \<and>
    pv_cap pv (bk_pool b') = pv_cap pv (bk_pool b)"
  using map_ob.cancel_refines [OF assms, of tick c k qty tok io] by (simp add: map_book_ops_def)

theorem map_cancel_implements_witness:
  "\<exists>b b'. map_represents free_pool free_pool_view b sample_book \<and>
    map_cancelOrder free_pool 0 7 1 4 zero_token b sample_io =
      Some (b', snd (a_cancelOrder MapBook 0 7 1 4 zero_token sample_book sample_io))"
  using map_sample_rep map_cancel_implements [of free_pool free_pool_view _ sample_book 0 7 1 4 zero_token sample_io]
  by blast

text \<open>
  C3. Replacing in the map book, with \<open>LastValue\<close> for the read of an erased node (see C1): the old order leaves, the replacement is matched and, if
  something is left of a good-till-cancel replacement, rests, using the room of the old order.
\<close>

theorem map_replace_implements:
  assumes "map_represents ops pv b A" and "replace_ok (\<lambda>_. True) c k k' ty p A"
  shows "\<exists>b'. map_replaceOrder LastValue ops tick c k k' ty p qty tok b io =
      Some (b', snd (a_replaceOrder MapBook tick c k k' ty p qty tok A io)) \<and>
    map_represents ops pv b' (fst (a_replaceOrder MapBook tick c k k' ty p qty tok A io)) \<and>
    pv_cap pv (bk_pool b') = pv_cap pv (bk_pool b)"
  using map_ob.replace_refines [OF assms, of tick qty tok io] by (simp add: map_book_ops_def)

lemma sample_replace_ok: "replace_ok fits_array 7 1 2 GoodTillCancel 101 sample_book" "replace_ok (\<lambda>_. True) 7 1 2 GoodTillCancel 101 sample_book"
  by (simp_all add: replace_ok_def sample_book_eq a_drop_def a_find_def a_orders_def has_key_def rec_defs
      fits_array_def MAX_PRICE_LEVELS_def)

theorem map_replace_implements_witness:
  "\<exists>b b'. map_represents free_pool free_pool_view b sample_book \<and>
    map_replaceOrder LastValue free_pool 0 7 1 2 GoodTillCancel 101 5 zero_token b sample_io =
      Some (b', snd (a_replaceOrder MapBook 0 7 1 2 GoodTillCancel 101 5 zero_token sample_book sample_io))"
  using map_sample_rep sample_replace_ok
    map_replace_implements [of free_pool free_pool_view _ sample_book 7 1 2 GoodTillCancel 101 0 5 zero_token sample_io]
  by blast

text \<open>
  C4. Adding an order to the vector book: for a price inside its arrays of levels, and with room and a fresh id for a good-till-cancel
  order, \<^verbatim>\<open>addOrder\<close> ends without undefined behaviour, sends exactly the messages of the contract and leaves a memory
  that represents the contract's result.
\<close>

theorem vec_add_implements:
  assumes "vec_represents ops pv b A" and "add_ok (pv_cap pv (bk_pool b)) fits_array args A"
  shows "\<exists>b'. vec_addOrder ops args b io = Some (b', snd (a_addOrder VectorBook args A io)) \<and>
    vec_represents ops pv b' (fst (a_addOrder VectorBook args A io)) \<and>
    pv_cap pv (bk_pool b') = pv_cap pv (bk_pool b)"
  using vec_ob.add_refines [OF assms, of io] by (simp add: vec_book_ops_def)

theorem vec_add_implements_witness:
  "\<exists>b'. vec_addOrder free_pool (sample_args 7 1 GoodTillCancel SELL 100 10) (vec_book0 4 0) sample_io =
      Some (b', snd (a_addOrder VectorBook (sample_args 7 1 GoodTillCancel SELL 100 10) a_empty sample_io))"
  using vec_add_implements [OF vec_book0_rep, of 4 0 "sample_args 7 1 GoodTillCancel SELL 100 10" sample_io]
  by (simp add: add_ok_def a_empty_def a_find_def a_orders_def fits_array_def sample_args_def MAX_PRICE_LEVELS_def) blast

text \<open>
  C5. Cancelling in the vector book: all cases behave as the contract says for the vector book, without undefined behaviour.
\<close>

theorem vec_cancel_implements:
  assumes "vec_represents ops pv b A"
  shows "\<exists>b'. vec_cancelOrder ops tick c k qty tok b io = Some (b', snd (a_cancelOrder VectorBook tick c k qty tok A io)) \<and>
    vec_represents ops pv b' (fst (a_cancelOrder VectorBook tick c k qty tok A io)) \<and>
    pv_cap pv (bk_pool b') = pv_cap pv (bk_pool b)"
  using vec_ob.cancel_refines [OF assms, of tick c k qty tok io] by (simp add: vec_book_ops_def)

theorem vec_cancel_implements_witness:
  "\<exists>b b'. vec_represents free_pool free_pool_view b sample_book \<and>
    vec_cancelOrder free_pool 0 7 1 4 zero_token b sample_io =
      Some (b', snd (a_cancelOrder VectorBook 0 7 1 4 zero_token sample_book sample_io))"
  using vec_sample_rep [unfolded sample_book_eq(2)]
    vec_cancel_implements [of free_pool free_pool_view _ sample_book 0 7 1 4 zero_token sample_io]
  by blast

text \<open>
  C6. Replacing in the vector book: for a price inside its arrays and a fresh id the old order leaves, the replacement is matched and, if
  something is left of a good-till-cancel replacement, rests, as the contract says and without undefined behaviour.
\<close>

theorem vec_replace_implements:
  assumes "vec_represents ops pv b A" and "replace_ok fits_array c k k' ty p A"
  shows "\<exists>b'. vec_replaceOrder ops tick c k k' ty p qty tok b io =
      Some (b', snd (a_replaceOrder VectorBook tick c k k' ty p qty tok A io)) \<and>
    vec_represents ops pv b' (fst (a_replaceOrder VectorBook tick c k k' ty p qty tok A io)) \<and>
    pv_cap pv (bk_pool b') = pv_cap pv (bk_pool b)"
  using vec_ob.replace_refines [OF assms, of tick qty tok io] by (simp add: vec_book_ops_def)

theorem vec_replace_implements_witness:
  "\<exists>b b'. vec_represents free_pool free_pool_view b sample_book \<and>
    vec_replaceOrder free_pool 0 7 1 2 GoodTillCancel 101 5 zero_token b sample_io =
      Some (b', snd (a_replaceOrder VectorBook 0 7 1 2 GoodTillCancel 101 5 zero_token sample_book sample_io))"
  using vec_sample_rep [unfolded sample_book_eq(2)] sample_replace_ok
    vec_replace_implements [of free_pool free_pool_view _ sample_book 7 1 2 GoodTillCancel 101 0 5 zero_token sample_io]
  by blast

section \<open>What trading guarantees\<close>

lemma map_add_outcome:
  assumes "map_represents ops pv b A" and "add_ok (pv_cap pv (bk_pool b)) (\<lambda>_. True) args A"
  obtains b' where "map_addOrder LastValue ops args b io = Some (b', snd (a_addOrder MapBook args A io))"
    and "map_represents ops pv b' (fst (a_addOrder MapBook args A io))"
  using map_ob.add_refines [OF assms, of io] by (auto simp: map_book_ops_def)

lemma vec_add_outcome:
  assumes "vec_represents ops pv b A" and "add_ok (pv_cap pv (bk_pool b)) fits_array args A"
  obtains b' where "vec_addOrder ops args b io = Some (b', snd (a_addOrder VectorBook args A io))"
    and "vec_represents ops pv b' (fst (a_addOrder VectorBook args A io))"
  using vec_ob.add_refines [OF assms, of io] by (auto simp: vec_book_ops_def)

lemma sample_fak_ok: "add_ok n fits (sample_args 8 1 FillAndKill BUY 105 4) sample_book"
  by (simp add: add_ok_def sample_args_def)

text \<open>
  C7. Price-time priority in the map book (with \<open>LastValue\<close>, see C1): the trades an incoming order causes are with the first
  orders of the opposite side, in their priority order, each at the resting price, and the
  quantities are those of serving the crossing orders in sequence until the incoming quantity
  is used up.
\<close>

theorem map_add_price_time:
  assumes "map_represents ops pv b A" and "add_ok (pv_cap pv (bk_pool b)) (\<lambda>_. True) args A"
  shows "\<exists>b' io'. map_addOrder LastValue ops args b io = Some (b', io') \<and>
    price_time args A (trades (new_updates io io'))"
  using map_add_outcome [OF assms] add_price_time [OF refl] by metis

theorem map_add_price_time_witness:
  "\<exists>b b' io'. map_represents free_pool free_pool_view b sample_book \<and>
    map_addOrder LastValue free_pool (sample_args 8 1 FillAndKill BUY 105 4) b sample_io = Some (b', io') \<and>
    price_time (sample_args 8 1 FillAndKill BUY 105 4) sample_book (trades (new_updates sample_io io'))"
  using map_sample_rep sample_fak_ok
    map_add_price_time [of free_pool free_pool_view _ sample_book "sample_args 8 1 FillAndKill BUY 105 4" sample_io]
  by blast

text \<open>The same for the vector book.\<close>

theorem vec_add_price_time:
  assumes "vec_represents ops pv b A" and "add_ok (pv_cap pv (bk_pool b)) fits_array args A"
  shows "\<exists>b' io'. vec_addOrder ops args b io = Some (b', io') \<and>
    price_time args A (trades (new_updates io io'))"
  using vec_add_outcome [OF assms] add_price_time [OF refl] by metis

theorem vec_add_price_time_witness:
  "\<exists>b b' io'. vec_represents free_pool free_pool_view b sample_book \<and>
    vec_addOrder free_pool (sample_args 8 1 FillAndKill BUY 105 4) b sample_io = Some (b', io') \<and>
    price_time (sample_args 8 1 FillAndKill BUY 105 4) sample_book (trades (new_updates sample_io io'))"
  using vec_sample_rep [unfolded sample_book_eq(2)] sample_fak_ok
    vec_add_price_time [of free_pool free_pool_view _ sample_book "sample_args 8 1 FillAndKill BUY 105 4" sample_io]
  by blast

text \<open>
  C19. Conservation of quantity in the map book when a good-till-cancel order is added (with \<open>LastValue\<close>, see C1): what the opposite side
  loses is what is traded, and the own side gains exactly the untraded rest of the order. No quantity
  wraps around.
\<close>

theorem map_add_conserves:
  assumes "map_represents ops pv b A" and "add_ok (pv_cap pv (bk_pool b)) (\<lambda>_. True) args A"
    and "oa_orderType args = GoodTillCancel"
  shows "\<exists>b' io' A'. map_addOrder LastValue ops args b io = Some (b', io') \<and> map_represents ops pv b' A' \<and>
    depth (opposite (oa_side args)) A =
      depth (opposite (oa_side args)) A' + (\<Sum>u\<leftarrow>trades (new_updates io io'). unat (mu_qty u)) \<and>
    depth (oa_side args) A' + (\<Sum>u\<leftarrow>trades (new_updates io io'). unat (mu_qty u)) =
      depth (oa_side args) A + unat (oa_initialQuantity args)"
  using map_add_outcome [OF assms(1,2)] add_depth(1,2) [OF refl refl refl] assms(3) by metis

lemma sample_gtc_ok: "add_ok 4 (\<lambda>_. True) (sample_args 8 1 GoodTillCancel BUY 105 14) sample_book"
  by (simp add: add_ok_def sample_book_eq a_find_def a_orders_def has_key_def rec_defs sample_args_def)

theorem map_add_conserves_witness:
  "\<exists>b b' io' A'. map_represents free_pool free_pool_view b sample_book \<and>
    map_addOrder LastValue free_pool (sample_args 8 1 GoodTillCancel BUY 105 14) b sample_io = Some (b', io') \<and>
    map_represents free_pool free_pool_view b' A' \<and>
    depth SELL sample_book = depth SELL A' + (\<Sum>u\<leftarrow>trades (new_updates sample_io io'). unat (mu_qty u))"
  using map_sample_rep sample_gtc_ok
    map_add_conserves [of free_pool free_pool_view _ sample_book "sample_args 8 1 GoodTillCancel BUY 105 14" sample_io]
  by (simp add: sample_args_def) metis

text \<open>
  A fill-and-kill order never rests in the map book: the own side is unchanged, and what is
  traded does not exceed the order.
\<close>

lemma map_fak_never_rests:
  assumes "map_represents ops pv b A" and "oa_orderType args = FillAndKill"
  shows "\<exists>b' io' A'. map_addOrder LastValue ops args b io = Some (b', io') \<and> map_represents ops pv b' A' \<and>
    a_side (oa_side args) A' = a_side (oa_side args) A \<and>
    depth (opposite (oa_side args)) A =
      depth (opposite (oa_side args)) A' + (\<Sum>u\<leftarrow>trades (new_updates io io'). unat (mu_qty u))"
proof -
  have "add_ok (pv_cap pv (bk_pool b)) (\<lambda>_. True) args A" using assms(2) by (simp add: add_ok_def)
  then show ?thesis
    using map_add_outcome [OF assms(1)] add_depth(1,3) [OF refl refl refl] assms(2) by metis
qed

text \<open>
  Limit prices hold in the map book: every execution report of an incoming buy is at or below
  its limit, of a sell at or above, and always at the price of an order that was resting.
\<close>

theorem map_add_limit:
  assumes "map_represents ops pv b A" and "add_ok (pv_cap pv (bk_pool b)) (\<lambda>_. True) args A"
  shows "\<exists>b' io'. map_addOrder LastValue ops args b io = Some (b', io') \<and>
    (\<forall>r\<in>set (executions (new_responses io io')).
      (oa_side args = BUY \<longrightarrow> rs_execution_price r \<le> oa_price args) \<and>
      (oa_side args = SELL \<longrightarrow> oa_price args \<le> rs_execution_price r) \<and>
      rs_execution_price r \<in> mo_price ` set (a_side (opposite (oa_side args)) A))"
  using map_add_outcome [OF assms] add_limit [OF refl] by metis

theorem map_add_limit_witness:
  "\<exists>b b' io'. map_represents free_pool free_pool_view b sample_book \<and>
    map_addOrder LastValue free_pool (sample_args 8 1 FillAndKill BUY 105 4) b sample_io = Some (b', io') \<and>
    (\<forall>r\<in>set (executions (new_responses sample_io io')). rs_execution_price r \<le> 105)"
  using map_sample_rep sample_fak_ok
    map_add_limit [of free_pool free_pool_view _ sample_book "sample_args 8 1 FillAndKill BUY 105 4" sample_io]
  by (simp add: sample_args_def) metis

section \<open>The two books agree\<close>

text \<open>
  C20. From memories that represent the same book, the map book (with \<open>LastValue\<close>, see C1) and the vector book answer a new
  order, with a price inside the arrays and, if it is good till cancel, with room in both pools and a fresh id, with the same client responses, publish the same market updates up to the match id of
  a trade, and end in memories that represent the same book.
\<close>

theorem books_agree_add:
  assumes "map_represents ops pv b A" and "add_ok (pv_cap pv (bk_pool b)) (\<lambda>_. True) args A"
    and "vec_represents ops' pv' c A" and "add_ok (pv_cap pv' (bk_pool c)) fits_array args A"
  shows "\<exists>b' c' io1 io2 A'. map_addOrder LastValue ops args b io = Some (b', io1) \<and>
    vec_addOrder ops' args c io = Some (c', io2) \<and>
    map_represents ops pv b' A' \<and> vec_represents ops' pv' c' A' \<and>
    new_responses io io1 = new_responses io io2 \<and>
    map without_match_id (new_updates io io1) = map without_match_id (new_updates io io2)"
proof -
  obtain b' where b': "map_addOrder LastValue ops args b io = Some (b', snd (a_addOrder MapBook args A io))"
    "map_represents ops pv b' (fst (a_addOrder MapBook args A io))"
    by (rule map_add_outcome [OF assms(1,2)])
  obtain c' where c': "vec_addOrder ops' args c io = Some (c', snd (a_addOrder VectorBook args A io))"
    "vec_represents ops' pv' c' (fst (a_addOrder VectorBook args A io))"
    by (rule vec_add_outcome [OF assms(3,4)])
  show ?thesis
    using b' c' add_messages_agree [OF refl refl] addOrder_book [of MapBook args A io VectorBook io] by metis
qed

theorem books_agree_add_witness:
  "\<exists>b' c' io1 io2. map_addOrder LastValue free_pool (sample_args 7 1 GoodTillCancel SELL 100 10) (map_book0 4 0) sample_io = Some (b', io1) \<and>
    vec_addOrder free_pool (sample_args 7 1 GoodTillCancel SELL 100 10) (vec_book0 4 0) sample_io = Some (c', io2) \<and>
    new_responses sample_io io1 = new_responses sample_io io2"
proof -
  have "add_ok 4 fits (sample_args 7 1 GoodTillCancel SELL 100 10) a_empty" if "fits 100" for fits
    using that by (simp add: add_ok_def a_empty_def a_find_def a_orders_def sample_args_def)
  then show ?thesis
    using books_agree_add [OF map_book0_rep _ vec_book0_rep, of 4 0 "sample_args 7 1 GoodTillCancel SELL 100 10" 4 0 sample_io]
    by (simp add: fits_array_def MAX_PRICE_LEVELS_def) blast
qed

section \<open>The engine\<close>

definition request0 :: "ClientRequestType \<Rightarrow> TickerId \<Rightarrow> ClientId \<Rightarrow> OrderId \<Rightarrow> Side \<Rightarrow> Price \<Rightarrow> Quantity \<Rightarrow> MEClientRequest" where
  "request0 act tick c k s p q = default_request\<lparr>rq_action := act, rq_ticker_id := tick, rq_client_id := c,
     rq_client_order_id := k, rq_side := s, rq_price := p, rq_qty := q\<rparr>"

definition polls0 :: "MEClientRequest option list" where
  "polls0 = [Some (request0 NEW 0 7 1 SELL 100 10), None, Some (request0 NEW 0 8 1 BUY 105 4),
             Some (request0 CANCEL 0 7 1 SELL 0 0)]"

lemma polls0_ok: "fits 100 \<Longrightarrow> fits 105 \<Longrightarrow> polls_ok v [4] fits polls0 ([a_empty], engine_io0)"
  by (simp add: polls0_def request0_def request_ok_def request_args_def rec_defs add_ok_def a_empty_def a_find_def
      a_orders_def a_process_def a_request_def a_addOrder_def a_finish_def a_take_def a_rest_def a_insert_def
      has_key_def Let_def)

lemma map_engine_outcome:
  assumes "pool_spec ops pv" and "pv_inv pv pool" and "pv_live pv pool = {}"
    and "polls_ok MapBook (replicate n (pv_cap pv pool)) (\<lambda>_. True) polls (replicate n a_empty, engine_io0)"
  obtains e where "engine_run (map_book_ops LastValue ops) polls (engine_init (\<lambda>i. map_book_init sz i pool) n) = Some e"
    and "engine_rep (map_represents ops pv) (\<lambda>b. pv_cap pv (bk_pool b)) (replicate n (pv_cap pv pool)) e
      (a_run MapBook polls (replicate n a_empty, engine_io0))"
proof -
  have "engine_rep (map_represents ops pv) (\<lambda>b. pv_cap pv (bk_pool b)) (replicate n (pv_cap pv pool))
      (engine_init (\<lambda>i. map_book_init sz i pool) n) (replicate n a_empty, engine_io0)"
    unfolding engine_io0_def
    by (rule map_ob.init_rep) (simp_all add: map_represents_init [OF assms(1-3)], simp add: map_book_init_def)
  from map_ob.run_refines [OF this assms(4)] show ?thesis using that by blast
qed

lemma vec_engine_outcome:
  assumes "pool_spec ops pv" and "pv_inv pv pool" and "pv_live pv pool = {}"
    and "polls_ok VectorBook (replicate n (pv_cap pv pool)) fits_array polls (replicate n a_empty, engine_io0)"
  obtains e where "engine_run (vec_book_ops ops) polls (engine_init (\<lambda>i. vector_book_init i True pool) n) = Some e"
    and "engine_rep (vec_represents ops pv) (\<lambda>b. pv_cap pv (bk_pool b)) (replicate n (pv_cap pv pool)) e
      (a_run VectorBook polls (replicate n a_empty, engine_io0))"
proof -
  have "engine_rep (vec_represents ops pv) (\<lambda>b. pv_cap pv (bk_pool b)) (replicate n (pv_cap pv pool))
      (engine_init (\<lambda>i. vector_book_init i True pool) n) (replicate n a_empty, engine_io0)"
    unfolding engine_io0_def
    by (rule vec_ob.init_rep) (simp_all add: vec_represents_init [OF assms(1-3)], simp add: vector_book_init_def)
  from vec_ob.run_refines [OF this assms(4)] show ?thesis using that by blast
qed

text \<open>
  The engine with map books is safe: from its initial state it processes any sequence of
  polls whose requests are admissible without undefined behaviour, and afterwards every book
  keeps the invariant: priority order, positive quantities, unique ids and no bid at or above
  an ask.
\<close>

theorem map_engine_safe:
  assumes "pool_spec ops pv" and "pv_inv pv pool" and "pv_live pv pool = {}"
    and "polls_ok MapBook (replicate n (pv_cap pv pool)) (\<lambda>_. True) polls (replicate n a_empty, engine_io0)"
  shows "\<exists>e. engine_run (map_book_ops LastValue ops) polls (engine_init (\<lambda>i. map_book_init sz i pool) n) = Some e \<and>
    (\<forall>b\<in>set (ticker_order_book e). \<exists>A. map_represents ops pv b A \<and> abook_ok A)"
proof -
  obtain e where e: "engine_run (map_book_ops LastValue ops) polls (engine_init (\<lambda>i. map_book_init sz i pool) n) = Some e"
    "engine_rep (map_represents ops pv) (\<lambda>b. pv_cap pv (bk_pool b)) (replicate n (pv_cap pv pool)) e
      (a_run MapBook polls (replicate n a_empty, engine_io0))"
    by (rule map_engine_outcome [OF assms])
  then show ?thesis using engine_rep_books [OF e(2)] by blast
qed

theorem map_engine_safe_witness:
  "\<exists>e. engine_run (map_book_ops LastValue free_pool) polls0
      (engine_init (\<lambda>i. map_book_init 4 i (fresh_pool 4)) 1) = Some e"
  using map_engine_safe [OF free_pool_spec fresh_pool_ok(1,2), of 1 4 polls0 4] polls0_ok by auto

text \<open>The engine with vector books is safe in the same sense, for prices inside the arrays.\<close>

theorem vec_engine_safe:
  assumes "pool_spec ops pv" and "pv_inv pv pool" and "pv_live pv pool = {}"
    and "polls_ok VectorBook (replicate n (pv_cap pv pool)) fits_array polls (replicate n a_empty, engine_io0)"
  shows "\<exists>e. engine_run (vec_book_ops ops) polls (engine_init (\<lambda>i. vector_book_init i True pool) n) = Some e \<and>
    (\<forall>b\<in>set (ticker_order_book e). \<exists>A. vec_represents ops pv b A \<and> abook_ok A)"
proof -
  obtain e where e: "engine_run (vec_book_ops ops) polls (engine_init (\<lambda>i. vector_book_init i True pool) n) = Some e"
    "engine_rep (vec_represents ops pv) (\<lambda>b. pv_cap pv (bk_pool b)) (replicate n (pv_cap pv pool)) e
      (a_run VectorBook polls (replicate n a_empty, engine_io0))"
    by (rule vec_engine_outcome [OF assms])
  then show ?thesis using engine_rep_books [OF e(2)] by blast
qed

lemma fits_array_sample: "fits_array 100" "fits_array 105"
  by (simp_all add: fits_array_def MAX_PRICE_LEVELS_def)

theorem vec_engine_safe_witness:
  "\<exists>e. engine_run (vec_book_ops free_pool) polls0
      (engine_init (\<lambda>i. vector_book_init i True (fresh_pool 4)) 1) = Some e"
  using vec_engine_safe [OF free_pool_spec fresh_pool_ok(1,2), of 1 4 polls0] polls0_ok [OF fits_array_sample] by auto

text \<open>
  C21. Trades of the engine with map books (\<open>LastValue\<close>, see C1), for any polls whose requests are admissible when they are processed (\<open>polls_ok\<close>: known ticker,
  room and fresh id for a new order): over all tickers its execution reports are, in order, one pair for each trade, and the match ids
  are 1, 1, 2, 2, 3, 3 and so on. The first report of a pair goes to the client whose request introduced the resting order, the second to
  the one that introduced the incoming order, on opposite sides and with the same quantity, at the resting
  price, which is inside the limit of the incoming order; and the trade is published once, with the same ticker, price
  and quantity.
\<close>

theorem map_engine_numbers_trades:
  assumes "pool_spec ops pv" and "pv_inv pv pool" and "pv_live pv pool = {}"
    and "polls_ok MapBook (replicate n (pv_cap pv pool)) (\<lambda>_. True) polls (replicate n a_empty, engine_io0)"
  shows "\<exists>e ts. engine_run (map_book_ops LastValue ops) polls (engine_init (\<lambda>i. map_book_init sz i pool) n) = Some e \<and>
    executions (responses (engine_out e)) = reports ts \<and> trades (marketUpdates (engine_out e)) = published_trades ts \<and>
    list_all (trade_ok (set (polled polls))) ts \<and>
    map rs_match_id (reports ts) = pair_up (ids_from 1 (length ts)) \<and> next_match_id (engine_out e) = 1 + of_nat (length ts)"
proof -
  obtain e where e: "engine_run (map_book_ops LastValue ops) polls (engine_init (\<lambda>i. map_book_init sz i pool) n) = Some e"
    "engine_rep (map_represents ops pv) (\<lambda>b. pv_cap pv (bk_pool b)) (replicate n (pv_cap pv pool)) e
      (a_run MapBook polls (replicate n a_empty, engine_io0))"
    by (rule map_engine_outcome [OF assms])
  let ?S = "a_run MapBook polls (replicate n a_empty, engine_io0)"
  have "numbered engine_io0" unfolding numbered_def by (rule exI [of _ 0]) (simp add: engine_io0_def)
  then have num: "numbered (snd ?S)" using numbered_run [of "(replicate n a_empty, engine_io0)" MapBook polls] by simp
  have "engine_from (set (polled polls)) ?S"
    by (rule run_from [OF engine_from_init order_refl polls_ok_tickers [OF assms(4)]])
  then have log: "trade_log (set (polled polls)) (snd ?S)" by (simp add: engine_from_def)
  have "engine_out e = snd ?S" using e(2) by (simp add: engine_rep_def)
  with e(1) trades_numbered [OF num log] show ?thesis by metis
qed

theorem map_engine_numbers_trades_witness:
  "\<exists>e ts. engine_run (map_book_ops LastValue free_pool) polls0
      (engine_init (\<lambda>i. map_book_init 4 i (fresh_pool 4)) 1) = Some e \<and>
    executions (responses (engine_out e)) = reports ts \<and> list_all (trade_ok (set (polled polls0))) ts \<and>
    map rs_match_id (reports ts) = pair_up (ids_from 1 (length ts))"
  using map_engine_numbers_trades [OF free_pool_spec fresh_pool_ok(1,2), of 1 4 polls0 4] polls0_ok by auto

text \<open>
  C22. The choice of book does not matter for who trades with whom: fed the same polls, whose requests are admissible when they are processed
  (\<open>polls_ok\<close>) and have prices inside the arrays, the engine with map books (\<open>LastValue\<close>, see C1) and the engine with vector
  books end with books that represent the same orders, ticker by ticker, and have sent the same execution reports and
  published the same trades up to the match id. Their other messages may differ (C37).
\<close>

theorem engines_agree:
  assumes "pool_spec ops pv" and "pv_inv pv pool" and "pv_live pv pool = {}"
    and "polls_ok VectorBook (replicate n (pv_cap pv pool)) fits_array polls (replicate n a_empty, engine_io0)"
  shows "\<exists>e e' As. engine_run (map_book_ops LastValue ops) polls (engine_init (\<lambda>i. map_book_init sz i pool) n) = Some e \<and>
    engine_run (vec_book_ops ops) polls (engine_init (\<lambda>i. vector_book_init i True pool) n) = Some e' \<and>
    list_all2 (map_represents ops pv) (ticker_order_book e) As \<and>
    list_all2 (vec_represents ops pv) (ticker_order_book e') As \<and>
    executions (responses (engine_out e)) = executions (responses (engine_out e')) \<and>
    map without_match_id (trades (marketUpdates (engine_out e))) = map without_match_id (trades (marketUpdates (engine_out e')))"
proof -
  let ?S = "(replicate n a_empty, engine_io0)"
  have "polls_ok MapBook (replicate n (pv_cap pv pool)) (\<lambda>_. True) polls ?S"
    using polls_ok_mono [OF assms(4), of "\<lambda>_. True"]
      polls_ok_agree [of MapBook _ "\<lambda>_. True" polls _ engine_io0 VectorBook engine_io0] by simp
  then obtain e where e: "engine_run (map_book_ops LastValue ops) polls (engine_init (\<lambda>i. map_book_init sz i pool) n) = Some e"
    "engine_rep (map_represents ops pv) (\<lambda>b. pv_cap pv (bk_pool b)) (replicate n (pv_cap pv pool)) e (a_run MapBook polls ?S)"
    by (rule map_engine_outcome [OF assms(1-3)])
  obtain e' where e': "engine_run (vec_book_ops ops) polls (engine_init (\<lambda>i. vector_book_init i True pool) n) = Some e'"
    "engine_rep (vec_represents ops pv) (\<lambda>b. pv_cap pv (bk_pool b)) (replicate n (pv_cap pv pool)) e' (a_run VectorBook polls ?S)"
    by (rule vec_engine_outcome [OF assms])
  show ?thesis
    using e e' a_run_agree [of MapBook polls "replicate n a_empty" engine_io0 VectorBook engine_io0]
      same_trades_run [OF same_trades_refl, of MapBook polls "replicate n a_empty" engine_io0 VectorBook]
    by (intro exI [of _ e] exI [of _ e'] exI [of _ "fst (a_run VectorBook polls ?S)"])
      (simp add: engine_rep_def list_all2_conv_all_nth same_trades_def)
qed

theorem engines_agree_witness:
  "\<exists>e e' As. engine_run (map_book_ops LastValue free_pool) polls0
      (engine_init (\<lambda>i. map_book_init 4 i (fresh_pool 4)) 1) = Some e \<and>
    engine_run (vec_book_ops free_pool) polls0 (engine_init (\<lambda>i. vector_book_init i True (fresh_pool 4)) 1) = Some e' \<and>
    list_all2 (map_represents free_pool free_pool_view) (ticker_order_book e) As \<and>
    list_all2 (vec_represents free_pool free_pool_view) (ticker_order_book e') As \<and>
    executions (responses (engine_out e)) = executions (responses (engine_out e'))"
  using engines_agree [OF free_pool_spec fresh_pool_ok(1,2), of 1 4 polls0 4] polls0_ok [OF fits_array_sample] by auto

section \<open>Where the code has no defined behaviour\<close>

text \<open>
  C23. A match in the map book that empties a price level reads the level after it was erased: if
  the best opposite order is alone at its price and is filled completely, \<^verbatim>\<open>addOrder\<close> has no
  defined result under the reading of the standard.
\<close>

theorem map_add_reads_erased_level:
  assumes "map_represents ops pv b A" and "a_side (opposite (oa_side args)) A = r # rs"
    and "\<not> before (opposite (oa_side args)) (oa_price args) (mo_price r)"
    and "mo_remainingQuantity r \<le> oa_initialQuantity args" and "oa_initialQuantity args \<noteq> 0"
    and "\<forall>x\<in>set rs. mo_price x \<noteq> mo_price r"
  shows "map_addOrder Trap ops args b io = None"
proof -
  let ?b = "b\<lparr>bk_nextMarketOrderId := bk_nextMarketOrderId b + 1\<rparr>"
  let ?t = "args\<lparr>oa_marketOrderId := bk_nextMarketOrderId b\<rparr>"
  have "map_represents ops pv ?b (A\<lparr>ab_next := bk_nextMarketOrderId b + 1\<rparr>)"
    using assms(1) map_repr_counter unfolding map_represents_def by (metis mb.abs_book_counter(1))
  then have "map_match Trap ops ?t ?b io' = None" for io'
    by (rule map_match_traps [where r = r and rs = rs]) (use assms in simp_all)
  then show ?thesis by (simp add: map_addOrder_def Let_def)
qed

theorem map_add_reads_erased_level_witness:
  "\<exists>b. map_represents free_pool free_pool_view b sample_book \<and>
    map_addOrder Trap free_pool (sample_args 8 1 FillAndKill BUY 105 14) b sample_io = None"
  using map_sample_rep map_add_reads_erased_level [of free_pool free_pool_view _ sample_book
      "sample_args 8 1 FillAndKill BUY 105 14" _ "[]" sample_io]
  by (auto simp: sample_args_def sample_book_eq rec_defs)

text \<open>
  A request for a ticker without a book has no defined behaviour: the engine indexes its
  vector of books with the ticker id as received.
\<close>

theorem process_unknown_ticker:
  assumes "length (ticker_order_book e) \<le> unat (rq_ticker_id r)"
  shows "processClientRequest ops r e = None"
  using assms by (simp add: processClientRequest_def Let_def)

theorem process_unknown_ticker_witness:
  "processClientRequest (map_book_ops LastValue free_pool) (request0 NEW 9 7 1 SELL 100 10)
     (engine_init (\<lambda>i. map_book_init 4 i (fresh_pool 4)) 1) = None"
  by (rule process_unknown_ticker) (simp add: request0_def engine_init_def)

text \<open>
  C24. The vector book cannot hold a price at or beyond the size of its arrays: a good-till-cancel
  order at such a price that finds no counterpart indexes past the end.
\<close>

theorem vec_add_price_out_of_range:
  assumes "vec_represents ops pv b A" and "a_side (opposite (oa_side args)) A = []"
    and "oa_orderType args = GoodTillCancel" and "oa_initialQuantity args \<noteq> 0"
    and "MAX_PRICE_LEVELS \<le> unat (oa_price args)"
  shows "vec_addOrder ops args b io = None"
proof -
  obtain F where F: "vec_repr ops pv F b" and A: "abs_book F b = A"
    using assms(1) by (auto simp: vec_represents_def)
  let ?b = "b\<lparr>bk_nextMarketOrderId := bk_nextMarketOrderId b + 1\<rparr>"
  have "F (opposite (oa_side args)) = []"
    using assms(2) A vb.a_side_abs_book [of "opposite (oa_side args)" F b] by (simp add: abs_list_def)
  then have "vec_best (opposite (oa_side args)) ?b = None"
    using vec_repr_best [OF vec_repr_counter [OF F]] by simp
  then have "vec_match ops (args\<lparr>oa_marketOrderId := m\<rparr>) ?b io' = Some (oa_initialQuantity args, ?b, io')" for m io'
    unfolding vec_match_eq by (subst sweep.simps) simp
  moreover have "vec_insert ops (args\<lparr>oa_marketOrderId := m\<rparr>) q b' = None" for m q b'
    using assms(5) by (simp add: vec_insert_def level_ref_def Let_def)
      (metis (no_types, lifting) bind_eq_None_conv case_prod_conv surj_pair)
  ultimately show ?thesis
    using assms(3,4) by (simp add: vec_addOrder_def Let_def word_gt_0)
qed

theorem vec_add_price_out_of_range_witness:
  "vec_addOrder free_pool (sample_args 7 1 GoodTillCancel SELL 256000 10) (vec_book0 4 0) sample_io = None"
  by (rule vec_add_price_out_of_range [OF vec_book0_rep])
    (simp_all add: sample_args_def a_empty_def MAX_PRICE_LEVELS_def)

end
