(* ===== verification/Samples.thy ===== *)
theory Samples
  imports Gateway Feed BookTheorems
begin

text \<open>
  Concrete instances of the code outside the repository, for the examples that accompany the
  properties: a bounded queue, a stable sort, message libraries without padding on a host whose
  byte order is the network's.
\<close>

definition sample_sort :: "RecvClientRequest list \<Rightarrow> RecvClientRequest list" where
  "sample_sort xs = sort_key fst xs"

definition sample_push :: "MEClientRequest list \<Rightarrow> MEClientRequest \<Rightarrow> MEClientRequest list option" where
  "sample_push q r = (if length q < 2 then Some (q @ [r]) else None)"

lemma sample_sort_spec [simp]: "sort_spec sample_sort"
  by (simp add: sort_spec_def sample_sort_def)

lemma sample_queue_spec [simp]: "queue_spec sample_push (\<lambda>q. q)"
  by (simp add: queue_spec_def sample_push_def)

definition sample_image :: "uint64 \<Rightarrow> char list" where
  "sample_image x = map (\<lambda>i. char_of (unat (drop_bit (8 * i) x))) [0..<8]"

definition sample_itch :: itch_lib where
  "sample_itch = \<lparr>il_swap16 = id, il_swap32 = id, il_swap64 = id, il_ADD_ORDER = CHR ''A'', il_ORDER_DELETE = CHR ''D'',
     il_ORDER_EXECUTED = CHR ''E'', il_ORDER_REPLACE = CHR ''U'',
     il_bytes = (\<lambda>msg. im_type msg # sample_image (case msg of OrderReplace _ _ _ _ r _ _ _ \<Rightarrow> r | _ \<Rightarrow> im_order_ref msg)),
     il_image64 = sample_image, il_read64 = (\<lambda>bs. fold (\<lambda>b x. 256 * x + of_nat (of_char b)) (rev bs) 0)\<rparr>"

lemma sample_itch_spec [simp]: "itch_spec sample_itch"
  by (simp add: itch_spec_def sample_itch_def sample_image_def ITCH_MAX_MSG_SIZE_def)

definition sample_ouch :: ouch_lib where
  "sample_ouch = \<lparr>ol_swap32 = id, ol_swap64 = id, ol_ENTER_ORDER = CHR ''O'', ol_CANCEL_ORDER = CHR ''X'',
     ol_REPLACE_ORDER = CHR ''U'', ol_ORDER_ACCEPTED = CHR ''A'', ol_ORDER_EXECUTED = CHR ''E'',
     ol_ORDER_CANCELED = CHR ''C'', ol_CANCEL_REJECTED = CHR ''I'',
     ol_enter = (\<lambda>d. \<lparr>eo_order_token = take 14 (drop 1 d), eo_buy_sell_indicator = d ! 15,
       eo_shares = of_nat (of_char (d ! 16)), eo_stock = 0, eo_price = of_nat (of_char (d ! 17)),
       eo_time_in_force = of_nat (of_char (d ! 18))\<rparr>),
     ol_cancel = (\<lambda>d. \<lparr>co_order_token = take 14 (drop 1 d), co_shares = of_nat (of_char (d ! 15))\<rparr>),
     ol_replace = (\<lambda>d. \<lparr>ro_existing_order_token = take 14 (drop 1 d), ro_replacement_order_token = take 14 (drop 15 d),
       ro_shares = of_nat (of_char (d ! 29)), ro_price = of_nat (of_char (d ! 30)), ro_time_in_force = of_nat (of_char (d ! 31))\<rparr>),
     ol_enter_shares = eo_shares, ol_cancel_shares = co_shares, ol_replace_shares = ro_shares,
     ol_enter_size = 19, ol_cancel_size = 16, ol_replace_size = 32,
     ol_bytes = (\<lambda>msg. out_type msg # out_token msg)\<rparr>"

lemma sample_ouch_spec [simp]: "ouch_spec sample_ouch"
  by (simp add: ouch_spec_def sample_ouch_def)

lemma sample_ouch_local [simp]: "lib_local sample_ouch"
  by (simp add: lib_local_def sample_ouch_def nth_append)

text \<open>An enter order for one share, good till cancel, at price 65.\<close>

definition sample_enter :: "char list" where
  "sample_enter = ''O'' @ ''TOKEN000000001'' @ ''B'' @ ''AAA''"

definition sample_gateway :: "MEClientRequest list OrderServer" where
  "sample_gateway = order_server_init 4 100 []"

end
