(* ===== verification/NetTheorems.thy ===== *)
theory NetTheorems
  imports Samples
begin

text \<open>
  The properties of the network side: the sequencer, the token registry, the OUCH gateway, the ITCH
  encoder, the publisher and the snapshot streamer.
\<close>

section \<open>The sequencer\<close>

text \<open>
  C30. Publishing pending requests hands the engine's queue a batch sorted by receive time, never
  later than anything it keeps, and loses or duplicates nothing: the published and the kept
  requests together are exactly those that were pending, also when the queue fills up on the way.
\<close>

theorem publish_in_order:
  assumes "fifo_ok f" and "sort_spec srt" and "queue_spec push view"
  shows "\<exists>out. view (fifo_requests (publishPendingOrders srt push f)) = view (fifo_requests f) @ map snd out \<and>
    mset (out @ pending (publishPendingOrders srt push f)) = mset (pending f) \<and>
    sorted (map fst (out @ pending (publishPendingOrders srt push f)))"
  using publish_ok(2) [OF assms refl] by (auto simp: moved_def)

definition sample_fifo :: "MEClientRequest list FifoNdProcess" where
  "sample_fifo = snd (addToPending 5 (request0 NEW 0 1 1 BUY 9 1) (snd (addToPending 7 (request0 NEW 0 2 2 SELL 9 1) (fifo_init 3 []))))"

lemma sample_fifo_ok: "fifo_ok sample_fifo"
  by (simp add: sample_fifo_def fifo_ok_def addToPending_def fifo_init_def max_def)

theorem publish_in_order_witness:
  "\<exists>out. fifo_requests (publishPendingOrders sample_sort sample_push sample_fifo) = map snd out \<and>
    mset (out @ pending (publishPendingOrders sample_sort sample_push sample_fifo)) = mset (pending sample_fifo)"
proof -
  have "fifo_requests sample_fifo = []" by (simp add: sample_fifo_def addToPending_def fifo_init_def max_def)
  then show ?thesis using publish_in_order [OF sample_fifo_ok sample_sort_spec sample_queue_spec] by auto
qed

text \<open>
  When the queue takes everything, one call of \<^verbatim>\<open>publishPendingOrders\<close> empties the buffer: no
  request waits for a further call.
\<close>

theorem publish_drains:
  assumes "fifo_ok f" and "sort_spec srt" and "\<And>q r. push q r \<noteq> None"
  shows "pending (publishPendingOrders srt push f) = []"
proof (cases "pending_size f = 0")
  case True
  then show ?thesis by (simp add: publishPendingOrders_def pending_def)
next
  case False
  let ?v = "if pending_sorted f then pending_orders f
    else srt (take (pending_size f) (pending_orders f)) @ drop (pending_size f) (pending_orders f)"
  have "length (srt xs) = length xs" for xs using assms(2) by (metis mset_eq_length sort_spec_def)
  then have len: "length (take (pending_size f) ?v) = pending_size f" using assms(1) by (simp add: fifo_ok_def)
  obtain n q where nq: "push_loop push (take (pending_size f) ?v) (fifo_requests f) = (n, q)" by fastforce
  then have "n = pending_size f"
    using push_loop_all [where push = push and xs = "take (pending_size f) ?v" and q = "fifo_requests f", OF assms(3)] len by simp
  with nq False show ?thesis by (simp add: publishPendingOrders_def Let_def pending_def)
qed

theorem publish_drains_witness:
  "pending (publishPendingOrders sample_sort (\<lambda>q r. Some (q @ [r])) sample_fifo) = []"
  by (rule publish_drains [OF sample_fifo_ok sample_sort_spec]) simp

text \<open>
  C31. A decoded request is always retained: with the buffer full and the queue full the gateway
  doubles the buffer, and the assertion after the third attempt cannot fail.
\<close>

theorem retain_succeeds:
  assumes "fifo_ok f" and "sort_spec srt" and "queue_spec push view"
  shows "fst (retainRequest srt push t r f) \<and>
    mset (accepted view (snd (retainRequest srt push t r f))) = add_mset r (mset (accepted view f))"
proof -
  obtain flag f' where R: "retainRequest srt push t r f = (flag, f')" by fastforce
  obtain out where out: "view (fifo_requests f') = view (fifo_requests f) @ map snd out"
    "mset (out @ pending f') = add_mset (t, r) (mset (pending f))"
    using retain_ok(3) [OF assms R] by blast
  have "mset (map snd out) + mset (map snd (pending f')) = add_mset r (mset (map snd (pending f)))"
    using arg_cong [OF out(2), of "image_mset snd"] by simp
  with R out(1) retain_ok(1) [OF assms R] show ?thesis by (simp add: accepted_def)
qed

theorem retain_succeeds_witness:
  "fst (retainRequest sample_sort (\<lambda>_ _. None) 3 (request0 NEW 0 1 3 BUY 9 1) sample_fifo)"
  using retain_succeeds [OF sample_fifo_ok sample_sort_spec, of "\<lambda>_ _. None" "\<lambda>q. q"] by (simp add: queue_spec_def)

section \<open>The token registry\<close>

text \<open>
  C32. Register, then look up: the id just given to a token is what its client finds for it, the
  id leads back to the token, and every other pair of client and token finds what it found
  before, so a client cannot reach another client's order by reusing its token.
\<close>

theorem token_round_trip:
  assumes "tokens_ok m" and "registerNewToken c tok tick m = (i, m')" and "i \<noteq> 0"
  shows "getID c tok m' = i \<and> getToken i m' = Some (take OUCH_TOKEN_LEN tok) \<and> tokens_ok m' \<and>
    (\<forall>c' tok'. c' \<noteq> c \<or> take OUCH_TOKEN_LEN tok' \<noteq> take OUCH_TOKEN_LEN tok \<longrightarrow> getID c' tok' m' = getID c' tok' m)"
  using getID_register [OF assms] getToken_register(1) [OF assms] register_ok [OF assms(1,2)] by auto

theorem token_round_trip_witness:
  "getID 1 ''TOKEN000000001'' (snd (registerNewToken 1 ''TOKEN000000001'' 0 (token_manager_init 4))) = 1"
proof -
  have r: "registerNewToken 1 ''TOKEN000000001'' 0 (token_manager_init 4) =
      (1, snd (registerNewToken 1 ''TOKEN000000001'' 0 (token_manager_init 4)))"
    by (simp add: registerNewToken_def token_manager_init_def Let_def)
  have "tokens_ok (token_manager_init 4)" by (simp add: tokens_init_ok)
  from token_round_trip [OF this r] show ?thesis by simp
qed

text \<open>With room in its table the registry gives an id.\<close>

lemma register_room:
  assumes "tokens_ok m" and "unat (next_internal_id m) < length (id_to_token m)"
  shows "fst (registerNewToken c tok tick m) \<noteq> 0"
proof -
  have "next_internal_id m \<noteq> 0" using assms(1) by (auto simp: tokens_ok_def)
  with assms show ?thesis by (auto simp: registerNewToken_def tokens_ok_def Let_def)
qed

text \<open>The registry refuses exactly when its table is full, and then it changes nothing.\<close>

theorem token_exhaustion:
  assumes "tokens_ok m"
  shows "(fst (registerNewToken c tok tick m) = 0 \<longleftrightarrow> unat (next_internal_id m) = length (id_to_token m)) \<and>
    (fst (registerNewToken c tok tick m) = 0 \<longrightarrow> snd (registerNewToken c tok tick m) = m)"
proof -
  obtain i m' where R: "registerNewToken c tok tick m = (i, m')" by fastforce
  have "next_internal_id m \<noteq> 0" using assms by (auto simp: tokens_ok_def)
  then have "i = 0 \<longleftrightarrow> unat (next_internal_id m) = length (id_to_token m)"
    using R assms by (auto simp: registerNewToken_def tokens_ok_def Let_def split: if_splits)
  moreover have "i = 0 \<longrightarrow> m' = m" using register_cases [OF assms R] by auto
  ultimately show ?thesis by (simp add: R)
qed

theorem token_exhaustion_witness:
  "fst (registerNewToken 1 ''TOKEN000000001'' 0 (token_manager_init 0)) = 0 \<and>
   snd (registerNewToken 1 ''TOKEN000000001'' 0 (token_manager_init 0)) = token_manager_init 0"
proof -
  have "tokens_ok (token_manager_init 0)" by (simp add: tokens_init_ok)
  from token_exhaustion [OF this, of 1 "''TOKEN000000001''" 0] show ?thesis by (simp add: token_manager_init_def)
qed

section \<open>The gateway\<close>

text \<open>
  C33. Framing loses nothing: for any bytes in a connection's buffer the loop of \<^verbatim>\<open>onRecv\<close> ends without
  undefined behaviour or failed assertion, leaves the incomplete tail, and the requests it adds
  to the accepted ones are those of cutting the bytes into messages and decoding each.
\<close>

theorem recv_lossless:
  assumes "tokens_ok m" and "fifo_ok f" and "sort_spec srt" and "queue_spec push view"
  shows "\<exists>rest m' rs f'. gw_decode lib cid bytes m = Some (rest, m', rs) \<and>
    recv_loop lib srt push cid t bytes (m, f) = Some (rest, m', f') \<and> tokens_ok m' \<and> fifo_ok f' \<and>
    mset (accepted view f') = mset (accepted view f) + mset rs"
proof -
  obtain rest m' rs f' out where L: "gw_decode lib cid bytes m = Some (rest, m', rs)"
    "recv_loop lib srt push cid t bytes (m, f) = Some (rest, m', f')" "tokens_ok m'" "fifo_ok f'"
    "view (fifo_requests f') = view (fifo_requests f) @ map snd out"
    "mset (out @ pending f') = mset (pending f) + mset (map (Pair t) rs)"
    using recv_loop_ok [OF assms, of lib cid bytes t] by blast
  with recv_accepted [OF L(5,6)] show ?thesis by blast
qed

lemma sample_token_ok: "tokens_ok (token_manager_init 4)"
  by (simp add: tokens_init_ok)

theorem recv_lossless_witness:
  "\<exists>rest m' rs f'. gw_decode sample_ouch 1 sample_enter (token_manager_init 4) = Some (rest, m', rs) \<and>
    recv_loop sample_ouch sample_sort sample_push 1 9 sample_enter (token_manager_init 4, fifo_init 1 []) = Some (rest, m', f')"
  using recv_lossless [OF sample_token_ok fifo_init_ok(1) sample_sort_spec sample_queue_spec, of sample_ouch 1 sample_enter 9 1 "[]"]
  by blast

text \<open>
  C34. How the network cuts the byte stream does not matter: receiving \<open>d\<close> and then \<open>e\<close> leaves the same
  tail and the same token registry and accepts the same requests as receiving \<open>d @ e\<close> at once.
\<close>

theorem recv_segmentation:
  assumes "lib_local lib" and "tokens_ok m" and "fifo_ok f" and "sort_spec srt" and "queue_spec push view"
    and whole: "recv_loop lib srt push cid t (d @ e) (m, f) = Some (rest, m', f')"
    and first: "recv_loop lib srt push cid t1 d (m, f) = Some (rest1, m1, f1)"
    and second: "recv_loop lib srt push cid t2 (rest1 @ e) (m1, f1) = Some (rest2, m2, f2)"
  shows "rest2 = rest \<and> m2 = m' \<and> mset (accepted view f2) = mset (accepted view f')"
proof -
  note D = recv_accepts [OF assms(2-5)]
  obtain rs where w: "gw_decode lib cid (d @ e) m = Some (rest, m', rs)"
    "mset (accepted view f') = mset (accepted view f) + mset rs" using D [OF whole] by blast
  obtain rs1 where a: "gw_decode lib cid d m = Some (rest1, m1, rs1)" "tokens_ok m1" "fifo_ok f1"
    "mset (accepted view f1) = mset (accepted view f) + mset rs1" using D [OF first] by blast
  obtain rs2 where b: "gw_decode lib cid (rest1 @ e) m1 = Some (rest2, m2, rs2)"
    "mset (accepted view f2) = mset (accepted view f1) + mset rs2"
    using recv_accepts [OF a(2,3) assms(4,5) second] by blast
  have "gw_decode lib cid (d @ e) m = Some (rest2, m2, rs1 @ rs2)"
    using gw_decode_append [OF assms(1), of cid d e m] a(1) b(1) by simp
  with w a(4) b(2) show ?thesis by auto
qed

lemma sample_recv_runs:
  assumes "tokens_ok m" and "fifo_ok f"
  shows "\<exists>rest m' f'. recv_loop sample_ouch sample_sort sample_push 1 9 d (m, f) = Some (rest, m', f') \<and> tokens_ok m' \<and> fifo_ok f'"
  using recv_loop_ok [OF assms sample_sort_spec sample_queue_spec, of sample_ouch 1 d 9] by blast

theorem recv_segmentation_witness:
  "\<exists>rest m f rest1 m1 f1 f2.
    recv_loop sample_ouch sample_sort sample_push 1 9 sample_enter (token_manager_init 4, fifo_init 1 []) = Some (rest, m, f) \<and>
    recv_loop sample_ouch sample_sort sample_push 1 9 (take 7 sample_enter) (token_manager_init 4, fifo_init 1 []) = Some (rest1, m1, f1) \<and>
    recv_loop sample_ouch sample_sort sample_push 1 9 (rest1 @ drop 7 sample_enter) (m1, f1) = Some (rest, m, f2)"
proof -
  let ?run = "recv_loop sample_ouch sample_sort sample_push 1 9"
  let ?f = "fifo_init 1 [] :: MEClientRequest list FifoNdProcess"
  obtain rest m f where w: "?run (take 7 sample_enter @ drop 7 sample_enter) (token_manager_init 4, ?f) = Some (rest, m, f)"
    using sample_recv_runs [OF sample_token_ok fifo_init_ok(1)] by blast
  obtain rest1 m1 f1 where a: "?run (take 7 sample_enter) (token_manager_init 4, ?f) = Some (rest1, m1, f1)" "tokens_ok m1" "fifo_ok f1"
    using sample_recv_runs [OF sample_token_ok fifo_init_ok(1)] by blast
  obtain rest2 m2 f2 where b: "?run (rest1 @ drop 7 sample_enter) (m1, f1) = Some (rest2, m2, f2)"
    using sample_recv_runs [OF a(2,3)] by blast
  from recv_segmentation [OF sample_ouch_local sample_token_ok fifo_init_ok(1) sample_sort_spec sample_queue_spec w a(1) b]
  have "rest2 = rest" "m2 = m" by auto
  with w a(1) b show ?thesis by (metis append_take_drop_id)
qed

text \<open>
  C35. Responses go where they belong: when the gateway drains the engine's responses, the connection of
  client \<open>c\<close> is sent exactly the encodings of the responses addressed to \<open>c\<close>, in order.
\<close>

theorem responses_routed:
  assumes ok: "conns_ok s" and c: "map_of (clientToSocket s) c = Some sk" and "\<And>msg. ol_bytes lib msg \<noteq> []"
  shows "map snd (filter (\<lambda>x. fst x = sk) (drop (length (os_sent s)) (os_sent (drainResponses lib rs s)))) =
    map (\<lambda>(resp, now). encodeOuch lib resp now) (filter (\<lambda>(resp, now). rs_client_id resp = c) rs)"
proof -
  define out where "out = (\<lambda>x. case map_of (clientToSocket s) (rs_client_id (fst x)) of
      None \<Rightarrow> [] | Some socket \<Rightarrow> [(socket, encodeOuch lib (fst x) (snd x))])"
  have one: "map snd (filter (\<lambda>x. fst x = sk) (out x)) =
      (if rs_client_id (fst x) = c then [encodeOuch lib (fst x) (snd x)] else [])" for x
  proof (cases "rs_client_id (fst x) = c")
    case True
    then show ?thesis by (simp add: out_def c)
  next
    case False
    then have "map_of (clientToSocket s) (rs_client_id (fst x)) \<noteq> Some sk" by (metis client_of_socket [OF ok c])
    with False show ?thesis by (auto simp: out_def split: option.split)
  qed
  have "os_sent (drainResponses lib rs s) = os_sent s @ concat (map out rs)"
    unfolding drain_sent by (simp add: assms(3) out_def case_prod_unfold cong: option.case_cong)
  moreover have "map snd (filter (\<lambda>x. fst x = sk) (concat (map out rs))) =
      map (\<lambda>(resp, now). encodeOuch lib resp now) (filter (\<lambda>(resp, now). rs_client_id resp = c) rs)"
    by (induction rs) (simp_all add: one case_prod_unfold)
  ultimately show ?thesis by simp
qed

lemma sample_conns: "conns_ok (registerClient (3, 5) (registerClient (2, 4) sample_gateway))"
  using conns_init [of 4 100 "[] :: MEClientRequest list"]
  by (intro registerClient_ok) (simp_all add: sample_gateway_def order_server_init_def registerClient_def Let_def)

theorem responses_routed_witness:
  "map snd (filter (\<lambda>x. fst x = (3, 5)) (drop 0 (os_sent (drainResponses sample_ouch
      [(reject_response 0 1 9 zero_token, 0), (reject_response 0 2 9 zero_token, 0)]
      (registerClient (3, 5) (registerClient (2, 4) sample_gateway)))))) =
    [encodeOuch sample_ouch (reject_response 0 2 9 zero_token) 0]"
proof -
  have "map_of (clientToSocket (registerClient (3, 5) (registerClient (2, 4) sample_gateway))) 2 = Some (3, 5)"
    "os_sent (registerClient (3, 5) (registerClient (2, 4) sample_gateway)) = []"
    by (simp_all add: sample_gateway_def order_server_init_def registerClient_def Let_def)
  with responses_routed [OF sample_conns this(1), of sample_ouch
      "[(reject_response 0 1 9 zero_token, 0), (reject_response 0 2 9 zero_token, 0)]"]
  show ?thesis by (simp add: sample_ouch_def reject_response_def mk_response_def)
qed

lemma drain_silent:
  assumes "list_all (\<lambda>x. rs_client_id (fst x) = c) rs" and "map_of (clientToSocket s) c = None"
  shows "os_sent (drainResponses lib rs s) = os_sent s"
proof -
  have "concat (map (\<lambda>(resp, now). case map_of (clientToSocket s) (rs_client_id resp) of
       None \<Rightarrow> [] | Some socket \<Rightarrow> if ol_bytes lib (encodeOuch lib resp now) = [] then []
         else [(socket, encodeOuch lib resp now)]) rs) = []"
    using assms by (auto simp: list_all_iff)
  then show ?thesis unfolding drain_sent by simp
qed

text \<open>
  C36. After a disconnect nothing is sent for the client that left, and the file descriptor is free. When a new connection
  comes in on that descriptor, as long as client ids do not wrap, it is registered under a client id that is neither the one of the client that left
  nor one of a client that is connected, the connections stay consistent, and responses for the client that left are still not sent to anybody.
\<close>

theorem disconnect_silences:
  assumes ok: "conns_ok s" and fd: "map_of (fdToClientId s) (snd sk) = Some c"
    and rs: "list_all (\<lambda>x. rs_client_id (fst x) = c) rs" and new: "snd sk' = snd sk" "nextClientId s < nextClientId s + 1"
  shows "os_sent (drainResponses lib rs (onDisconnect sk s)) = os_sent s \<and>
    map_of (fdToClientId (onDisconnect sk s)) (snd sk) = None \<and> conns_ok (onDisconnect sk s) \<and>
    (\<exists>c'. map_of (fdToClientId (registerClient sk' (onDisconnect sk s))) (snd sk) = Some c' \<and>
      map_of (clientToSocket (registerClient sk' (onDisconnect sk s))) c' = Some sk' \<and>
      c' \<noteq> c \<and> map_of (clientToSocket s) c' = None \<and> conns_ok (registerClient sk' (onDisconnect sk s)) \<and>
      os_sent (drainResponses lib rs (registerClient sk' (onDisconnect sk s))) = os_sent s)"
proof -
  let ?s = "onDisconnect sk s" and ?c = "nextClientId s"
  have gone: "map_of (clientToSocket ?s) c = None" "os_sent ?s = os_sent s" "nextClientId ?s = ?c"
    using fd by (simp_all add: onDisconnect_def)
  have "client_fd s c = Some (snd sk)" using ok fd by (simp add: conns_ok_def mutual_def)
  then have c: "c < ?c" using ok by (simp add: conns_ok_def)
  have "client_fd s ?c = None" using ok unfolding conns_ok_def by (metis less_irrefl)
  then have fresh: "map_of (clientToSocket s) ?c = None" by (simp add: client_fd_def)
  note off = onDisconnect_ok [OF ok, of sk]
  have "conns_ok (registerClient sk' ?s)" by (rule registerClient_ok [OF off(1)]) (use off(2) new in \<open>simp_all add: gone\<close>)
  moreover have "map_of (clientToSocket (registerClient sk' ?s)) c = None" "os_sent (registerClient sk' ?s) = os_sent s"
    "map_of (clientToSocket (registerClient sk' ?s)) ?c = Some sk'" "map_of (fdToClientId (registerClient sk' ?s)) (snd sk) = Some ?c"
    using c gone new(1) by (auto simp: registerClient_def Let_def)
  ultimately show ?thesis
    using off c fresh drain_silent [OF rs gone(1)] drain_silent [OF rs, of "registerClient sk' ?s"] gone(2) by (intro conjI exI [of _ ?c]) simp_all
qed

theorem disconnect_silences_witness:
  "os_sent (drainResponses sample_ouch [(reject_response 0 2 9 zero_token, 0)]
      (onDisconnect (3, 5) (registerClient (3, 5) (registerClient (2, 4) sample_gateway)))) = [] \<and>
    os_sent (drainResponses sample_ouch [(reject_response 0 2 9 zero_token, 0)]
      (registerClient (7, 5) (onDisconnect (3, 5) (registerClient (3, 5) (registerClient (2, 4) sample_gateway))))) = []"
proof -
  have "map_of (fdToClientId (registerClient (3, 5) (registerClient (2, 4) sample_gateway))) (snd (3, 5)) = Some 2"
    "list_all (\<lambda>x. rs_client_id (fst x) = 2) [(reject_response 0 2 9 zero_token, 0 :: uint64)]"
    "os_sent (registerClient (3, 5) (registerClient (2, 4) sample_gateway)) = []"
    "nextClientId (registerClient (3, 5) (registerClient (2, 4) sample_gateway)) = 3"
    by (simp_all add: sample_gateway_def order_server_init_def registerClient_def Let_def reject_response_def mk_response_def)
  with disconnect_silences [OF sample_conns this(1,2), of "(7, 5)" sample_ouch] show ?thesis by (auto simp del: drainResponses.simps)
qed

section \<open>Messages\<close>

text \<open>
  A subscriber reads from an ITCH add message the ticker, order id, side, price and quantity of the
  update, provided the price fits the 32 bits of the wire format.
\<close>

theorem itch_add_round_trip:
  assumes "itch_spec lib" and "mu_type u = U_ADD" and "unat (mu_price u) < 2 ^ 32"
  shows "\<exists>msg. encode lib now u = Some msg \<and>
    read_add lib msg = (mu_ticker_id u, mu_market_order_id u, mu_side u, mu_price u, mu_qty u)"
proof -
  obtain msg where "encode lib now u = Some msg"
    using assms(2) encode_None_iff [of lib now u] by (auto simp: encodable_def)
  with read_add_encode [OF assms] show ?thesis by blast
qed

theorem itch_add_round_trip_witness:
  "\<exists>msg. encode sample_itch 7 (mk_update 3 9 U_ADD SELL 100 10 0 0) = Some msg \<and>
    read_add sample_itch msg = (3, 9, SELL, 100, 10)"
  using itch_add_round_trip [OF sample_itch_spec, of "mk_update 3 9 U_ADD SELL 100 10 0 0" 7] by (simp add: mk_update_def)

text \<open>
  The six timestamp bytes of an ITCH message are the nanoseconds since midnight, most significant byte
  first; no day has \<open>2 ^ 48\<close> nanoseconds or more, so nothing is cut off.
\<close>

theorem itch_timestamp_round_trip:
  assumes "ns < 86400 * 10 ^ 9"
  shows "read_be (writeTimestamp ns) 0 = unat ns"
proof -
  have "unat ns < 2 ^ 48" using assms by (simp add: word_less_nat_alt)
  then show ?thesis by (simp add: read_timestamp)
qed

theorem itch_timestamp_round_trip_witness: "read_be (writeTimestamp 86399999999999) 0 = 86399999999999"
  using itch_timestamp_round_trip [of 86399999999999] by simp

text \<open>
  A client reads from an OUCH execution message the executed quantity, the execution price, the
  match number and its own token, for prices that fit 32 bits.
\<close>

theorem ouch_executed_round_trip:
  assumes "ouch_spec lib" and "rs_status resp = EXECUTED" and "unat (rs_execution_price resp) < 2 ^ 32"
    and "length (rs_order_token resp) = OUCH_TOKEN_LEN"
  shows "ol_swap32 lib (out_executed_shares (encodeOuch lib resp ts)) = rs_executed_qty resp \<and>
    ucast (ol_swap32 lib (out_execution_price (encodeOuch lib resp ts))) = rs_execution_price resp \<and>
    ol_swap64 lib (out_match_number (encodeOuch lib resp ts)) = rs_match_id resp \<and>
    out_token (encodeOuch lib resp ts) = rs_order_token resp"
  using encode_executed [OF assms(1-3)] assms(4) by (simp add: OUCH_TOKEN_LEN_def)

theorem ouch_executed_round_trip_witness:
  "ol_swap32 sample_ouch (out_executed_shares (encodeOuch sample_ouch
    (mk_response 1 0 2 3 BUY 9 10 GoodTillCancel EXECUTED 4 9 6 1 zero_token) 0)) = 4"
  using ouch_executed_round_trip [OF sample_ouch_spec,
      of "mk_response 1 0 2 3 BUY 9 10 GoodTillCancel EXECUTED 4 9 6 1 zero_token" 0]
  by (simp add: mk_response_def zero_token_def)

section \<open>The publisher\<close>

text \<open>
  The incremental feed numbers the updates 1, 2, 3 and so on in the order the engine emitted them, one
  frame each; the streamer receives the same number and the same bytes for each.
\<close>

theorem feed_numbering:
  assumes spec: "itch_spec lib" and enc: "list_all (\<lambda>x. encodable (fst x)) (polled polls)"
  shows "\<exists>p. publisher_run lib polls publisher_init = Some p \<and>
    length (incremental_frames p) = length (polled polls) \<and> length (streamer_updates p) = length (polled polls) \<and>
    next_seq_num p = of_nat (length (polled polls)) + 1 \<and>
    (\<forall>i < length (polled polls).
      incremental_frames p ! i = il_image64 lib (il_swap64 lib (of_nat i + 1)) @ su_bytes (streamer_updates p ! i) \<and>
      su_seq_num (streamer_updates p ! i) = of_nat i + 1 \<and> su_update (streamer_updates p ! i) = fst (polled polls ! i) \<and>
      (\<exists>msg. encode lib (snd (polled polls ! i)) (fst (polled polls ! i)) = Some msg \<and>
        su_bytes (streamer_updates p ! i) = il_bytes lib msg))"
proof -
  obtain p where p: "publisher_run lib polls publisher_init = Some p" "published lib (polled polls) p"
    using publisher_run_ok [OF spec published_init enc] by auto
  have "\<exists>msg. encode lib (snd (polled polls ! i)) (fst (polled polls ! i)) = Some msg" if "i < length (polled polls)" for i
    using encode_None_iff [of lib "snd (polled polls ! i)" "fst (polled polls ! i)"] enc that by (auto simp: list_all_length)
  with p show ?thesis
    by (intro exI [of _ p]) (auto simp: published_def nth_feed numbered_snap_def frame_def, metis option.sel)
qed

theorem feed_numbering_witness:
  "\<exists>p. publisher_run sample_itch [None, Some (mk_update 3 9 U_ADD SELL 100 10 0 0, 7)] publisher_init = Some p \<and>
    length (incremental_frames p) = 1"
  using feed_numbering [OF sample_itch_spec, of "[None, Some (mk_update 3 9 U_ADD SELL 100 10 0 0, 7)]"]
  by (auto simp: encodable_def mk_update_def)

section \<open>A difference between the books\<close>

text \<open>
  C37. For a cancel of a given quantity, not zero, that succeeds, the OUCH message tells a client of the map book how many shares were
  cancelled; a client of the vector book reads what remains of its order in the same field, zero after a
  full cancel.
\<close>

theorem cancel_decrement_differs:
  assumes "ouch_spec lib" and "map_represents ops pv b A" and "vec_represents ops' pv' b' A"
    and "a_find c k A = Some r" and "0 < qty" and "qty \<le> mo_remainingQuantity r"
  shows "\<exists>b1 io1 b2 io2. map_cancelOrder ops tick c k qty tok b io = Some (b1, io1) \<and>
    vec_cancelOrder ops' tick c k qty tok b' io = Some (b2, io2) \<and>
    ol_swap32 lib (out_decrement_shares (encodeOuch lib (last (responses io1)) ts)) = qty \<and>
    ol_swap32 lib (out_decrement_shares (encodeOuch lib (last (responses io2)) ts)) = mo_remainingQuantity r - qty"
proof -
  have "\<exists>b1. map_cancelOrder ops tick c k qty tok b io = Some (b1, snd (a_cancelOrder MapBook tick c k qty tok A io))"
    using map_ob.cancel_refines [OF assms(2), of tick c k qty tok io] by (auto simp: map_book_ops_def)
  moreover have "\<exists>b2. vec_cancelOrder ops' tick c k qty tok b' io = Some (b2, snd (a_cancelOrder VectorBook tick c k qty tok A io))"
    using vec_ob.cancel_refines [OF assms(3), of tick c k qty tok io] by (auto simp: vec_book_ops_def)
  moreover have "qty \<noteq> 0" "\<not> mo_remainingQuantity r < qty" using assms(5,6) by auto
  ultimately show ?thesis
    using assms(1,4) by (auto simp: a_cancelOrder_def Let_def encodeOuch_def mk_response_def ouch_spec_def)
qed

theorem cancel_decrement_differs_witness:
  "\<exists>b1 io1 b2 io2 b b'. map_cancelOrder free_pool 0 7 1 10 zero_token b sample_io = Some (b1, io1) \<and>
    vec_cancelOrder free_pool 0 7 1 10 zero_token b' sample_io = Some (b2, io2) \<and>
    ol_swap32 sample_ouch (out_decrement_shares (encodeOuch sample_ouch (last (responses io1)) 0)) = 10 \<and>
    ol_swap32 sample_ouch (out_decrement_shares (encodeOuch sample_ouch (last (responses io2)) 0)) = 0"
proof -
  let ?r = "mk_order 0 7 1 1 GoodTillCancel 100 10 SELL zero_token"
  obtain b b' where b: "map_represents free_pool free_pool_view b sample_book" "vec_represents free_pool free_pool_view b' sample_book"
    using map_sample_rep vec_sample_rep unfolding sample_book_eq(2) by blast
  have f: "a_find 7 1 sample_book = Some ?r"
    by (simp add: sample_book_eq a_find_def a_orders_def has_key_def rec_defs)
  from cancel_decrement_differs [OF sample_ouch_spec b f, of 10 0 zero_token sample_io 0] show ?thesis
    by (simp add: mk_order_def) blast
qed

end
