(* ===== verification/Sockets.thy ===== *)
theory Sockets
  imports Snapshot "HOL-Library.Sublist"
begin

text \<open>
  The TCP side of the snapshot streamer: the loops \<^verbatim>\<open>sendAll\<close> and \<^verbatim>\<open>recvExact\<close> of
  \<^verbatim>\<open>src/src/network/market/snapshot_stream.h\<close> and the request handler on a real socket, where every
  call may move fewer bytes than asked for, or fail. They are related to \<open>handleClient\<close> of theory
  Snapshot, which speaks of the whole request and the whole reply.

  A socket is what the kernel will do with it: \<open>sk_caps\<close> bounds the bytes that each further call
  moves, zero standing for an error, a closed peer or a passed deadline (every call after the end of the
  list fails), \<open>sk_in\<close> is what the client has sent and has not been read, \<open>sk_out\<close> what it has been sent.
\<close>

record socket =
  sk_caps :: "nat list"
  sk_in :: "char list"
  sk_out :: "char list"

section \<open>The operations of the source\<close>

text \<open>\<^verbatim>\<open>::send\<close> and \<^verbatim>\<open>::recv\<close>. A result of zero stands for every result that is not positive.\<close>

definition sock_send :: "char list \<Rightarrow> socket \<Rightarrow> nat \<times> socket" where
  "sock_send data fd =
    (case sk_caps fd of
       [] \<Rightarrow> (0, fd)
     | k # ks \<Rightarrow> let n = min k (length data)
                 in (n, fd\<lparr>sk_caps := ks, sk_out := sk_out fd @ take n data\<rparr>))"

definition sock_recv :: "nat \<Rightarrow> socket \<Rightarrow> char list \<times> socket" where
  "sock_recv sz fd =
    (case sk_caps fd of
       [] \<Rightarrow> ([], fd)
     | k # ks \<Rightarrow> let n = min k sz
                 in (take n (sk_in fd), fd\<lparr>sk_caps := ks, sk_in := drop n (sk_in fd)\<rparr>))"

function sendAll :: "char list \<Rightarrow> socket \<Rightarrow> bool \<times> socket" where
  "sendAll bytes fd =
    (if bytes \<noteq> [] then
       let (sent, fd) = sock_send bytes fd in
       if sent = 0 then (False, fd) else sendAll (drop sent bytes) fd
     else (True, fd))"
  by pat_completeness auto
termination by (relation "measure (\<lambda>(bytes, _). length bytes)") auto

text \<open>The bytes are those written to the buffer, also when the call fails.\<close>

function recvExact :: "nat \<Rightarrow> socket \<Rightarrow> bool \<times> char list \<times> socket" where
  "recvExact sz fd =
    (if 0 < sz then
       let (bytes, fd) = sock_recv sz fd in
       if bytes = [] then (False, [], fd)
       else let (ok, more, fd) = recvExact (sz - length bytes) fd in (ok, bytes @ more, fd)
     else (True, [], fd))"
  by pat_completeness auto
termination by (relation "measure (\<lambda>(sz, _). sz)") auto

definition serveSnapshot_fd :: "itch_lib \<Rightarrow> (shadow \<Rightarrow> shadow) \<Rightarrow> (nat \<Rightarrow> uint64) \<Rightarrow> socket \<Rightarrow> SnapshotStreamer \<Rightarrow>
    socket \<times> SnapshotStreamer" where
  "serveSnapshot_fd lib iter clk fd s =
    (let (buf, s) = serveSnapshot lib iter clk s in (snd (sendAll buf fd), s))"

definition serveReplay_fd :: "socket \<Rightarrow> SnapshotStreamer \<Rightarrow> uint64 \<Rightarrow> socket option" where
  "serveReplay_fd fd s client_seq =
    (if client_seq \<ge> last_seq_num s then Some (snd (sendAll ''C'' fd))
     else
       let oldest_replayable = (if last_seq_num s > of_nat REPLAY_CAPACITY
                                then last_seq_num s - of_nat REPLAY_CAPACITY else 0)
       in if client_seq < oldest_replayable then Some (snd (sendAll ''N'' fd))
          else do {
            let fd = snd (sendAll ''R'' fd);
            replay_scratch \<leftarrow> replay_loop (replay_buffer s) (last_seq_num s) (client_seq + 1) [];
            Some (snd (sendAll replay_scratch fd))
          })"

definition handleClient_fd :: "itch_lib \<Rightarrow> (shadow \<Rightarrow> shadow) \<Rightarrow> (nat \<Rightarrow> uint64) \<Rightarrow> socket \<Rightarrow> SnapshotStreamer \<Rightarrow>
    (socket \<times> SnapshotStreamer) option" where
  "handleClient_fd lib iter clk fd s =
    (let (ok, request, fd) = recvExact 1 fd in
     if \<not> ok then Some (fd, s)
     else if hd request = CHR ''S'' then Some (serveSnapshot_fd lib iter clk fd s)
     else if hd request = CHR ''R'' then
       let (ok, seq, fd) = recvExact 8 fd in
       if \<not> ok then Some (fd, s)
       else map_option (\<lambda>fd. (fd, s)) (serveReplay_fd fd s (il_swap64 lib (il_read64 lib seq)))
     else Some (fd, s))"

section \<open>The two loops\<close>

declare sendAll.simps [simp del] recvExact.simps [simp del]

text \<open>
  \<open>dead_stays_dead\<close>: after a call that failed, no further call succeeds. \<open>patient\<close>: the next \<open>n\<close> calls succeed.
\<close>

fun dead_stays_dead :: "nat list \<Rightarrow> bool" where
  "dead_stays_dead [] \<longleftrightarrow> True"
| "dead_stays_dead (k # ks) \<longleftrightarrow> (if k = 0 then list_all (\<lambda>k. k = 0) ks else dead_stays_dead ks)"

definition patient :: "nat \<Rightarrow> socket \<Rightarrow> bool" where
  "patient n fd \<longleftrightarrow> n \<le> length (sk_caps fd) \<and> list_all (\<lambda>k. 0 < k) (take n (sk_caps fd))"

lemma dead_calls: "list_all (\<lambda>k. k = 0) ks \<Longrightarrow> dead_stays_dead ks"
  by (induction ks) auto

lemma patient_less: "patient n fd \<Longrightarrow> m \<le> n \<Longrightarrow> patient m fd"
  by (auto simp: patient_def list_all_length)

lemma sendAll_steps:
  "sendAll [] fd = (True, fd)"
  "bytes \<noteq> [] \<Longrightarrow> sk_caps fd = [] \<Longrightarrow> sendAll bytes fd = (False, fd)"
  "bytes \<noteq> [] \<Longrightarrow> sk_caps fd = 0 # ks \<Longrightarrow> sendAll bytes fd = (False, fd\<lparr>sk_caps := ks\<rparr>)"
  "bytes \<noteq> [] \<Longrightarrow> sk_caps fd = Suc k # ks \<Longrightarrow>
    sendAll bytes fd = sendAll (drop (Suc k) bytes) (fd\<lparr>sk_caps := ks, sk_out := sk_out fd @ take (Suc k) bytes\<rparr>)"
  by (subst sendAll.simps, simp add: sock_send_def Let_def min_def)+

lemma recvExact_steps:
  "recvExact 0 fd = (True, [], fd)"
  "0 < n \<Longrightarrow> sk_caps fd = [] \<Longrightarrow> recvExact n fd = (False, [], fd)"
  "0 < n \<Longrightarrow> sk_caps fd = k # ks \<Longrightarrow> take (min k n) (sk_in fd) = [] \<Longrightarrow>
    recvExact n fd = (False, [], fd\<lparr>sk_caps := ks, sk_in := drop (min k n) (sk_in fd)\<rparr>)"
  "0 < n \<Longrightarrow> sk_caps fd = k # ks \<Longrightarrow> take (min k n) (sk_in fd) = b # bs \<Longrightarrow>
    recvExact n fd = (let (ok, more, fd') =
        recvExact (n - length (b # bs)) (fd\<lparr>sk_caps := ks, sk_in := drop (min k n) (sk_in fd)\<rparr>)
      in (ok, (b # bs) @ more, fd'))"
  by (subst recvExact.simps, simp add: sock_recv_def Let_def)+

text \<open>
  What \<^verbatim>\<open>sendAll\<close> leaves behind: on success the client was sent exactly the bytes, otherwise a proper
  prefix of them.
\<close>

lemma sendAll_out:
  "sendAll bytes fd = (ok, fd') \<Longrightarrow>
    \<exists>sent. sk_out fd' = sk_out fd @ sent \<and> sk_in fd' = sk_in fd \<and>
      (if ok then sent = bytes else prefix sent bytes \<and> sent \<noteq> bytes)"
proof (induction "sk_caps fd" arbitrary: bytes fd)
  case Nil
  then show ?case by (cases "bytes = []") (auto simp: sendAll_steps)
next
  case (Cons k ks)
  note ks = Cons(2) [symmetric]
  consider "bytes = []" | "bytes \<noteq> []" "k = 0" | m where "bytes \<noteq> []" "k = Suc m" by (cases k) auto
  then show ?case
  proof cases
    case 3
    let ?fd = "fd\<lparr>sk_caps := ks, sk_out := sk_out fd @ take k bytes\<rparr>"
    have "sendAll (drop k bytes) ?fd = (ok, fd')" using Cons.prems 3 sendAll_steps(4) [OF _ ks [unfolded 3]] by simp
    then obtain sent where "sk_out fd' = sk_out fd @ take k bytes @ sent" "sk_in fd' = sk_in fd"
      "if ok then sent = drop k bytes else prefix sent (drop k bytes) \<and> sent \<noteq> drop k bytes"
      using Cons(1) [of ?fd] by auto
    moreover have "prefix (take k bytes @ sent) bytes \<and> take k bytes @ sent \<noteq> bytes"
      if "prefix sent (drop k bytes)" "sent \<noteq> drop k bytes"
      using that by (metis append_take_drop_id same_append_eq same_prefix_prefix)
    ultimately show ?thesis by (intro exI [of _ "take k bytes @ sent"]) (auto split: if_splits)
  qed (use Cons.prems ks in \<open>auto simp: sendAll_steps\<close>)
qed

text \<open>After a failed \<^verbatim>\<open>sendAll\<close> on a connection that does not recover, nothing more is sent.\<close>

lemma sendAll_dead:
  assumes "list_all (\<lambda>k. k = 0) (sk_caps fd)"
  shows "sk_out (snd (sendAll bytes fd)) = sk_out fd"
  using assms by (cases "bytes = []"; cases "sk_caps fd") (auto simp: sendAll_steps)

lemma sendAll_fails:
  "sendAll bytes fd = (False, fd') \<Longrightarrow> dead_stays_dead (sk_caps fd) \<Longrightarrow> list_all (\<lambda>k. k = 0) (sk_caps fd')"
proof (induction "sk_caps fd" arbitrary: bytes fd)
  case Nil
  then show ?case by (cases "bytes = []") (auto simp: sendAll_steps)
next
  case (Cons k ks)
  note ks = Cons(2) [symmetric]
  have "bytes \<noteq> []" using Cons.prems(1) by (auto simp: sendAll_steps)
  then show ?case
  proof (cases k)
    case (Suc j)
    with Cons.prems ks \<open>bytes \<noteq> []\<close> show ?thesis
      by (intro Cons(1) [of "fd\<lparr>sk_caps := ks, sk_out := sk_out fd @ take k bytes\<rparr>" "drop k bytes"])
        (auto simp: sendAll_steps)
  qed (use Cons.prems ks in \<open>auto simp: sendAll_steps\<close>)
qed

text \<open>With as many working calls as bytes, both loops succeed.\<close>

lemma sendAll_patient:
  "patient (length bytes + m) fd \<Longrightarrow> \<exists>fd'. sendAll bytes fd = (True, fd') \<and> patient m fd'"
proof (induction "sk_caps fd" arbitrary: bytes fd)
  case Nil
  then show ?case by (auto simp: patient_def sendAll_steps)
next
  case (Cons k ks)
  note ks = Cons(2) [symmetric]
  show ?case
  proof (cases "bytes = []")
    case False
    then obtain n where n: "length bytes = Suc n" by (cases bytes) auto
    with Cons.prems ks obtain j where k: "k = Suc j" by (cases k) (auto simp: patient_def)
    let ?fd = "fd\<lparr>sk_caps := ks, sk_out := sk_out fd @ take k bytes\<rparr>"
    have "patient (n + m) ?fd" using Cons.prems ks n by (auto simp: patient_def)
    then have "patient (length (drop k bytes) + m) ?fd" by (rule patient_less) (simp add: n k)
    with Cons(1) [of ?fd] False show ?thesis by (simp add: sendAll_steps(4) [OF _ ks [unfolded k]] k)
  qed (use Cons.prems in \<open>simp add: sendAll_steps\<close>)
qed

lemma recvExact_in:
  "recvExact n fd = (ok, bytes, fd') \<Longrightarrow>
    sk_in fd = bytes @ sk_in fd' \<and> sk_out fd' = sk_out fd \<and> length bytes \<le> n \<and> (ok \<longleftrightarrow> length bytes = n) \<and>
    (dead_stays_dead (sk_caps fd) \<longrightarrow> dead_stays_dead (sk_caps fd'))"
proof (induction "sk_caps fd" arbitrary: n fd bytes)
  case Nil
  then show ?case by (cases "n = 0") (auto simp: recvExact_steps)
next
  case (Cons k ks)
  let ?fd = "fd\<lparr>sk_caps := ks, sk_in := drop (min k n) (sk_in fd)\<rparr>"
  note ks = Cons(2) [symmetric]
  have dead: "dead_stays_dead (k # ks) \<longrightarrow> dead_stays_dead ks" by (simp add: dead_calls)
  have tk: "sk_in fd = take (min k n) (sk_in fd) @ sk_in ?fd" by simp
  consider "n = 0" | "0 < n" "take (min k n) (sk_in fd) = []" | b bs where "0 < n" "take (min k n) (sk_in fd) = b # bs"
    by (cases "take (min k n) (sk_in fd)") auto
  then show ?case
  proof cases
    case 3
    obtain more where m: "recvExact (n - length (b # bs)) ?fd = (ok, more, fd')" "bytes = (b # bs) @ more"
      using Cons.prems recvExact_steps(4) [OF 3(1) ks 3(2)] by (auto split: prod.splits)
    moreover have "length (b # bs) \<le> n" using arg_cong [OF 3(2), of length] by simp
    ultimately show ?thesis using Cons(1) [OF _ m(1)] tk dead unfolding 3(2) ks by auto
  qed (use Cons.prems recvExact_steps(1) [of fd] recvExact_steps(3) [OF _ ks] tk dead ks in auto)
qed

lemma recvExact_patient:
  "patient (n + m) fd \<Longrightarrow> n \<le> length (sk_in fd) \<Longrightarrow>
    \<exists>fd'. recvExact n fd = (True, take n (sk_in fd), fd') \<and> sk_in fd' = drop n (sk_in fd) \<and> patient m fd'"
proof (induction "sk_caps fd" arbitrary: n fd)
  case Nil
  then show ?case by (auto simp: patient_def recvExact_steps)
next
  case (Cons k ks)
  note ks = Cons(2) [symmetric]
  show ?case
  proof (cases n)
    case (Suc n')
    with Cons.prems(1) ks have k: "0 < k" by (auto simp: patient_def)
    let ?j = "min k n" and ?fd = "fd\<lparr>sk_caps := ks, sk_in := drop (min k n) (sk_in fd)\<rparr>"
    have j: "0 < ?j" "?j \<le> n" using k Suc by auto
    then obtain b bs where b: "take ?j (sk_in fd) = b # bs"
      using Cons.prems(2) by (cases "take ?j (sk_in fd)") auto
    have len: "length (b # bs) = ?j" using arg_cong [OF b, of length] Cons.prems(2) by simp
    have "patient (n' + m) ?fd" using Cons.prems(1) ks Suc by (auto simp: patient_def)
    then have "patient ((n - ?j) + m) ?fd" by (rule patient_less) (use j Suc in simp)
    moreover have "n - ?j \<le> length (sk_in ?fd)" using Cons.prems(2) by (simp add: diff_le_mono)
    ultimately obtain fd' where "recvExact (n - ?j) ?fd = (True, take (n - ?j) (drop ?j (sk_in fd)), fd')"
      "sk_in fd' = drop (n - ?j) (drop ?j (sk_in fd))" "patient m fd'"
      using Cons(1) [of ?fd "n - ?j"] by auto
    moreover have "(b # bs) @ take (n - ?j) (drop ?j (sk_in fd)) = take n (sk_in fd)"
      using j(2) unfolding b [symmetric] by (metis le_add_diff_inverse take_add)
    moreover have "drop (n - ?j) (drop ?j (sk_in fd)) = drop n (sk_in fd)" by simp
    ultimately show ?thesis
      using recvExact_steps(4) [OF _ ks b, unfolded len] Suc by (metis (no_types, lifting) case_prod_conv zero_less_Suc)
  qed (use Cons.prems in \<open>simp add: recvExact_steps\<close>)
qed

section \<open>The handler on a socket\<close>

text \<open>
  Of the two parts of a replay, the status byte and the frames, a connection that does not recover from a
  failure gets a prefix.
\<close>

lemma sendAll_twice:
  assumes "dead_stays_dead (sk_caps fd)"
  shows "\<exists>sent. sk_out (snd (sendAll ys (snd (sendAll xs fd)))) = sk_out fd @ sent \<and> prefix sent (xs @ ys)"
proof -
  obtain ok fd1 where 1: "sendAll xs fd = (ok, fd1)" by fastforce
  obtain ok2 fd2 where 2: "sendAll ys fd1 = (ok2, fd2)" by fastforce
  show ?thesis
  proof (cases ok)
    case True
    with sendAll_out [OF 1] sendAll_out [OF 2] show ?thesis by (cases ok2) (auto simp: 1 2)
  next
    case False
    with 1 assms have "sk_out fd2 = sk_out fd1"
      using sendAll_fails [of xs fd fd1] sendAll_dead [of fd1 ys] by (simp add: 2)
    with False sendAll_out [OF 1] show ?thesis by (auto simp: 1 2 prefix_def)
  qed
qed

lemma sendAll_once: "\<exists>sent. sk_out (snd (sendAll xs fd)) = sk_out fd @ sent \<and> prefix sent xs"
  by (cases "sendAll xs fd") (use sendAll_out [of xs fd] in \<open>fastforce split: if_splits\<close>)

text \<open>A reply to a replay request is a single status byte, or the status byte and the frames.\<close>

lemma serveReplay_cases:
  obtains (status) x where "serveReplay s c = Some [x]" and "\<And>fd. serveReplay_fd fd s c = Some (snd (sendAll [x] fd))"
  | (frames) frames where "serveReplay s c = map_option (\<lambda>scratch. ''R'' @ scratch) frames"
      and "\<And>fd. serveReplay_fd fd s c = map_option (\<lambda>scratch. snd (sendAll scratch (snd (sendAll ''R'' fd)))) frames"
proof (cases "c \<ge> last_seq_num s \<or> c < (if last_seq_num s > of_nat REPLAY_CAPACITY then last_seq_num s - of_nat REPLAY_CAPACITY else 0)")
  case True
  then show thesis by (intro status [of "if c \<ge> last_seq_num s then CHR ''C'' else CHR ''N''"])
      (auto simp: serveReplay_def serveReplay_fd_def Let_def)
next
  case False
  let ?loop = "replay_loop (replay_buffer s) (last_seq_num s) (c + 1) []"
  from False have "serveReplay s c = map_option (\<lambda>scratch. ''R'' @ scratch) ?loop"
    "serveReplay_fd fd s c = map_option (\<lambda>scratch. snd (sendAll scratch (snd (sendAll ''R'' fd)))) ?loop" for fd
    by (cases ?loop; simp add: serveReplay_def serveReplay_fd_def Let_def)+
  then show thesis by (rule frames)
qed

lemma serveReplay_fd_sends:
  assumes "dead_stays_dead (sk_caps fd)" and "serveReplay_fd fd s c = Some fd'"
  shows "\<exists>reply sent. serveReplay s c = Some reply \<and> sk_out fd' = sk_out fd @ sent \<and> prefix sent reply"
proof (cases s c rule: serveReplay_cases)
  case (status x)
  with assms(2) sendAll_once [of "[x]" fd] show ?thesis by auto
next
  case (frames frames)
  with assms(2) show ?thesis using sendAll_twice [OF assms(1), of _ "''R''"] by auto
qed

lemma handleClient_fd_sends:
  assumes dead: "dead_stays_dead (sk_caps fd)" and run: "handleClient_fd lib iter clk fd s = Some (fd', s')"
  shows "\<exists>req reply sent. prefix req (sk_in fd) \<and> handleClient lib iter clk req s = Some (reply, s') \<and>
    sk_out fd' = sk_out fd @ sent \<and> prefix sent reply"
proof -
  obtain ok req fd1 where 1: "recvExact (Suc 0) fd = (ok, req, fd1)" by (cases "recvExact (Suc 0) fd")
  obtain ok2 sq fd2 where 2: "recvExact 8 fd1 = (ok2, sq, fd2)" by (cases "recvExact 8 fd1")
  note in1 = recvExact_in [OF 1] and in2 = recvExact_in [OF 2]
  show ?thesis
  proof (cases ok)
    case False
    with run in1 show ?thesis by (auto simp: handleClient_fd_def 1 handleClient_def intro!: exI [of _ "[]"])
  next
    case True
    with in1 obtain c where c: "req = [c]" "sk_in fd = c # sk_in fd1" by (auto simp: length_Suc_conv)
    show ?thesis
    proof (cases "c = CHR ''R''")
      case R: True
      have pre: "prefix (c # sq) (sk_in fd)" using c in2 by (simp add: prefix_def)
      show ?thesis
      proof (cases ok2)
        case True
        then have fd': "serveReplay_fd fd2 s (il_swap64 lib (il_read64 lib sq)) = Some fd'" "s' = s"
          using run R \<open>ok\<close> by (auto simp: handleClient_fd_def 1 2 c)
        with True in1 in2 pre R serveReplay_fd_sends [OF _ fd'(1)] dead show ?thesis
          by - (rule exI [of _ "c # sq"], auto simp: handleClient_def)
      next
        case False
        with run R pre \<open>ok\<close> in1 in2 show ?thesis
          by - (rule exI [of _ "c # sq"], auto simp: handleClient_fd_def handleClient_def 1 2 c)
      qed
    next
      case False
      with run c \<open>ok\<close> in1 sendAll_once [of "fst (serveSnapshot lib iter clk s)" fd1] show ?thesis
        by - (rule exI [of _ "[c]"],
          auto simp: handleClient_fd_def handleClient_def serveSnapshot_fd_def 1 split: if_splits prod.splits)
    qed
  qed
qed

lemma sendAll_done:
  assumes "patient (length bytes + m) fd"
  obtains fd' where "sendAll bytes fd = (True, fd')" and "sk_out fd' = sk_out fd @ bytes" and "patient m fd'"
  using sendAll_patient [OF assms] sendAll_out [of bytes fd True] by auto

lemma serveReplay_fd_patient:
  assumes "patient (length reply) fd" and "serveReplay s c = Some reply"
  shows "\<exists>fd'. serveReplay_fd fd s c = Some fd' \<and> sk_out fd' = sk_out fd @ reply"
proof (cases s c rule: serveReplay_cases)
  case (status x)
  with assms obtain fd' where "sendAll [x] fd = (True, fd')" "sk_out fd' = sk_out fd @ [x]"
    using sendAll_done [of "[x]" 0 fd] by auto
  with status assms(2) show ?thesis by simp
next
  case (frames frames)
  then obtain scratch where s: "frames = Some scratch" "reply = ''R'' @ scratch" using assms(2) by (cases frames) auto
  obtain fd1 where fd1: "sendAll ''R'' fd = (True, fd1)" "sk_out fd1 = sk_out fd @ ''R''" "patient (length scratch + 0) fd1"
    using sendAll_done [of "''R''" "length scratch" fd] assms(1) s(2) by auto
  then obtain fd2 where "sendAll scratch fd1 = (True, fd2)" "sk_out fd2 = sk_out fd1 @ scratch"
    using sendAll_done [OF fd1(3)] by blast
  with frames(2) s fd1 show ?thesis by simp
qed

lemma handleClient_fd_patient:
  assumes pat: "patient (9 + length reply) fd" and reply: "handleClient lib iter clk (sk_in fd) s = Some (reply, s')"
  shows "\<exists>fd'. handleClient_fd lib iter clk fd s = Some (fd', s') \<and> sk_out fd' = sk_out fd @ reply"
proof (cases "sk_in fd")
  case Nil
  obtain ok req fd1 where 1: "recvExact (Suc 0) fd = (ok, req, fd1)" by (cases "recvExact (Suc 0) fd")
  with recvExact_in [OF 1] Nil reply show ?thesis by (auto simp: handleClient_fd_def handleClient_def)
next
  case (Cons c rest)
  obtain fd1 where 1: "recvExact (Suc 0) fd = (True, [c], fd1)" "sk_in fd1 = rest" "patient (8 + length reply) fd1"
    using recvExact_patient [of "Suc 0" "8 + length reply" fd] pat Cons by (auto simp: add.assoc)
  then have out1: "sk_out fd1 = sk_out fd" using recvExact_in [OF 1(1)] by simp
  obtain ok sq fd2 where 2: "recvExact 8 fd1 = (ok, sq, fd2)" by (cases "recvExact 8 fd1")
  consider "c = CHR ''S''" | "c = CHR ''R''" "length rest < 8" | "c = CHR ''R''" "8 \<le> length rest"
    | "c \<noteq> CHR ''S''" "c \<noteq> CHR ''R''" by fastforce
  then show ?thesis
  proof cases
    case 1: 1
    then have "serveSnapshot lib iter clk s = (reply, s')" using reply Cons by (simp add: handleClient_def)
    moreover have "patient (length reply + 0) fd1" using \<open>patient (8 + length reply) fd1\<close> by (rule patient_less) simp
    then obtain fd' where "sendAll reply fd1 = (True, fd')" "sk_out fd' = sk_out fd1 @ reply" by (rule sendAll_done)
    ultimately show ?thesis
      using 1 \<open>recvExact (Suc 0) fd = _\<close> out1 by (simp add: handleClient_fd_def serveSnapshot_fd_def)
  next
    case 2
    with recvExact_in [OF \<open>recvExact 8 fd1 = _\<close>] \<open>recvExact 8 fd1 = _\<close> 1 out1 reply Cons show ?thesis
      by (auto simp: handleClient_fd_def handleClient_def)
  next
    case 3
    then have r: "serveReplay s (il_swap64 lib (il_read64 lib (take 8 rest))) = Some reply" "s' = s"
      using reply Cons by (auto simp: handleClient_def)
    obtain fd3 where 4: "recvExact 8 fd1 = (True, take 8 rest, fd3)" "patient (length reply) fd3"
      using recvExact_patient [OF 1(3)] 3(2) 1(2) by auto
    then have "sk_out fd3 = sk_out fd" using recvExact_in [OF 4(1)] out1 by simp
    with serveReplay_fd_patient [OF 4(2) r(1)] 1 3 4 r show ?thesis by (auto simp: handleClient_fd_def)
  next
    case 4
    with 1 out1 reply Cons show ?thesis by (auto simp: handleClient_fd_def handleClient_def)
  qed
qed

lemma handleClient_fd_total:
  assumes "\<And>c. \<exists>reply. serveReplay s c = Some reply"
  shows "\<exists>fd' s'. handleClient_fd lib iter clk fd s = Some (fd', s')"
proof -
  have "\<exists>fd'. serveReplay_fd fd s c = Some fd'" for fd c
    using assms [of c] by (cases s c rule: serveReplay_cases) auto
  then show ?thesis by (fastforce simp: handleClient_fd_def split: prod.splits)
qed

text \<open>
  A connection that recovers: \<^verbatim>\<open>serveReplay\<close> ignores the result of sending the status byte, so when that
  send fails and the next one succeeds, the client reads the frames without the status.
\<close>

lemma replay_status_lost:
  assumes "serveReplay s c = Some (''R'' @ frames)" and "frames \<noteq> []" and "sk_caps fd = [0, length frames]"
  shows "\<exists>fd'. serveReplay_fd fd s c = Some fd' \<and> sk_out fd' = sk_out fd @ frames"
proof (cases s c rule: serveReplay_cases)
  case status
  with assms(1,2) show ?thesis by simp
next
  case (frames fs)
  with assms(1) have fs: "fs = Some frames" by (cases fs) auto
  obtain n where n: "length frames = Suc n" using assms(2) by (cases frames) auto
  have "snd (sendAll ''R'' fd) = fd\<lparr>sk_caps := [length frames]\<rparr>" using assms(3) by (simp add: sendAll_steps)
  moreover have "sk_caps (fd\<lparr>sk_caps := [length frames]\<rparr>) = [Suc n]" using n by simp
  from sendAll_steps(4) [OF assms(2) this]
  have "sk_out (snd (sendAll frames (fd\<lparr>sk_caps := [length frames]\<rparr>))) = sk_out fd @ frames"
    using n sendAll_steps(1) by simp
  ultimately show ?thesis by (simp add: frames fs)
qed

end
