(* ===== verification/Channels.thy ===== *)
theory Channels
  imports Prelude "HOL-Library.Sublist"
begin

text \<open>
  The lock-free queues between the threads. \<^verbatim>\<open>SPSCQueue\<close> comes from a library outside the
  repository, so its operations are a parameter, and \<open>spsc_spec\<close> is what the code relies on: a push
  that succeeds appends, one that fails found the queue not empty, \<^verbatim>\<open>getNextRead\<close> gives the oldest
  element or null, \<^verbatim>\<open>updateNextRead\<close> removes it. \<open>contents\<close> is what has been pushed and not removed.

  A \<open>channel\<close> is a queue with its history: everything pushed so far, and how much of it was removed.
\<close>

record ('a, 'q) spsc_ops =
  sp_push :: "'q \<Rightarrow> 'a \<Rightarrow> 'q option"
  sp_next :: "'q \<Rightarrow> 'a option"
  sp_pop :: "'q \<Rightarrow> 'q"

definition spsc_spec :: "('a, 'q) spsc_ops \<Rightarrow> ('q \<Rightarrow> 'a list) \<Rightarrow> bool" where
  "spsc_spec ops contents \<longleftrightarrow>
     (\<forall>q x q'. sp_push ops q x = Some q' \<longrightarrow> contents q' = contents q @ [x]) \<and>
     (\<forall>q x. sp_push ops q x = None \<longrightarrow> contents q \<noteq> []) \<and>
     (\<forall>q. sp_next ops q = first (contents q)) \<and>
     (\<forall>q. contents q \<noteq> [] \<longrightarrow> contents (sp_pop ops q) = tl (contents q))"

record ('a, 'q) channel =
  ch_queue :: 'q
  ch_log :: "'a list"
  ch_read :: nat

definition ch_init :: "'q \<Rightarrow> ('a, 'q) channel" where
  "ch_init q = \<lparr>ch_queue = q, ch_log = [], ch_read = 0\<rparr>"

definition ch_push :: "('a, 'q) spsc_ops \<Rightarrow> ('a, 'q) channel \<Rightarrow> 'a \<Rightarrow> ('a, 'q) channel option" where
  "ch_push ops c x = map_option (\<lambda>q. c\<lparr>ch_queue := q, ch_log := ch_log c @ [x]\<rparr>) (sp_push ops (ch_queue c) x)"

definition ch_next :: "('a, 'q) spsc_ops \<Rightarrow> ('a, 'q) channel \<Rightarrow> 'a option" where
  "ch_next ops c = sp_next ops (ch_queue c)"

definition ch_pop :: "('a, 'q) spsc_ops \<Rightarrow> ('a, 'q) channel \<Rightarrow> ('a, 'q) channel" where
  "ch_pop ops c = c\<lparr>ch_queue := sp_pop ops (ch_queue c), ch_read := Suc (ch_read c)\<rparr>"

text \<open>\<open>ch_unread\<close> is what the consumer has not removed.\<close>

definition ch_unread :: "('a, 'q) channel \<Rightarrow> 'a list" where
  "ch_unread c = drop (ch_read c) (ch_log c)"

definition chan_ok :: "('a, 'q) spsc_ops \<Rightarrow> ('q \<Rightarrow> 'a list) \<Rightarrow> ('a, 'q) channel \<Rightarrow> bool" where
  "chan_ok ops contents c \<longleftrightarrow> spsc_spec ops contents \<and> contents (ch_queue c) = ch_unread c \<and> ch_read c \<le> length (ch_log c)"

lemma chan_init: "spsc_spec ops contents \<Longrightarrow> contents q = [] \<Longrightarrow> chan_ok ops contents (ch_init q)"
  by (simp add: chan_ok_def ch_init_def ch_unread_def)

lemma ch_init_simps [simp]: "ch_log (ch_init q) = []" "ch_read (ch_init q) = 0" "ch_unread (ch_init q) = []"
  by (simp_all add: ch_init_def ch_unread_def)

lemma ch_pop_simps [simp]: "ch_log (ch_pop ops c) = ch_log c" "ch_read (ch_pop ops c) = Suc (ch_read c)"
  by (simp_all add: ch_pop_def)

lemma ch_push_Some:
  assumes "ch_push ops c x = Some c'"
  shows "ch_log c' = ch_log c @ [x]" and "ch_read c' = ch_read c"
  using assms by (auto simp: ch_push_def)

lemma chan_push:
  assumes "chan_ok ops contents c" and "ch_push ops c x = Some c'"
  shows "chan_ok ops contents c'" and "ch_unread c' = ch_unread c @ [x]"
  using assms by (auto simp: chan_ok_def ch_push_def spsc_spec_def ch_unread_def)

lemma chan_push_empty:
  assumes "chan_ok ops contents c" and "ch_unread c = []"
  obtains c' where "ch_push ops c x = Some c'"
  using assms by (cases "sp_push ops (ch_queue c) x") (auto simp: chan_ok_def ch_push_def spsc_spec_def)

lemma chan_next:
  assumes "chan_ok ops contents c"
  shows "ch_next ops c = first (ch_unread c)"
  using assms by (simp add: chan_ok_def ch_next_def spsc_spec_def)

lemma chan_next_Some:
  assumes "chan_ok ops contents c" and "ch_next ops c = Some x"
  shows "ch_read c < length (ch_log c)" and "ch_log c ! ch_read c = x" and "ch_unread c \<noteq> []"
proof -
  obtain xs where "drop (ch_read c) (ch_log c) = x # xs"
    using assms chan_next [OF assms(1)] by (cases "ch_unread c") (auto simp: ch_unread_def)
  then show "ch_read c < length (ch_log c)" "ch_log c ! ch_read c = x" "ch_unread c \<noteq> []"
    using drop_all [of "ch_log c" "ch_read c"] by (auto simp: ch_unread_def nth_via_drop not_le [symmetric] simp del: drop_all)
qed

lemma chan_next_take:
  assumes "chan_ok ops contents c" and "ch_next ops c = Some x"
  shows "take (Suc (ch_read c)) (ch_log c) = take (ch_read c) (ch_log c) @ [x]"
  using chan_next_Some [OF assms] by (simp add: take_Suc_conv_app_nth)

lemma chan_pop:
  assumes "chan_ok ops contents c" and "ch_unread c \<noteq> []"
  shows "chan_ok ops contents (ch_pop ops c)" and "ch_unread (ch_pop ops c) = tl (ch_unread c)"
  using assms by (auto simp: chan_ok_def ch_pop_def spsc_spec_def ch_unread_def drop_Suc tl_drop)

end
