(* ===== verification/Exchange.thy ===== *)
theory Exchange
  imports Channels Gateway Feed
begin

text \<open>
  The exchange as \<^verbatim>\<open>src/src/main.cpp\<close> puts it together: four threads and the main thread, connected
  by four bounded queues. Each thread has a position in its loop; an event lets one thread
  make one step, so a list of events is an interleaving. The positions are those at which a thread
  can be overtaken or has to wait: the test of its run flag, each read of a queue, each push.
  What a thread does between two of them touches only its own state.

  A step is \<open>None\<close> when the code it runs has no defined behaviour. A thread that waits in
  \<^verbatim>\<open>pushBlocking\<close>, or in \<^verbatim>\<open>join\<close>, does not move: its step returns the same state.

  While the engine processes a request it sends responses and market updates in some order; the
  book operations of the model log them in two lists. \<open>Sending\<close> therefore holds any interleaving of the two,
  chosen by the event, which covers the order of the code.
\<close>

datatype gateway_pc = GHead | Draining | Serving
datatype engine_pc = EHead | EPoll | Sending "(MEClientResponse + MEMarketUpdate) list"
datatype publisher_pc = PHead | PPoll | Pushing "SnapshotUpdate list"
datatype streamer_pc = SHead | Applying | Answering
datatype main_pc = StartStreamer | StartPublisher | StartEngine | StartGateway | Waiting
  | JoinGateway | JoinEngine | JoinPublisher | JoinStreamer | Returned

text \<open>The position of a thread is \<open>None\<close> before it is started and after it has left its loop.\<close>

record ('b, 'r, 's, 'u, 'n) exchange =
  x_gateway :: "(MEClientRequest, 'r) channel OrderServer"
  x_engine :: "'b engine"
  x_publisher :: MarketDataPublisher
  x_streamer :: SnapshotStreamer
  responseQ :: "(MEClientResponse, 's) channel"
  marketUpdateQ :: "(MEMarketUpdate, 'u) channel"
  streamerQ :: "(SnapshotUpdate, 'n) channel"
  gateway_at :: "gateway_pc option"
  engine_at :: "engine_pc option"
  publisher_at :: "publisher_pc option"
  streamer_at :: "streamer_pc option"
  gateway_run :: bool
  engine_run_flag :: bool
  publisher_run_flag :: bool
  streamer_run_flag :: bool
  main_at :: main_pc
  g_running :: bool

text \<open>The code outside the repository, and the book that is built in.\<close>

record ('b, 'r, 's, 'u, 'n) exchange_lib =
  xl_books :: "'b book_ops"
  xl_ouch :: ouch_lib
  xl_itch :: itch_lib
  xl_sort :: "RecvClientRequest list \<Rightarrow> RecvClientRequest list"
  xl_iter :: "shadow \<Rightarrow> shadow"
  xl_requests :: "(MEClientRequest, 'r) spsc_ops"
  xl_responses :: "(MEClientResponse, 's) spsc_ops"
  xl_updates :: "(MEMarketUpdate, 'u) spsc_ops"
  xl_snaps :: "(SnapshotUpdate, 'n) spsc_ops"

text \<open>The queue of requests is the one the gateway's sequencer pushes to.\<close>

definition requestQ :: "('b, 'r, 's, 'u, 'n) exchange \<Rightarrow> (MEClientRequest, 'r) channel" where
  "requestQ x = fifo_requests (os_fifo (x_gateway x))"

definition set_requestQ :: "(MEClientRequest, 'r) channel \<Rightarrow> ('b, 'r, 's, 'u, 'n) exchange \<Rightarrow> ('b, 'r, 's, 'u, 'n) exchange" where
  "set_requestQ c x = x\<lparr>x_gateway := (x_gateway x)\<lparr>os_fifo := (os_fifo (x_gateway x))\<lparr>fifo_requests := c\<rparr>\<rparr>\<rparr>"

section \<open>Construction\<close>

text \<open>The constants of \<^verbatim>\<open>main.cpp\<close>.\<close>

definition NUM_TICKERS :: nat where "NUM_TICKERS = 4"
definition QUEUE_SIZE :: nat where "QUEUE_SIZE = 65536"
definition ENGINE_POOL_SIZE :: nat where "ENGINE_POOL_SIZE = 65536"
definition FIFO_PENDING :: nat where "FIFO_PENDING = 10000"
definition TOKEN_POOL_SIZE :: nat where "TOKEN_POOL_SIZE = 1000000"
definition SNAPSHOT_Q_SIZE :: nat where "SNAPSHOT_Q_SIZE = 65536"

definition exchange_init :: "(TickerId \<Rightarrow> 'b) \<Rightarrow> nat \<Rightarrow> nat \<Rightarrow> nat \<Rightarrow> 'r \<Rightarrow> 's \<Rightarrow> 'u \<Rightarrow> 'n \<Rightarrow> ('b, 'r, 's, 'u, 'n) exchange" where
  "exchange_init mk_book numTickers fifoPending tokenPoolSz rq sq uq nq =
    \<lparr>x_gateway = order_server_init fifoPending tokenPoolSz (ch_init rq),
     x_engine = engine_init mk_book numTickers,
     x_publisher = publisher_init,
     x_streamer = streamer_init numTickers,
     responseQ = ch_init sq, marketUpdateQ = ch_init uq, streamerQ = ch_init nq,
     gateway_at = None, engine_at = None, publisher_at = None, streamer_at = None,
     gateway_run = False, engine_run_flag = False, publisher_run_flag = False, streamer_run_flag = False,
     main_at = StartStreamer, g_running = True\<rparr>"

text \<open>\<^verbatim>\<open>main\<close> with its constants; \<open>mk_queue\<close> and \<open>mk_book\<close> construct a queue and a book of a given size.\<close>

definition main_exchange :: "(nat \<Rightarrow> TickerId \<Rightarrow> 'b) \<Rightarrow> (nat \<Rightarrow> 'r) \<Rightarrow> (nat \<Rightarrow> 's) \<Rightarrow> (nat \<Rightarrow> 'u) \<Rightarrow> (nat \<Rightarrow> 'n) \<Rightarrow>
    ('b, 'r, 's, 'u, 'n) exchange" where
  "main_exchange mk_book mk_rq mk_sq mk_uq mk_nq =
    exchange_init (mk_book ENGINE_POOL_SIZE) NUM_TICKERS FIFO_PENDING TOKEN_POOL_SIZE
      (mk_rq QUEUE_SIZE) (mk_sq QUEUE_SIZE) (mk_uq QUEUE_SIZE) (mk_nq SNAPSHOT_Q_SIZE)"

section \<open>The main thread\<close>

text \<open>
  Start the publisher (its \<^verbatim>\<open>start\<close> starts the streamer first), the engine and the gateway; wait for a
  signal; stop the gateway, the engine and the publisher (its \<^verbatim>\<open>stop\<close> stops the streamer last). Stopping a thread
  clears its run flag and joins it.
\<close>

definition streamer_start :: "('b, 'r, 's, 'u, 'n) exchange \<Rightarrow> ('b, 'r, 's, 'u, 'n) exchange" where
  "streamer_start x = x\<lparr>streamer_run_flag := True, streamer_at := Some SHead\<rparr>"

definition publisher_start :: "('b, 'r, 's, 'u, 'n) exchange \<Rightarrow> ('b, 'r, 's, 'u, 'n) exchange" where
  "publisher_start x = streamer_start (x\<lparr>publisher_run_flag := True\<rparr>)"

definition publisher_launch :: "('b, 'r, 's, 'u, 'n) exchange \<Rightarrow> ('b, 'r, 's, 'u, 'n) exchange" where
  "publisher_launch x = x\<lparr>publisher_at := Some PHead\<rparr>"

definition engine_start :: "('b, 'r, 's, 'u, 'n) exchange \<Rightarrow> ('b, 'r, 's, 'u, 'n) exchange" where
  "engine_start x = x\<lparr>engine_run_flag := True, engine_at := Some EHead\<rparr>"

definition gateway_start :: "('b, 'r, 's, 'u, 'n) exchange \<Rightarrow> ('b, 'r, 's, 'u, 'n) exchange" where
  "gateway_start x = x\<lparr>gateway_run := True, gateway_at := Some GHead\<rparr>"

definition gateway_stop :: "('b, 'r, 's, 'u, 'n) exchange \<Rightarrow> ('b, 'r, 's, 'u, 'n) exchange" where
  "gateway_stop x = x\<lparr>gateway_run := False\<rparr>"

definition engine_stop :: "('b, 'r, 's, 'u, 'n) exchange \<Rightarrow> ('b, 'r, 's, 'u, 'n) exchange" where
  "engine_stop x = x\<lparr>engine_run_flag := False\<rparr>"

definition publisher_stop :: "('b, 'r, 's, 'u, 'n) exchange \<Rightarrow> ('b, 'r, 's, 'u, 'n) exchange" where
  "publisher_stop x = x\<lparr>publisher_run_flag := False\<rparr>"

definition streamer_stop :: "('b, 'r, 's, 'u, 'n) exchange \<Rightarrow> ('b, 'r, 's, 'u, 'n) exchange" where
  "streamer_stop x = x\<lparr>streamer_run_flag := False\<rparr>"

text \<open>A join waits until the thread has ended.\<close>

definition main_step :: "('b, 'r, 's, 'u, 'n) exchange \<Rightarrow> ('b, 'r, 's, 'u, 'n) exchange" where
  "main_step x =
    (case main_at x of
       StartStreamer \<Rightarrow> (publisher_start x)\<lparr>main_at := StartPublisher\<rparr>
     | StartPublisher \<Rightarrow> (publisher_launch x)\<lparr>main_at := StartEngine\<rparr>
     | StartEngine \<Rightarrow> (engine_start x)\<lparr>main_at := StartGateway\<rparr>
     | StartGateway \<Rightarrow> (gateway_start x)\<lparr>main_at := Waiting\<rparr>
     | Waiting \<Rightarrow> if g_running x then x else (gateway_stop x)\<lparr>main_at := JoinGateway\<rparr>
     | JoinGateway \<Rightarrow> if gateway_at x \<noteq> None then x else (engine_stop x)\<lparr>main_at := JoinEngine\<rparr>
     | JoinEngine \<Rightarrow> if engine_at x \<noteq> None then x else (publisher_stop x)\<lparr>main_at := JoinPublisher\<rparr>
     | JoinPublisher \<Rightarrow> if publisher_at x \<noteq> None then x else (streamer_stop x)\<lparr>main_at := JoinStreamer\<rparr>
     | JoinStreamer \<Rightarrow> if streamer_at x \<noteq> None then x else x\<lparr>main_at := Returned\<rparr>
     | Returned \<Rightarrow> x)"

lemmas main_defs = main_step_def streamer_start_def publisher_start_def publisher_launch_def engine_start_def gateway_start_def
  gateway_stop_def engine_stop_def publisher_stop_def streamer_stop_def

definition sigHandler :: "('b, 'r, 's, 'u, 'n) exchange \<Rightarrow> ('b, 'r, 's, 'u, 'n) exchange" where
  "sigHandler x = x\<lparr>g_running := False\<rparr>"

section \<open>The threads\<close>

text \<open>The heads of the four loops: go on, or end the thread.\<close>

definition gateway_head :: "('b, 'r, 's, 'u, 'n) exchange \<Rightarrow> ('b, 'r, 's, 'u, 'n) exchange" where
  [simp]: "gateway_head x = x\<lparr>gateway_at := (if gateway_run x then Some Draining else None)\<rparr>"

definition engine_head :: "('b, 'r, 's, 'u, 'n) exchange \<Rightarrow> ('b, 'r, 's, 'u, 'n) exchange" where
  [simp]: "engine_head x = x\<lparr>engine_at := (if engine_run_flag x then Some EPoll else None)\<rparr>"

definition publisher_head :: "('b, 'r, 's, 'u, 'n) exchange \<Rightarrow> ('b, 'r, 's, 'u, 'n) exchange" where
  [simp]: "publisher_head x = x\<lparr>publisher_at := (if publisher_run_flag x then Some PPoll else None)\<rparr>"

definition streamer_head :: "('b, 'r, 's, 'u, 'n) exchange \<Rightarrow> ('b, 'r, 's, 'u, 'n) exchange" where
  [simp]: "streamer_head x = x\<lparr>streamer_at := (if streamer_run_flag x then Some Applying else None)\<rparr>"

text \<open>
  The gateway: drain the responses one by one, retry the pending requests, then let the TCP server
  call back any number of times.
\<close>

definition gateway_drain :: "('b, 'r, 's, 'u, 'n) exchange_lib \<Rightarrow> uint64 \<Rightarrow> ('b, 'r, 's, 'u, 'n) exchange \<Rightarrow>
    ('b, 'r, 's, 'u, 'n) exchange" where
  "gateway_drain L now x =
    (case ch_next (xl_responses L) (responseQ x) of
       None \<Rightarrow> x\<lparr>x_gateway := (x_gateway x)\<lparr>os_fifo :=
                   publishPendingOrders (xl_sort L) (ch_push (xl_requests L)) (os_fifo (x_gateway x))\<rparr>,
                 gateway_at := Some Serving\<rparr>
     | Some resp \<Rightarrow> x\<lparr>x_gateway := drainResponses (xl_ouch L) [(resp, now)] (x_gateway x),
                      responseQ := ch_pop (xl_responses L) (responseQ x)\<rparr>)"

definition gateway_callback :: "('b, 'r, 's, 'u, 'n) exchange_lib \<Rightarrow> gw_event \<Rightarrow> ('b, 'r, 's, 'u, 'n) exchange \<Rightarrow>
    ('b, 'r, 's, 'u, 'n) exchange option" where
  "gateway_callback L e x =
    map_option (\<lambda>g. x\<lparr>x_gateway := g\<rparr>) (gw_step (xl_ouch L) (xl_sort L) (ch_push (xl_requests L)) e (x_gateway x))"

text \<open>The engine: what processing a request sends, and sending it message by message.\<close>

definition lefts :: "('a + 'c) list \<Rightarrow> 'a list" where
  "lefts xs = List.map_filter (case_sum Some (\<lambda>_. None)) xs"

definition rights :: "('a + 'c) list \<Rightarrow> 'c list" where
  "rights xs = List.map_filter (case_sum (\<lambda>_. None) Some) xs"

definition engine_poll :: "('b, 'r, 's, 'u, 'n) exchange_lib \<Rightarrow> (MEClientResponse + MEMarketUpdate) list \<Rightarrow>
    ('b, 'r, 's, 'u, 'n) exchange \<Rightarrow> ('b, 'r, 's, 'u, 'n) exchange option" where
  "engine_poll L out x =
    (case ch_next (xl_requests L) (requestQ x) of
       None \<Rightarrow> Some (x\<lparr>engine_at := Some EHead\<rparr>)
     | Some request \<Rightarrow> do {
         e \<leftarrow> processClientRequest (xl_books L) request (x_engine x);
         Some (if responses (engine_out e) = responses (engine_out (x_engine x)) @ lefts out \<and>
                  marketUpdates (engine_out e) = marketUpdates (engine_out (x_engine x)) @ rights out
               then x\<lparr>x_engine := e, engine_at := Some (Sending out)\<rparr> else x)
       })"

fun engine_push :: "('b, 'r, 's, 'u, 'n) exchange_lib \<Rightarrow> (MEClientResponse + MEMarketUpdate) list \<Rightarrow>
    ('b, 'r, 's, 'u, 'n) exchange \<Rightarrow> ('b, 'r, 's, 'u, 'n) exchange" where
  "engine_push L [] x = (set_requestQ (ch_pop (xl_requests L) (requestQ x)) x)\<lparr>engine_at := Some EHead\<rparr>"
| "engine_push L (Inl resp # out) x =
    (case ch_push (xl_responses L) (responseQ x) resp of
       None \<Rightarrow> x | Some c \<Rightarrow> x\<lparr>responseQ := c, engine_at := Some (Sending out)\<rparr>)"
| "engine_push L (Inr upd # out) x =
    (case ch_push (xl_updates L) (marketUpdateQ x) upd of
       None \<Rightarrow> x | Some c \<Rightarrow> x\<lparr>marketUpdateQ := c, engine_at := Some (Sending out)\<rparr>)"

text \<open>The publisher: number, encode and send an update, then hand it to the streamer.\<close>

definition publisher_poll :: "('b, 'r, 's, 'u, 'n) exchange_lib \<Rightarrow> uint64 \<Rightarrow> ('b, 'r, 's, 'u, 'n) exchange \<Rightarrow>
    ('b, 'r, 's, 'u, 'n) exchange option" where
  "publisher_poll L now x =
    (case ch_next (xl_updates L) (marketUpdateQ x) of
       None \<Rightarrow> Some (x\<lparr>publisher_at := Some PHead\<rparr>)
     | Some update \<Rightarrow> do {
         p \<leftarrow> publisher_turn (xl_itch L) (Some (update, now)) (x_publisher x);
         Some (x\<lparr>x_publisher := p, publisher_at :=
           Some (Pushing (drop (length (streamer_updates (x_publisher x))) (streamer_updates p)))\<rparr>)
       })"

fun publisher_push :: "('b, 'r, 's, 'u, 'n) exchange_lib \<Rightarrow> SnapshotUpdate list \<Rightarrow>
    ('b, 'r, 's, 'u, 'n) exchange \<Rightarrow> ('b, 'r, 's, 'u, 'n) exchange" where
  "publisher_push L [] x = x\<lparr>marketUpdateQ := ch_pop (xl_updates L) (marketUpdateQ x), publisher_at := Some PHead\<rparr>"
| "publisher_push L (snap # out) x =
    (case ch_push (xl_snaps L) (streamerQ x) snap of
       None \<Rightarrow> x | Some c \<Rightarrow> x\<lparr>streamerQ := c, publisher_at := Some (Pushing out)\<rparr>)"

text \<open>The streamer: apply the updates one by one, then answer any number of clients.\<close>

definition streamer_apply :: "('b, 'r, 's, 'u, 'n) exchange_lib \<Rightarrow> ('b, 'r, 's, 'u, 'n) exchange \<Rightarrow>
    ('b, 'r, 's, 'u, 'n) exchange option" where
  "streamer_apply L x =
    (case ch_next (xl_snaps L) (streamerQ x) of
       None \<Rightarrow> Some (x\<lparr>streamer_at := Some Answering\<rparr>)
     | Some snap \<Rightarrow> do {
         s \<leftarrow> streamer_drain (xl_itch L) [snap] (x_streamer x);
         Some (x\<lparr>x_streamer := s, streamerQ := ch_pop (xl_snaps L) (streamerQ x)\<rparr>)
       })"

definition streamer_answer :: "('b, 'r, 's, 'u, 'n) exchange_lib \<Rightarrow> (nat \<Rightarrow> uint64) \<Rightarrow> char list \<Rightarrow>
    ('b, 'r, 's, 'u, 'n) exchange \<Rightarrow> ('b, 'r, 's, 'u, 'n) exchange option" where
  "streamer_answer L clk req x =
    map_option (\<lambda>(reply, s). x\<lparr>x_streamer := s\<rparr>) (handleClient (xl_itch L) (xl_iter L) clk req (x_streamer x))"

section \<open>Interleaving\<close>

datatype x_event =
  MainStep | Signal
| GatewayHead | GatewayDrain uint64 | GatewayCallback gw_event | GatewayEndTurn
| EngineHead | EnginePoll "(MEClientResponse + MEMarketUpdate) list" | EnginePush
| PublisherHead | PublisherPoll uint64 | PublisherPush
| StreamerHead | StreamerApply | StreamerAnswer "nat \<Rightarrow> uint64" "char list" | StreamerEndTurn

text \<open>
  A step of the thread the event names, from the position the event belongs to; at any other position
  the event is not possible and nothing happens.
\<close>

fun x_step :: "('b, 'r, 's, 'u, 'n) exchange_lib \<Rightarrow> x_event \<Rightarrow> ('b, 'r, 's, 'u, 'n) exchange \<Rightarrow>
    ('b, 'r, 's, 'u, 'n) exchange option" where
  "x_step L MainStep x = Some (main_step x)"
| "x_step L Signal x = Some (sigHandler x)"
| "x_step L GatewayHead x =
    Some (if gateway_at x = Some GHead then gateway_head x else x)"
| "x_step L (GatewayDrain now) x = Some (if gateway_at x = Some Draining then gateway_drain L now x else x)"
| "x_step L (GatewayCallback e) x =
    (if gateway_at x = Some Serving \<and> server_callback e then gateway_callback L e x else Some x)"
| "x_step L GatewayEndTurn x = Some (if gateway_at x = Some Serving then x\<lparr>gateway_at := Some GHead\<rparr> else x)"
| "x_step L EngineHead x =
    Some (if engine_at x = Some EHead then engine_head x else x)"
| "x_step L (EnginePoll out) x = (if engine_at x = Some EPoll then engine_poll L out x else Some x)"
| "x_step L EnginePush x = Some (case engine_at x of Some (Sending out) \<Rightarrow> engine_push L out x | _ \<Rightarrow> x)"
| "x_step L PublisherHead x =
    Some (if publisher_at x = Some PHead then publisher_head x else x)"
| "x_step L (PublisherPoll now) x = (if publisher_at x = Some PPoll then publisher_poll L now x else Some x)"
| "x_step L PublisherPush x = Some (case publisher_at x of Some (Pushing out) \<Rightarrow> publisher_push L out x | _ \<Rightarrow> x)"
| "x_step L StreamerHead x =
    Some (if streamer_at x = Some SHead then streamer_head x else x)"
| "x_step L StreamerApply x = (if streamer_at x = Some Applying then streamer_apply L x else Some x)"
| "x_step L (StreamerAnswer clk req) x =
    (if streamer_at x = Some Answering then streamer_answer L clk req x else Some x)"
| "x_step L StreamerEndTurn x = Some (if streamer_at x = Some Answering then x\<lparr>streamer_at := Some SHead\<rparr> else x)"

text \<open>The reachable states, with the number of callbacks of the TCP server on the way.\<close>

definition client_event :: "x_event \<Rightarrow> bool" where
  "client_event e \<longleftrightarrow> (case e of GatewayCallback _ \<Rightarrow> True | _ \<Rightarrow> False)"

inductive x_reach :: "('b, 'r, 's, 'u, 'n) exchange_lib \<Rightarrow> ('b, 'r, 's, 'u, 'n) exchange \<Rightarrow> nat \<Rightarrow>
    ('b, 'r, 's, 'u, 'n) exchange \<Rightarrow> bool" for L x0 where
  built: "x_reach L x0 0 x0"
| internal: "x_reach L x0 k x \<Longrightarrow> \<not> client_event e \<Longrightarrow> x_step L e x = Some x' \<Longrightarrow> x_reach L x0 k x'"
| client: "x_reach L x0 k x \<Longrightarrow> x_step L (GatewayCallback e) x = Some x' \<Longrightarrow> x_reach L x0 (Suc k) x'"

end
