(* ===== verification/Lifecycle.thy ===== *)
theory Lifecycle
  imports Exchange
begin

text \<open>
  Starting and stopping: which threads exist and which run flags are set at each position of the main thread.
\<close>

definition started :: "main_pc \<Rightarrow> bool \<times> bool \<times> bool \<times> bool" where
  "started m = (m = Waiting, m \<in> {StartGateway, Waiting, JoinGateway},
     m \<in> {StartPublisher, StartEngine, StartGateway, Waiting, JoinGateway, JoinEngine},
     m \<in> {StartPublisher, StartEngine, StartGateway, Waiting, JoinGateway, JoinEngine, JoinPublisher})"

definition flags_ok :: "('b, 'r, 's, 'u, 'n) exchange \<Rightarrow> bool" where
  "flags_ok x \<longleftrightarrow> (gateway_run x, engine_run_flag x, publisher_run_flag x, streamer_run_flag x) = started (main_at x)"

text \<open>
  A thread whose flag is set has been started, apart from the publisher's while \<^verbatim>\<open>start\<close> is on its way, and
  exists; one that is joined may still exist; any other does not.
\<close>

definition life_ok :: "('b, 'r, 's, 'u, 'n) exchange \<Rightarrow> bool" where
  "life_ok x \<longleftrightarrow> flags_ok x \<and>
     (gateway_at x \<noteq> None \<longrightarrow> main_at x \<in> {Waiting, JoinGateway}) \<and> (main_at x = Waiting \<longrightarrow> gateway_at x \<noteq> None) \<and>
     (engine_at x \<noteq> None \<longrightarrow> engine_run_flag x \<or> main_at x = JoinEngine) \<and> (engine_run_flag x \<longrightarrow> engine_at x \<noteq> None) \<and>
     (publisher_at x \<noteq> None \<longrightarrow> publisher_run_flag x \<and> main_at x \<noteq> StartPublisher \<or> main_at x = JoinPublisher) \<and>
     (publisher_run_flag x \<and> main_at x \<noteq> StartPublisher \<longrightarrow> publisher_at x \<noteq> None) \<and>
     (streamer_at x \<noteq> None \<longrightarrow> streamer_run_flag x \<or> main_at x = JoinStreamer) \<and> (streamer_run_flag x \<longrightarrow> streamer_at x \<noteq> None)"

lemma life_init: "life_ok (exchange_init mk n f t rq sq uq nq)"
  by (simp add: life_ok_def flags_ok_def started_def exchange_init_def)

lemma main_life: "life_ok x \<Longrightarrow> life_ok (main_step x)"
  by (cases "main_at x") (auto simp: life_ok_def flags_ok_def started_def main_defs)

text \<open>\<open>same_phase\<close>: a step that starts and ends no thread.\<close>

definition same_phase :: "('b, 'r, 's, 'u, 'n) exchange \<Rightarrow> ('b, 'r, 's, 'u, 'n) exchange \<Rightarrow> bool" where
  "same_phase x x' \<longleftrightarrow> main_at x' = main_at x \<and> gateway_run x' = gateway_run x \<and> engine_run_flag x' = engine_run_flag x \<and>
     publisher_run_flag x' = publisher_run_flag x \<and> streamer_run_flag x' = streamer_run_flag x \<and>
     (gateway_at x' = None \<longleftrightarrow> gateway_at x = None) \<and> (engine_at x' = None \<longleftrightarrow> engine_at x = None) \<and>
     (publisher_at x' = None \<longleftrightarrow> publisher_at x = None) \<and> (streamer_at x' = None \<longleftrightarrow> streamer_at x = None)"

lemma same_phase_refl [simp]: "same_phase x x"
  by (simp add: same_phase_def)

lemma same_phase_trans: "same_phase x y \<Longrightarrow> same_phase y z \<Longrightarrow> same_phase x z"
  by (simp add: same_phase_def)

lemma same_phase_life: "same_phase x x' \<Longrightarrow> life_ok x \<Longrightarrow> life_ok x'"
  unfolding same_phase_def life_ok_def flags_ok_def by simp

lemma phase_gateway:
  "gateway_at x = Some Draining \<Longrightarrow> same_phase x (gateway_drain L now x)"
  "gateway_callback L e x = Some x' \<Longrightarrow> same_phase x x'"
  by (auto simp: same_phase_def gateway_drain_def gateway_callback_def split: option.split)

lemma phase_engine:
  "engine_at x = Some EPoll \<Longrightarrow> engine_poll L out x = Some x' \<Longrightarrow> same_phase x x'"
  by (auto simp: same_phase_def engine_poll_def split: option.splits Option.bind_splits if_splits)

lemma phase_engine_push: "engine_at x = Some (Sending out) \<Longrightarrow> same_phase x (engine_push L out x)"
  by (cases "(L, out, x)" rule: engine_push.cases) (auto simp: same_phase_def set_requestQ_def split: option.split)

lemma phase_publisher:
  "publisher_at x = Some PPoll \<Longrightarrow> publisher_poll L now x = Some x' \<Longrightarrow> same_phase x x'"
  by (auto simp: same_phase_def publisher_poll_def split: option.splits Option.bind_splits)

lemma phase_publisher_push: "publisher_at x = Some (Pushing snaps) \<Longrightarrow> same_phase x (publisher_push L snaps x)"
  by (cases snaps) (auto simp: same_phase_def split: option.split)

lemma phase_streamer:
  "streamer_at x = Some Applying \<Longrightarrow> streamer_apply L x = Some x' \<Longrightarrow> same_phase x x'"
  "streamer_answer L clk req x = Some x' \<Longrightarrow> same_phase x x'"
  by (auto simp: same_phase_def streamer_apply_def streamer_answer_def split: option.splits Option.bind_splits)

lemmas phase_steps = phase_gateway phase_engine phase_engine_push phase_publisher phase_publisher_push phase_streamer

text \<open>Only the main thread and the head of a loop start or end a thread.\<close>

definition phase_event :: "x_event \<Rightarrow> bool" where
  "phase_event e \<longleftrightarrow> e \<in> {MainStep, GatewayHead, EngineHead, PublisherHead, StreamerHead}"

lemma phase_event_simps [simp]:
  "phase_event MainStep" "phase_event GatewayHead" "phase_event EngineHead" "phase_event PublisherHead" "phase_event StreamerHead"
  by (simp_all add: phase_event_def)

lemma other_events_phase:
  assumes "\<not> phase_event e" and "x_step L e x = Some x'"
  shows "same_phase x x'"
proof (cases e)
  case Signal
  with assms show ?thesis by (auto simp: sigHandler_def same_phase_def)
next
  case GatewayEndTurn
  with assms show ?thesis by (auto simp: same_phase_def split: if_splits)
next
  case StreamerEndTurn
  with assms show ?thesis by (auto simp: same_phase_def split: if_splits)
next
  case EnginePush
  with assms show ?thesis by (auto intro: phase_steps split: option.splits engine_pc.splits)
next
  case PublisherPush
  with assms show ?thesis by (auto intro: phase_steps split: option.splits publisher_pc.splits)
qed (use assms in \<open>auto intro: phase_steps split: if_splits\<close>)

lemma head_life:
  assumes "life_ok x"
  shows "gateway_at x = Some GHead \<Longrightarrow> life_ok (x\<lparr>gateway_at := (if gateway_run x then Some Draining else None)\<rparr>)"
    and "engine_at x = Some EHead \<Longrightarrow> life_ok (x\<lparr>engine_at := (if engine_run_flag x then Some EPoll else None)\<rparr>)"
    and "publisher_at x = Some PHead \<Longrightarrow> life_ok (x\<lparr>publisher_at := (if publisher_run_flag x then Some PPoll else None)\<rparr>)"
    and "streamer_at x = Some SHead \<Longrightarrow> life_ok (x\<lparr>streamer_at := (if streamer_run_flag x then Some Applying else None)\<rparr>)"
  using assms by (cases "main_at x"; simp add: life_ok_def flags_ok_def started_def)+

lemma life_step:
  assumes "life_ok x" and "x_step L e x = Some x'"
  shows "life_ok x'"
proof (cases "phase_event e")
  case True
  then consider "e = MainStep" | "e = GatewayHead" | "e = EngineHead" | "e = PublisherHead" | "e = StreamerHead"
    by (auto simp: phase_event_def)
  then show ?thesis
    using assms main_life [OF assms(1)] head_life [OF assms(1)] by cases (auto split: if_splits)
next
  case False
  with assms show ?thesis using other_events_phase same_phase_life by blast
qed

lemma life_reach: "x_reach L x0 k x \<Longrightarrow> life_ok x0 \<Longrightarrow> life_ok x"
  by (induction rule: x_reach.induct) (auto simp del: x_step.simps intro: life_step)

end
