(* ===== verification/ExchangeInv.thy ===== *)
theory ExchangeInv
  imports Lifecycle
begin

text \<open>
  The invariant of the exchange under every interleaving: each thread's state is what its own theory says it is
  for the messages it has taken from its queue, and every message a thread has produced is in the next queue's
  history or still in the thread's hands. Proved for any book that keeps the contract of OrderBook.
\<close>

section \<open>What the threads guarantee each other\<close>

subsection \<open>The gateway only pushes\<close>

definition push_closed :: "('q \<Rightarrow> bool) \<Rightarrow> ('q \<Rightarrow> MEClientRequest \<Rightarrow> 'q option) \<Rightarrow> bool" where
  "push_closed P push \<longleftrightarrow> (\<forall>q r q'. P q \<and> push q r = Some q' \<longrightarrow> P q')"

lemma push_loop_closed:
  assumes "push_closed P push" and "P q" and "push_loop push xs q = (n, q')"
  shows "P q'"
  using assms
proof (induction push xs q arbitrary: n q' rule: push_loop.induct)
  case (2 push x xs q)
  show ?case
  proof (cases "push q (snd x)")
    case (Some q1)
    have "P q1" using 2(2,3) Some unfolding push_closed_def by blast
    moreover obtain n2 where "push_loop push xs q1 = (n2, q')" using 2(4) Some by (auto split: prod.splits)
    ultimately show ?thesis using 2(1) [OF Some 2(2)] by blast
  qed (use 2 in simp)
qed simp

lemma publish_closed:
  assumes "push_closed P push" and "P (fifo_requests f)"
  shows "P (fifo_requests (publishPendingOrders srt push f))"
  using assms(2) push_loop_closed [OF assms]
  by (simp add: publishPendingOrders_def Let_def split: prod.split)

lemma retain_closed:
  assumes "push_closed P push" and "P (fifo_requests f)" and "retainRequest srt push t r f = (ok, f')"
  shows "P (fifo_requests f')"
  using publish_closed [OF assms(1,2), of srt] assms(2,3)
  by (auto simp: retainRequest_def addToPending_def growPending_def split: if_splits)

lemma recv_loop_closed:
  assumes "push_closed P push" and "P (fifo_requests f)" and "recv_loop lib srt push cid t d (m, f) = Some (rest, m', f')"
  shows "P (fifo_requests f')"
  using assms(2,3)
proof (induction d arbitrary: m f rule: framing_induct [where lib = lib])
  case (message c ds)
  obtain m1 f1 where "recv_loop lib srt push cid t (drop (ouchMsgSize lib c) (c # ds)) (m1, f1) = Some (rest, m', f')" "P (fifo_requests f1)"
    using message.prems retain_closed [OF assms(1)] unfolding recv_loop_message [OF message.hyps]
    by (auto simp: Let_def split: Option.bind_splits if_splits prod.splits)
  then show ?case using message.IH by blast
qed (auto simp: recv_loop_steps)

lemma gw_step_closed:
  assumes "push_closed P push" and "P (fifo_requests (os_fifo s))" and "gw_step lib srt push e s = Some s'"
  shows "P (fifo_requests (os_fifo s'))"
proof (cases e)
  case (ServerRecv sk t bytes)
  define s0 where "s0 = s\<lparr>inbound_data := (inbound_data s)(fst sk := inbound_data s (fst sk) @ bytes)\<rparr>"
  define s1 where "s1 = (if map_of (fdToClientId s0) (snd sk) = None then registerClient sk s0 else s0)"
  have "P (fifo_requests (os_fifo s1))" using assms(2) by (simp add: s0_def s1_def registerClient_def Let_def)
  moreover obtain cid rest m' f' where "recv_loop lib srt push cid t (inbound_data s1 (fst sk)) (tokenManager s1, os_fifo s1) = Some (rest, m', f')"
    "os_fifo s' = f'"
  proof -
    have "onRecv lib srt push sk t s0 = Some s'" using assms(3) by (simp add: ServerRecv gw_step_def s0_def)
    then show ?thesis unfolding onRecv_def Let_def s1_def [symmetric] using that by (auto split: Option.bind_splits)
  qed
  ultimately show ?thesis using recv_loop_closed [OF assms(1)] by blast
qed (use assms(2,3) publish_closed [OF assms(1,2)] in
    \<open>auto simp: gw_step_def drain_state onRecvFinished_def onDisconnect_def split: option.splits\<close>)

subsection \<open>The engine, request by request\<close>

lemma a_run_append: "a_run v (xs @ ys) S = a_run v ys (a_run v xs S)"
  by (induction v xs S rule: a_run.induct) simp_all

lemma polls_ok_append: "polls_ok v caps fits (xs @ ys) S \<longleftrightarrow> polls_ok v caps fits xs S \<and> polls_ok v caps fits ys (a_run v xs S)"
  by (induction v caps fits xs S rule: polls_ok.induct) simp_all

lemma process_in_range:
  assumes "request_ok caps fits r (fst S)" and "list_all (in_range (length (fst S))) (marketUpdates (snd S))"
  shows "list_all (in_range (length (fst S))) (marketUpdates (snd (a_process v r S)))"
  using assms about_request [of r "snd S" v "fst S ! unat (rq_ticker_id r)"]
  by (auto simp: a_process_io request_extends list_all_iff about_def in_range_def request_ok_def Let_def)

lemma request_responses: "\<exists>rs. responses (snd (a_request v r A io)) = responses io @ rs"
  by (cases "rq_action r")
    (simp_all add: a_request_def a_addOrder_def a_finish_def a_cancelOrder_def a_replaceOrder_def a_take_log Let_def
      split: option.split OrderType.split variant.split)

section \<open>The invariant\<close>

lemma lefts_simps [simp]: "lefts [] = []" "lefts (Inl a # xs) = a # lefts xs" "lefts (Inr c # xs) = lefts xs"
  by (simp_all add: lefts_def List.map_filter_simps)

lemma rights_simps [simp]: "rights [] = []" "rights (Inl a # xs) = rights xs" "rights (Inr c # xs) = c # rights xs"
  by (simp_all add: rights_def List.map_filter_simps)

text \<open>How the contents of the queues are read off their states.\<close>

record ('r, 's, 'u, 'n) exchange_view =
  xv_requests :: "'r \<Rightarrow> MEClientRequest list"
  xv_responses :: "'s \<Rightarrow> MEClientResponse list"
  xv_updates :: "'u \<Rightarrow> MEMarketUpdate list"
  xv_snaps :: "'n \<Rightarrow> SnapshotUpdate list"

definition lib_ok :: "('b, 'r, 's, 'u, 'n) exchange_lib \<Rightarrow> ('r, 's, 'u, 'n) exchange_view \<Rightarrow> bool" where
  "lib_ok L V \<longleftrightarrow> sort_spec (xl_sort L) \<and> itch_spec (xl_itch L) \<and> spsc_spec (xl_requests L) (xv_requests V) \<and>
     spsc_spec (xl_responses L) (xv_responses V) \<and> spsc_spec (xl_updates L) (xv_updates V) \<and> spsc_spec (xl_snaps L) (xv_snaps V)"

text \<open>What the engine and the publisher have in their hands.\<close>

definition outbox :: "('b, 'r, 's, 'u, 'n) exchange \<Rightarrow> (MEClientResponse + MEMarketUpdate) list" where
  "outbox x = (case engine_at x of Some (Sending out) \<Rightarrow> out | _ \<Rightarrow> [])"

definition taken :: "('b, 'r, 's, 'u, 'n) exchange \<Rightarrow> nat" where
  "taken x = ch_read (requestQ x) + (case engine_at x of Some (Sending _) \<Rightarrow> 1 | _ \<Rightarrow> 0)"

definition snap_outbox :: "('b, 'r, 's, 'u, 'n) exchange \<Rightarrow> SnapshotUpdate list" where
  "snap_outbox x = (case publisher_at x of Some (Pushing out) \<Rightarrow> out | _ \<Rightarrow> [])"

definition numbered_updates :: "('b, 'r, 's, 'u, 'n) exchange \<Rightarrow> nat" where
  "numbered_updates x = ch_read (marketUpdateQ x) + (case publisher_at x of Some (Pushing _) \<Rightarrow> 1 | _ \<Rightarrow> 0)"

text \<open>The abstract engine after the requests taken so far.\<close>

definition x_spec :: "variant \<Rightarrow> nat \<Rightarrow> ('b, 'r, 's, 'u, 'n) exchange \<Rightarrow> abook list \<times> engine_io" where
  "x_spec v N x = a_run v (map Some (take (taken x) (ch_log (requestQ x)))) (replicate N a_empty, engine_io0)"

definition engine_inv :: "variant \<Rightarrow> ('b \<Rightarrow> abook \<Rightarrow> bool) \<Rightarrow> ('b \<Rightarrow> nat) \<Rightarrow> nat \<Rightarrow> nat \<Rightarrow> ('b, 'r, 's, 'u, 'n) exchange \<Rightarrow> bool" where
  "engine_inv v represents cap N c x \<longleftrightarrow> taken x \<le> length (ch_log (requestQ x)) \<and>
     engine_rep represents cap (replicate N c) (x_engine x) (x_spec v N x) \<and>
     list_all (in_range N) (ch_log (marketUpdateQ x)) \<and> list_all (in_range N) (rights (outbox x)) \<and>
     responses (engine_out (x_engine x)) = ch_log (responseQ x) @ lefts (outbox x) \<and>
     marketUpdates (engine_out (x_engine x)) = ch_log (marketUpdateQ x) @ rights (outbox x)"

definition publisher_inv :: "itch_lib \<Rightarrow> ('b, 'r, 's, 'u, 'n) exchange \<Rightarrow> bool" where
  "publisher_inv lib x \<longleftrightarrow> numbered_updates x \<le> length (ch_log (marketUpdateQ x)) \<and>
     (\<exists>us. map fst us = take (numbered_updates x) (ch_log (marketUpdateQ x)) \<and> published lib us (x_publisher x) \<and>
        streamer_updates (x_publisher x) = ch_log (streamerQ x) @ snap_outbox x)"

definition streamer_inv :: "itch_lib \<Rightarrow> (shadow \<Rightarrow> shadow) \<Rightarrow> nat \<Rightarrow> ('b, 'r, 's, 'u, 'n) exchange \<Rightarrow> bool" where
  "streamer_inv lib iter N x \<longleftrightarrow>
     shadow_book (x_streamer x) = fold apply_update (map su_update (take (ch_read (streamerQ x)) (ch_log (streamerQ x)))) (replicate N []) \<and>
     (length (ch_log (streamerQ x)) < 2 ^ 64 - 1 \<longrightarrow>
        streamer_ok lib iter (take (ch_read (streamerQ x)) (ch_log (streamerQ x))) (x_streamer x))"

definition queues_inv :: "('b, 'r, 's, 'u, 'n) exchange_lib \<Rightarrow> ('r, 's, 'u, 'n) exchange_view \<Rightarrow> ('b, 'r, 's, 'u, 'n) exchange \<Rightarrow> bool" where
  "queues_inv L V x \<longleftrightarrow> chan_ok (xl_requests L) (xv_requests V) (requestQ x) \<and> chan_ok (xl_responses L) (xv_responses V) (responseQ x) \<and>
     chan_ok (xl_updates L) (xv_updates V) (marketUpdateQ x) \<and> chan_ok (xl_snaps L) (xv_snaps V) (streamerQ x)"

definition x_inv :: "variant \<Rightarrow> ('b \<Rightarrow> abook \<Rightarrow> bool) \<Rightarrow> ('b \<Rightarrow> nat) \<Rightarrow> ('b, 'r, 's, 'u, 'n) exchange_lib \<Rightarrow>
    ('r, 's, 'u, 'n) exchange_view \<Rightarrow> nat \<Rightarrow> nat \<Rightarrow> nat \<Rightarrow> nat \<Rightarrow> ('b, 'r, 's, 'u, 'n) exchange \<Rightarrow> bool" where
  "x_inv v represents cap L V N c sz n x \<longleftrightarrow> lib_ok L V \<and> queues_inv L V x \<and>
     gw_inv (xl_sort L) (ch_push (xl_requests L)) ch_log sz n (x_gateway x) \<and>
     engine_inv v represents cap N c x \<and> publisher_inv (xl_itch L) x \<and> streamer_inv (xl_itch L) (xl_iter L) N x"

text \<open>
  What the requests in the queue's history must satisfy: their tickers have books, their prices fit, and they do
  not introduce more orders than a book can hold.
\<close>

definition admissible :: "nat \<Rightarrow> nat \<Rightarrow> (Price \<Rightarrow> bool) \<Rightarrow> MEClientRequest list \<Rightarrow> bool" where
  "admissible N c fits rs \<longleftrightarrow> length (introduced_ids rs) \<le> c \<and>
     list_all (\<lambda>r. unat (rq_ticker_id r) < N \<and> (rq_action r \<noteq> CANCEL \<longrightarrow> fits (rq_price r))) rs"

lemma admissible_prefix: "admissible N c fits (rs @ rs') \<Longrightarrow> admissible N c fits rs"
  by (simp add: admissible_def)

lemma queue_spec_channel: "queue_spec (ch_push ops) ch_log"
  by (auto simp: queue_spec_def ch_push_def)

lemma feed_take: "take m (feed lib us) = feed lib (take m us)"
  by (rule nth_equalityI) (simp_all add: nth_feed numbered_snap_def)

subsection \<open>Steps that only move a thread\<close>

lemma x_inv_cong:
  assumes "x_gateway x' = x_gateway x" and "x_engine x' = x_engine x" and "x_publisher x' = x_publisher x" and "x_streamer x' = x_streamer x"
    and "responseQ x' = responseQ x" and "marketUpdateQ x' = marketUpdateQ x" and "streamerQ x' = streamerQ x"
    and "outbox x' = outbox x" and "taken x' = taken x" and "snap_outbox x' = snap_outbox x" and "numbered_updates x' = numbered_updates x"
  shows "x_inv v represents cap L V N c sz n x' = x_inv v represents cap L V N c sz n x"
proof -
  have "requestQ x' = requestQ x" using assms(1) by (simp add: requestQ_def)
  with assms show ?thesis
    by (simp add: x_inv_def queues_inv_def engine_inv_def publisher_inv_def streamer_inv_def x_spec_def)
qed

lemma hands_simps [simp]:
  "requestQ (x\<lparr>x_engine := a1\<rparr>) = requestQ x" "requestQ (x\<lparr>x_publisher := a2\<rparr>) = requestQ x" "requestQ (x\<lparr>x_streamer := a3\<rparr>) = requestQ x"
  "requestQ (x\<lparr>responseQ := b1\<rparr>) = requestQ x" "requestQ (x\<lparr>marketUpdateQ := b2\<rparr>) = requestQ x" "requestQ (x\<lparr>streamerQ := b3\<rparr>) = requestQ x"
  "requestQ (x\<lparr>gateway_at := c1\<rparr>) = requestQ x" "requestQ (x\<lparr>engine_at := c2\<rparr>) = requestQ x"
  "requestQ (x\<lparr>publisher_at := c3\<rparr>) = requestQ x" "requestQ (x\<lparr>streamer_at := c4\<rparr>) = requestQ x"
  "requestQ (x\<lparr>gateway_run := d1\<rparr>) = requestQ x" "requestQ (x\<lparr>engine_run_flag := d2\<rparr>) = requestQ x"
  "requestQ (x\<lparr>publisher_run_flag := d3\<rparr>) = requestQ x" "requestQ (x\<lparr>streamer_run_flag := d4\<rparr>) = requestQ x"
  "requestQ (x\<lparr>main_at := e1\<rparr>) = requestQ x" "requestQ (x\<lparr>g_running := e2\<rparr>) = requestQ x"
  by (simp_all add: requestQ_def)

lemmas hands_defs = outbox_def taken_def snap_outbox_def numbered_updates_def
lemmas parts = x_inv_def queues_inv_def engine_inv_def publisher_inv_def streamer_inv_def x_spec_def

lemma main_inv:
  assumes "x_inv v represents cap L V N c sz n x" and "life_ok x"
  shows "x_inv v represents cap L V N c sz n (main_step x)"
proof -
  have "x_inv v represents cap L V N c sz n (main_step x) = x_inv v represents cap L V N c sz n x"
    by (rule x_inv_cong; use assms(2) in \<open>cases "main_at x"; simp add: main_defs hands_defs life_ok_def flags_ok_def started_def\<close>)
  with assms(1) show ?thesis by simp
qed

subsection \<open>The gateway\<close>

definition extends :: "('a, 'q) channel \<Rightarrow> ('a, 'q) channel \<Rightarrow> bool" where
  "extends c c' \<longleftrightarrow> ch_read c' = ch_read c \<and> prefix (ch_log c) (ch_log c')"

lemma push_closed_channel: "push_closed (\<lambda>c'. extends c c' \<and> chan_ok ops contents c') (ch_push ops)"
  unfolding push_closed_def extends_def using ch_push_Some chan_push by (metis prefix_snoc)

lemma x_inv_gateway:
  assumes inv: "x_inv v represents cap L V N c sz n x" and g: "gw_inv (xl_sort L) (ch_push (xl_requests L)) ch_log sz m g"
    and q: "extends (requestQ x) (fifo_requests (os_fifo g))" "chan_ok (xl_requests L) (xv_requests V) (fifo_requests (os_fifo g))"
  shows "x_inv v represents cap L V N c sz m (x\<lparr>x_gateway := g\<rparr>)"
proof -
  let ?x = "x\<lparr>x_gateway := g\<rparr>"
  have Q: "requestQ ?x = fifo_requests (os_fifo g)" by (simp add: requestQ_def)
  have t: "taken ?x = taken x" "outbox ?x = outbox x" "snap_outbox ?x = snap_outbox x" "numbered_updates ?x = numbered_updates x"
    using q(1) by (simp_all add: hands_defs Q extends_def)
  have le: "taken x \<le> length (ch_log (requestQ x))" using inv by (simp add: x_inv_def engine_inv_def)
  obtain ext where ext: "ch_log (requestQ ?x) = ch_log (requestQ x) @ ext" using q(1) by (auto simp: Q extends_def prefix_def)
  have "x_spec v N ?x = x_spec v N x" using le by (simp add: x_spec_def t ext)
  then show ?thesis
    using inv g q(2) le
    by (simp add: x_inv_def queues_inv_def engine_inv_def publisher_inv_def streamer_inv_def t ext flip: Q)
qed

lemma inv_queue: "x_inv v represents cap L V N c sz n x \<Longrightarrow>
    extends (requestQ x) (requestQ x) \<and> chan_ok (xl_requests L) (xv_requests V) (requestQ x)"
  by (simp add: x_inv_def queues_inv_def extends_def)

lemma gateway_drain_inv:
  assumes inv: "x_inv v represents cap L V N c sz n x"
  shows "x_inv v represents cap L V N c sz n (gateway_drain L now x)"
proof (cases "ch_next (xl_responses L) (responseQ x)")
  case None
  let ?g = "(x_gateway x)\<lparr>os_fifo := publishPendingOrders (xl_sort L) (ch_push (xl_requests L)) (os_fifo (x_gateway x))\<rparr>"
  have g: "gw_inv (xl_sort L) (ch_push (xl_requests L)) ch_log sz n ?g"
    by (rule gw_publish_inv) (use inv in \<open>simp add: x_inv_def\<close>)
  have "extends (requestQ x) (fifo_requests (os_fifo ?g)) \<and> chan_ok (xl_requests L) (xv_requests V) (fifo_requests (os_fifo ?g))"
    using publish_closed [OF push_closed_channel [of "requestQ x" "xl_requests L" "xv_requests V"], of "os_fifo (x_gateway x)"]
      inv_queue [OF inv] by (simp add: requestQ_def)
  then have "x_inv v represents cap L V N c sz n (x\<lparr>x_gateway := ?g\<rparr>)" using x_inv_gateway [OF inv g] by blast
  then show ?thesis
    by (subst x_inv_cong [of _ "x\<lparr>x_gateway := ?g\<rparr>"]) (simp_all add: gateway_drain_def None hands_defs requestQ_def)
next
  case (Some resp)
  let ?g = "drainResponses (xl_ouch L) [(resp, now)] (x_gateway x)"
  have conns: "conns_ok ?g = conns_ok (x_gateway x)" by (rule conns_ok_cong) (rule drain_state)+
  have g: "gw_inv (xl_sort L) (ch_push (xl_requests L)) ch_log sz n ?g"
    using inv by (simp add: x_inv_def gw_inv_def conns drain_state del: drainResponses.simps)
  have q: "fifo_requests (os_fifo ?g) = requestQ x" by (simp add: drain_state requestQ_def del: drainResponses.simps)
  have "x_inv v represents cap L V N c sz n (x\<lparr>x_gateway := ?g\<rparr>)"
    by (rule x_inv_gateway [OF inv g]) (use inv_queue [OF inv] in \<open>simp_all add: q del: drainResponses.simps\<close>)
  moreover have "chan_ok (xl_responses L) (xv_responses V) (ch_pop (xl_responses L) (responseQ x))"
    using inv chan_pop(1) chan_next_Some(3) [OF _ Some] by (auto simp: x_inv_def queues_inv_def)
  ultimately show ?thesis
    by (simp add: gateway_drain_def Some x_inv_def queues_inv_def engine_inv_def publisher_inv_def streamer_inv_def x_spec_def
        hands_defs requestQ_def del: drainResponses.simps)
qed

lemma gateway_callback_inv:
  assumes inv: "x_inv v represents cap L V N c sz (Suc n) x"
  shows "\<exists>x'. gateway_callback L e x = Some x' \<and> x_inv v represents cap L V N c sz n x'"
proof -
  have "gw_inv (xl_sort L) (ch_push (xl_requests L)) ch_log sz (Suc n) (x_gateway x)" using inv by (simp add: x_inv_def)
  then obtain g where g: "gw_step (xl_ouch L) (xl_sort L) (ch_push (xl_requests L)) e (x_gateway x) = Some g"
    "gw_inv (xl_sort L) (ch_push (xl_requests L)) ch_log sz n g"
    using gw_step_inv by blast
  have "extends (requestQ x) (fifo_requests (os_fifo g)) \<and> chan_ok (xl_requests L) (xv_requests V) (fifo_requests (os_fifo g))"
    by (rule gw_step_closed [OF push_closed_channel _ g(1)]) (use inv_queue [OF inv] in \<open>simp add: requestQ_def\<close>)
  with x_inv_gateway [OF inv g(2)] g(1) show ?thesis by (auto simp: gateway_callback_def)
qed

subsection \<open>The engine\<close>

text \<open>The history of the request queue is a stream the engine can process.\<close>

lemma inv_stream:
  assumes "x_inv v represents cap L V N c sz n x" and "admissible N c fits (ch_log (requestQ x))"
  shows "polls_ok v' (replicate N c) fits (map Some (take k (ch_log (requestQ x)))) (replicate N a_empty, engine_io0)"
proof -
  let ?log = "ch_log (requestQ x)"
  have "ids_ok sz (tokenManager (x_gateway x)) ?log"
    using assms(1) ids_ok_prefix by (auto simp: x_inv_def gw_inv_def accepted_def requestQ_def)
  then have "stream_ok N c fits ?log" using assms(2) by (simp add: stream_ok_def admissible_def ids_ok_def)
  then have "polls_ok v' (replicate N c) fits (map Some (take k ?log @ drop k ?log)) (replicate N a_empty, engine_io0)"
    by (intro stream_polls_ok_init) (simp add: polled_map_Some [of id, simplified])
  then show ?thesis by (simp only: map_append polls_ok_append)
qed

context order_book
begin

text \<open>Processing the next request is defined and does what the contract says.\<close>

lemma request_taken:
  assumes inv: "x_inv v represents cap L V N c sz n x" and adm: "admissible N c fits (ch_log (requestQ x))"
    and idle: "taken x = ch_read (requestQ x)" and nxt: "ch_next (xl_requests L) (requestQ x) = Some r"
  obtains e where "processClientRequest ops r (x_engine x) = Some e"
    and "engine_rep represents cap (replicate N c) e (a_process v r (x_spec v N x))"
    and "list_all (in_range N) (marketUpdates (engine_out e))"
proof -
  let ?log = "ch_log (requestQ x)" and ?k = "ch_read (requestQ x)"
  have ch: "chan_ok (xl_requests L) (xv_requests V) (requestQ x)" using inv by (simp add: parts)
  have E: "engine_rep represents cap (replicate N c) (x_engine x) (x_spec v N x)" using inv by (simp add: x_inv_def engine_inv_def)
  obtain As io where S: "x_spec v N x = (As, io)" by fastforce
  have len: "length As = N" using a_run_length [of v _ "replicate N a_empty" engine_io0] S by (simp add: x_spec_def) (metis fst_conv)
  have "polls_ok v (replicate N c) fits (map Some (take ?k ?log @ [r])) (replicate N a_empty, engine_io0)"
    using inv_stream [OF inv adm, of v "Suc ?k"] chan_next_take [OF ch nxt] by simp
  then have ok: "request_ok (replicate N c) fits r As"
    using S by (simp add: polls_ok_append x_spec_def idle)
  obtain e where e: "processClientRequest ops r (x_engine x) = Some e"
    "engine_rep represents cap (replicate N c) e (a_process v r (x_spec v N x))"
    using request_refines [OF _ ok] E S by auto
  moreover have "list_all (in_range N) (marketUpdates (engine_out (x_engine x)))" using inv by (simp add: parts)
  then have "list_all (in_range N) (marketUpdates (engine_out e))"
    using process_in_range [of "replicate N c" fits r "(As, io)" v] ok len E e(2) by (simp add: engine_rep_def S)
  ultimately show thesis using that by blast
qed

lemma engine_poll_inv:
  assumes inv: "x_inv v represents cap L V N c sz n x" and adm: "admissible N c fits (ch_log (requestQ x))"
    and at: "engine_at x = Some EPoll" and L: "xl_books L = ops"
  shows "\<exists>x'. engine_poll L out x = Some x' \<and> x_inv v represents cap L V N c sz n x'"
proof (cases "ch_next (xl_requests L) (requestQ x)")
  case None
  have "x_inv v represents cap L V N c sz n (x\<lparr>engine_at := Some EHead\<rparr>) = x_inv v represents cap L V N c sz n x"
    by (rule x_inv_cong) (simp_all add: hands_defs at)
  with inv show ?thesis by (simp add: engine_poll_def None)
next
  case (Some r)
  have ch: "chan_ok (xl_requests L) (xv_requests V) (requestQ x)" using inv by (simp add: parts)
  note nx = chan_next_Some [OF ch Some] chan_next_take [OF ch Some]
  have idle: "taken x = ch_read (requestQ x)" by (simp add: taken_def at)
  obtain e where e: "processClientRequest ops r (x_engine x) = Some e"
    "engine_rep represents cap (replicate N c) e (a_process v r (x_spec v N x))"
    "list_all (in_range N) (marketUpdates (engine_out e))"
    using request_taken [OF inv adm idle Some] .
  let ?x = "x\<lparr>x_engine := e, engine_at := Some (Sending out)\<rparr>"
  have spec: "x_spec v N ?x = a_process v r (x_spec v N x)" using nx(4) by (simp add: x_spec_def taken_def at a_run_append)
  have "x_inv v represents cap L V N c sz n ?x"
    if "responses (engine_out e) = responses (engine_out (x_engine x)) @ lefts out"
      "marketUpdates (engine_out e) = marketUpdates (engine_out (x_engine x)) @ rights out"
    using inv e(2,3) nx(1) that
    by (simp add: x_inv_def queues_inv_def engine_inv_def publisher_inv_def streamer_inv_def spec) (simp add: hands_defs at)
  with inv e(1) L show ?thesis by (simp add: engine_poll_def Some)
qed

end

lemma engine_push_inv:
  assumes inv: "x_inv v represents cap L V N c sz n x" and at: "engine_at x = Some (Sending out)"
  shows "x_inv v represents cap L V N c sz n (engine_push L out x)"
proof (cases out)
  case Nil
  have ch: "chan_ok (xl_requests L) (xv_requests V) (requestQ x)" "Suc (ch_read (requestQ x)) \<le> length (ch_log (requestQ x))"
    using inv by (simp_all add: x_inv_def queues_inv_def engine_inv_def taken_def at)
  have Q: "requestQ (engine_push L out x) = ch_pop (xl_requests L) (requestQ x)"
    by (simp add: Nil set_requestQ_def requestQ_def)
  have "chan_ok (xl_requests L) (xv_requests V) (requestQ (engine_push L out x))"
    unfolding Q by (rule chan_pop(1) [OF ch(1)]) (use ch(2) in \<open>simp add: ch_unread_def\<close>)
  moreover have "gw_inv (xl_sort L) (ch_push (xl_requests L)) ch_log sz n (x_gateway (engine_push L out x))"
    using inv by (simp add: Nil set_requestQ_def x_inv_def gw_inv_def accepted_def pending_def fifo_ok_def requestQ_def)
  moreover have "taken (engine_push L out x) = taken x" by (simp add: taken_def Q at) (simp add: Nil)
  moreover have "x_engine (engine_push L out x) = x_engine x" "x_publisher (engine_push L out x) = x_publisher x"
    "x_streamer (engine_push L out x) = x_streamer x" "responseQ (engine_push L out x) = responseQ x"
    "marketUpdateQ (engine_push L out x) = marketUpdateQ x" "streamerQ (engine_push L out x) = streamerQ x"
    "outbox (engine_push L out x) = outbox x" "snap_outbox (engine_push L out x) = snap_outbox x"
    "numbered_updates (engine_push L out x) = numbered_updates x"
    by (simp_all add: Nil set_requestQ_def hands_defs at)
  ultimately show ?thesis
    using inv by (simp add: x_inv_def queues_inv_def engine_inv_def publisher_inv_def streamer_inv_def x_spec_def Q)
next
  case (Cons m rest)
  show ?thesis
  proof (cases m)
    case (Inl resp)
    then show ?thesis
      using inv chan_push(1) [of "xl_responses L" "xv_responses V" "responseQ x" resp] ch_push_Some [of "xl_responses L" "responseQ x" resp]
      by (auto simp: Cons parts hands_defs at split: option.split)
  next
    case (Inr u)
    show ?thesis
    proof (cases "ch_push (xl_updates L) (marketUpdateQ x) u")
      case None
      with inv Inr Cons show ?thesis by simp
    next
      case (Some q)
      have ch: "chan_ok (xl_updates L) (xv_updates V) (marketUpdateQ x)" "numbered_updates x \<le> length (ch_log (marketUpdateQ x))"
        using inv by (simp_all add: parts)
      note push = chan_push(1) [OF ch(1) Some] ch_push_Some [OF Some]
      have "engine_push L out x = x\<lparr>marketUpdateQ := q, engine_at := Some (Sending rest)\<rparr>" by (simp add: Cons Inr Some)
      then show ?thesis
        using inv push ch(2) by (simp add: parts hands_defs at Cons Inr)
    qed
  qed
qed

subsection \<open>The publisher and the streamer\<close>

lemma publisher_poll_inv:
  assumes inv: "x_inv v represents cap L V N c sz n x" and at: "publisher_at x = Some PPoll"
  shows "\<exists>x'. publisher_poll L now x = Some x' \<and> x_inv v represents cap L V N c sz n x'"
proof (cases "ch_next (xl_updates L) (marketUpdateQ x)")
  case None
  have "x_inv v represents cap L V N c sz n (x\<lparr>publisher_at := Some PHead\<rparr>) = x_inv v represents cap L V N c sz n x"
    by (rule x_inv_cong) (simp_all add: hands_defs at)
  with inv show ?thesis by (simp add: publisher_poll_def None)
next
  case (Some u)
  have ch: "chan_ok (xl_updates L) (xv_updates V) (marketUpdateQ x)" "itch_spec (xl_itch L)"
    and rng: "list_all (in_range N) (ch_log (marketUpdateQ x))"
    using inv by (simp_all add: parts lib_ok_def)
  note nx = chan_next_Some [OF ch(1) Some] chan_next_take [OF ch(1) Some]
  obtain us where us: "map fst us = take (ch_read (marketUpdateQ x)) (ch_log (marketUpdateQ x))"
    "published (xl_itch L) us (x_publisher x)" "streamer_updates (x_publisher x) = ch_log (streamerQ x)"
    using inv by (auto simp: parts hands_defs at)
  have "encodable u" using rng nx(1,2) by (auto simp: list_all_length in_range_def)
  from publisher_turn_ok [OF ch(2) us(2) this, of now] obtain p where
    p: "publisher_turn (xl_itch L) (Some (u, now)) (x_publisher x) = Some p" "published (xl_itch L) (us @ [(u, now)]) p" by blast
  let ?out = "drop (length (streamer_updates (x_publisher x))) (streamer_updates p)"
  let ?x = "x\<lparr>x_publisher := p, publisher_at := Some (Pushing ?out)\<rparr>"
  have "streamer_updates p = ch_log (streamerQ x) @ ?out"
    using p(2) us(2,3) by (simp add: published_def)
  moreover have "map fst (us @ [(u, now)]) = take (numbered_updates ?x) (ch_log (marketUpdateQ x))"
    using us(1) nx(4) by (simp add: hands_defs at)
  ultimately have "publisher_inv (xl_itch L) ?x"
    unfolding publisher_inv_def using p(2) nx(1)
    by (intro conjI exI [of _ "us @ [(u, now)]"]) (simp_all add: hands_defs at)
  moreover have "outbox ?x = outbox x" "taken ?x = taken x" by (simp_all add: hands_defs)
  ultimately have "x_inv v represents cap L V N c sz n ?x"
    using inv by (simp add: x_inv_def queues_inv_def engine_inv_def streamer_inv_def x_spec_def)
  with p(1) show ?thesis by (simp add: publisher_poll_def Some)
qed

lemma publisher_push_inv:
  assumes inv: "x_inv v represents cap L V N c sz n x" and at: "publisher_at x = Some (Pushing out)"
  shows "x_inv v represents cap L V N c sz n (publisher_push L out x)"
proof (cases out)
  case Nil
  have ch: "chan_ok (xl_updates L) (xv_updates V) (marketUpdateQ x)" "Suc (ch_read (marketUpdateQ x)) \<le> length (ch_log (marketUpdateQ x))"
    using inv by (simp_all add: parts numbered_updates_def at)
  have "chan_ok (xl_updates L) (xv_updates V) (ch_pop (xl_updates L) (marketUpdateQ x))"
    by (rule chan_pop(1) [OF ch(1)]) (use ch(2) in \<open>simp add: ch_unread_def\<close>)
  with inv show ?thesis by (simp add: Nil parts hands_defs at)
next
  case (Cons snap rest)
  show ?thesis
  proof (cases "ch_push (xl_snaps L) (streamerQ x) snap")
    case None
    with inv Cons show ?thesis by simp
  next
    case (Some q)
    have ch: "chan_ok (xl_snaps L) (xv_snaps V) (streamerQ x)" using inv by (simp add: parts)
    then have rd: "ch_read (streamerQ x) \<le> length (ch_log (streamerQ x))" by (simp add: chan_ok_def)
    note push = chan_push(1) [OF ch Some] ch_push_Some [OF Some]
    have "publisher_push L out x = x\<lparr>streamerQ := q, publisher_at := Some (Pushing rest)\<rparr>" by (simp add: Cons Some)
    then show ?thesis using inv push rd by (simp add: parts hands_defs at Cons)
  qed
qed

text \<open>The streamer's queue carries the numbered feed of the updates.\<close>

lemma inv_feed:
  assumes "x_inv v represents cap L V N c sz n x"
  obtains us where "ch_log (streamerQ x) = feed (xl_itch L) us" and "list_all (\<lambda>y. in_range N (fst y)) us"
    and "length us \<le> length (ch_log (marketUpdateQ x))"
    and "map fst us = take (length us) (ch_log (marketUpdateQ x))"
proof -
  obtain us where us: "map fst us = take (numbered_updates x) (ch_log (marketUpdateQ x))" "published (xl_itch L) us (x_publisher x)"
    "streamer_updates (x_publisher x) = ch_log (streamerQ x) @ snap_outbox x"
    using assms by (auto simp: parts)
  let ?m = "length (ch_log (streamerQ x))"
  have "feed (xl_itch L) us = ch_log (streamerQ x) @ snap_outbox x" using us(2,3) by (simp add: published_def)
  then have "ch_log (streamerQ x) = take ?m (feed (xl_itch L) us)" by simp
  then have log: "ch_log (streamerQ x) = feed (xl_itch L) (take ?m us)" by (simp only: feed_take)
  have rng: "list_all (in_range N) (ch_log (marketUpdateQ x))" using assms by (simp add: parts)
  have upd: "map fst (take ?m us) = take (length (take ?m us)) (ch_log (marketUpdateQ x))"
  proof -
    have "prefix (map fst (take ?m us)) (ch_log (marketUpdateQ x))"
      by (simp add: take_map [symmetric] us(1) take_is_prefix)
    then show ?thesis by (auto simp: prefix_def)
  qed
  moreover have "list_all (\<lambda>y. in_range N (fst y)) (take ?m us)"
  proof -
    have "list_all (in_range N) (map fst (take ?m us))"
      unfolding upd using rng by (auto simp: list_all_iff dest: in_set_takeD)
    then show ?thesis by (simp add: list.pred_map comp_def)
  qed
  moreover have "length (take ?m us) \<le> length (ch_log (marketUpdateQ x))"
    using arg_cong [OF upd, of length] by simp
  ultimately show thesis using that log by blast
qed

lemma streamer_apply_inv:
  assumes inv: "x_inv v represents cap L V N c sz n x" and at: "streamer_at x = Some Applying"
  shows "\<exists>x'. streamer_apply L x = Some x' \<and> x_inv v represents cap L V N c sz n x'"
proof (cases "ch_next (xl_snaps L) (streamerQ x)")
  case None
  have "x_inv v represents cap L V N c sz n (x\<lparr>streamer_at := Some Answering\<rparr>) = x_inv v represents cap L V N c sz n x"
    by (rule x_inv_cong) (simp_all add: hands_defs)
  with inv show ?thesis by (simp add: streamer_apply_def None)
next
  case (Some snap)
  let ?log = "ch_log (streamerQ x)" and ?k = "ch_read (streamerQ x)" and ?s = "x_streamer x"
  have ch: "chan_ok (xl_snaps L) (xv_snaps V) (streamerQ x)" and spec: "itch_spec (xl_itch L)"
    and sh: "shadow_book ?s = fold apply_update (map su_update (take ?k ?log)) (replicate N [])"
    and ok: "length ?log < 2 ^ 64 - 1 \<longrightarrow> streamer_ok (xl_itch L) (xl_iter L) (take ?k ?log) ?s"
    using inv by (simp_all add: parts lib_ok_def)
  note nx = chan_next_Some [OF ch Some] chan_next_take [OF ch Some]
  obtain us where us: "?log = feed (xl_itch L) us" "list_all (\<lambda>y. in_range N (fst y)) us" using inv_feed [OF inv] by blast
  have len: "length (shadow_book ?s) = N" by (simp add: sh)
  have "list_all (in_range N) (map su_update ?log)" using us by (simp add: feed_updates list.pred_map comp_def)
  then have rng: "list_all (in_range N) (map su_update [snap])" using nx(1,2) by (auto simp: list_all_length)
  from drain_shadow [of ?s "[snap]" "xl_itch L"] rng len obtain s where
    s: "streamer_drain (xl_itch L) [snap] ?s = Some s" "shadow_book s = fold apply_update [su_update snap] (shadow_book ?s)" by auto
  have ok': "streamer_ok (xl_itch L) (xl_iter L) (take (Suc ?k) ?log) s" if short: "length ?log < 2 ^ 64 - 1"
  proof -
    have "seqs_ok (take (Suc ?k) ?log)"
      unfolding us(1) feed_take
      by (rule feed_seqs [OF spec]) (use us short in \<open>auto simp: list_all_iff in_range_def dest: in_set_takeD\<close>)
    then show ?thesis
      using streamer_run_ok [of "xl_itch L" "xl_iter L" "take ?k ?log" ?s "[([snap], [])]"] ok short rng len s(1) nx(4)
      by (simp del: streamer_drain.simps)
  qed
  have "chan_ok (xl_snaps L) (xv_snaps V) (ch_pop (xl_snaps L) (streamerQ x))" by (rule chan_pop(1) [OF ch nx(3)])
  then have "x_inv v represents cap L V N c sz n (x\<lparr>x_streamer := s, streamerQ := ch_pop (xl_snaps L) (streamerQ x)\<rparr>)"
    using inv s(2) sh ok' nx(4) by (simp add: parts hands_defs)
  with s(1) show ?thesis by (simp add: streamer_apply_def Some)
qed

lemma streamer_answer_inv:
  assumes inv: "x_inv v represents cap L V N c sz n x" and short: "length (ch_log (streamerQ x)) < 2 ^ 64 - 1"
  shows "\<exists>x'. streamer_answer L clk req x = Some x' \<and> x_inv v represents cap L V N c sz n x'"
proof -
  have "streamer_ok (xl_itch L) (xl_iter L) (take (ch_read (streamerQ x)) (ch_log (streamerQ x))) (x_streamer x)"
    using inv short by (simp add: parts)
  from handleClient_ok [OF this, of clk req] obtain reply s where
    s: "handleClient (xl_itch L) (xl_iter L) clk req (x_streamer x) = Some (reply, s)"
    "streamer_ok (xl_itch L) (xl_iter L) (take (ch_read (streamerQ x)) (ch_log (streamerQ x))) s" "same_books (x_streamer x) s" by blast
  then have "x_inv v represents cap L V N c sz n (x\<lparr>x_streamer := s\<rparr>)"
    using inv by (simp add: parts hands_defs same_books_def)
  with s(1) show ?thesis by (simp add: streamer_answer_def)
qed

end
