(* ===== verification/ExchangeRuns.thy ===== *)
theory ExchangeRuns
  imports ExchangeInv
begin

text \<open>
  Whole runs of the exchange: the invariant in every reachable state, and that no interleaving of the threads
  runs into undefined behaviour.
\<close>

section \<open>Histories grow\<close>

lemma push_closed_prefix: "push_closed (\<lambda>c'. prefix l (ch_log c')) (ch_push ops)"
  by (auto simp: push_closed_def dest: ch_push_Some(1) intro: prefix_snoc [THEN iffD2])

lemma request_log_grows:
  assumes "x_step L e x = Some x'"
  shows "prefix (ch_log (requestQ x)) (ch_log (requestQ x'))"
proof (cases e)
  case (GatewayDrain now)
  have "prefix (ch_log (requestQ x)) (ch_log (fifo_requests (publishPendingOrders (xl_sort L) (ch_push (xl_requests L)) (os_fifo (x_gateway x)))))"
    by (rule publish_closed [OF push_closed_prefix]) (simp add: requestQ_def)
  with assms GatewayDrain show ?thesis
    by (auto simp: gateway_drain_def requestQ_def drain_state simp del: drainResponses.simps split: if_splits option.splits)
next
  case (GatewayCallback ev)
  have "prefix (ch_log (requestQ x)) (ch_log (fifo_requests (os_fifo g)))"
    if "gw_step (xl_ouch L) (xl_sort L) (ch_push (xl_requests L)) ev (x_gateway x) = Some g" for g
    by (rule gw_step_closed [OF push_closed_prefix _ that]) (simp add: requestQ_def)
  with assms GatewayCallback show ?thesis
    by (auto simp: gateway_callback_def requestQ_def split: if_splits)
next
  case MainStep
  with assms show ?thesis by (cases "main_at x") (auto simp: main_defs)
next
  case EnginePush
  have "prefix (ch_log (requestQ x)) (ch_log (requestQ (engine_push L out x)))" for out
    by (cases "(L, out, x)" rule: engine_push.cases) (auto simp: set_requestQ_def requestQ_def split: option.split)
  with EnginePush assms show ?thesis by (auto split: option.splits engine_pc.splits)
next
  case PublisherPush
  have "requestQ (publisher_push L out x) = requestQ x" for out by (cases out) (auto split: option.split)
  with PublisherPush assms show ?thesis by (auto split: option.splits publisher_pc.splits)
qed (use assms in \<open>auto simp: sigHandler_def engine_poll_def publisher_poll_def streamer_apply_def streamer_answer_def
    split: if_splits option.splits Option.bind_splits\<close>)

lemma update_log_grows:
  assumes "x_step L e x = Some x'"
  shows "length (ch_log (marketUpdateQ x)) \<le> length (ch_log (marketUpdateQ x'))"
proof (cases e)
  case MainStep
  with assms show ?thesis by (cases "main_at x") (auto simp: main_defs)
next
  case EnginePush
  have "length (ch_log (marketUpdateQ x)) \<le> length (ch_log (marketUpdateQ (engine_push L out x)))" for out
    by (cases "(L, out, x)" rule: engine_push.cases) (auto simp: set_requestQ_def split: option.split dest: ch_push_Some(1))
  with EnginePush assms show ?thesis by (auto split: option.splits engine_pc.splits)
next
  case PublisherPush
  have "ch_log (marketUpdateQ (publisher_push L out x)) = ch_log (marketUpdateQ x)" for out by (cases out) (auto split: option.split)
  with PublisherPush assms show ?thesis by (auto split: option.splits publisher_pc.splits)
qed (use assms in \<open>auto simp: sigHandler_def gateway_drain_def gateway_callback_def engine_poll_def publisher_poll_def streamer_apply_def
    streamer_answer_def split: if_splits option.splits Option.bind_splits\<close>)

text \<open>A step back from a state within limits is a state within limits.\<close>

lemma limits_before:
  assumes "x_step L e x = Some x'" and "admissible N c fits (ch_log (requestQ x'))" and "length (ch_log (marketUpdateQ x')) < 2 ^ 64 - 1"
  shows "admissible N c fits (ch_log (requestQ x))" and "length (ch_log (marketUpdateQ x)) < 2 ^ 64 - 1"
  using request_log_grows [OF assms(1)] update_log_grows [OF assms(1)] assms(2,3) admissible_prefix by (auto simp: prefix_def)

section \<open>Every step keeps the invariant\<close>

definition answer_event :: "x_event \<Rightarrow> bool" where
  "answer_event e \<longleftrightarrow> (case e of StreamerAnswer _ _ \<Rightarrow> True | _ \<Rightarrow> False)"

lemma x_inv_moves:
  "\<lbrakk>x_inv v represents cap L V N c sz n x; engine_at x = Some EHead; \<And>out. pc \<noteq> Some (Sending out)\<rbrakk> \<Longrightarrow>
     x_inv v represents cap L V N c sz n (x\<lparr>engine_at := pc\<rparr>)"
  "\<lbrakk>x_inv v represents cap L V N c sz n x; publisher_at x = Some PHead; \<And>out. pc' \<noteq> Some (Pushing out)\<rbrakk> \<Longrightarrow>
     x_inv v represents cap L V N c sz n (x\<lparr>publisher_at := pc'\<rparr>)"
  "x_inv v represents cap L V N c sz n (x\<lparr>gateway_at := g\<rparr>) = x_inv v represents cap L V N c sz n x"
  "x_inv v represents cap L V N c sz n (x\<lparr>streamer_at := s\<rparr>) = x_inv v represents cap L V N c sz n x"
  "x_inv v represents cap L V N c sz n (x\<lparr>g_running := r\<rparr>) = x_inv v represents cap L V N c sz n x"
  by (subst x_inv_cong [of _ x]; auto simp: hands_defs split: option.splits engine_pc.splits publisher_pc.splits)+

context order_book
begin

lemma x_step_inv:
  assumes inv: "x_inv v represents cap L V N c sz (if client_event e then Suc n else n) x" and life: "life_ok x"
    and adm: "admissible N c fits (ch_log (requestQ x))" and L: "xl_books L = ops"
    and short: "answer_event e \<Longrightarrow> length (ch_log (marketUpdateQ x)) < 2 ^ 64 - 1"
  shows "\<exists>x'. x_step L e x = Some x' \<and> x_inv v represents cap L V N c sz n x'"
proof (cases e)
  case (GatewayCallback ev)
  have "x_inv v represents cap L V N c sz n x" using inv by (simp add: GatewayCallback client_event_def x_inv_def gw_inv_def)
  with GatewayCallback show ?thesis using gateway_callback_inv [of v represents cap L V N c sz n x ev] inv by (simp add: client_event_def)
next
  case MainStep
  with inv main_inv [OF _ life] show ?thesis by (simp add: client_event_def)
next
  case (EnginePoll out)
  with inv engine_poll_inv [OF _ adm _ L] show ?thesis by (simp add: client_event_def)
next
  case EnginePush
  with inv engine_push_inv show ?thesis by (auto simp: client_event_def split: option.split engine_pc.split)
next
  case PublisherPush
  with inv publisher_push_inv show ?thesis by (auto simp: client_event_def split: option.split publisher_pc.split)
next
  case (StreamerAnswer clk req)
  then have i: "x_inv v represents cap L V N c sz n x" using inv by (simp add: client_event_def)
  obtain us where "ch_log (streamerQ x) = feed (xl_itch L) us" "length us \<le> length (ch_log (marketUpdateQ x))"
    using inv_feed [OF i] by blast
  then have "length (ch_log (streamerQ x)) < 2 ^ 64 - 1" using short by (simp add: StreamerAnswer answer_event_def)
  with StreamerAnswer i streamer_answer_inv [OF i] show ?thesis by simp
qed (use inv in \<open>auto simp: client_event_def sigHandler_def x_inv_moves gateway_drain_inv publisher_poll_inv streamer_apply_inv\<close>)

lemma x_init_inv:
  assumes "lib_ok L V" and "xv_requests V rq = []" "xv_responses V sq = []" "xv_updates V uq = []" "xv_snaps V nq = []"
    and "\<And>i. represents (mk_book i) a_empty" and "\<And>i. cap (mk_book i) = c" and "sz + 1 < 2 ^ 64" and "n < 2 ^ 64 - 1"
  shows "x_inv v represents cap L V N c sz n (exchange_init mk_book N f sz rq sq uq nq)"
proof -
  let ?x = "exchange_init mk_book N f sz rq sq uq nq"
  have g: "gw_inv (xl_sort L) (ch_push (xl_requests L)) ch_log sz n (x_gateway ?x)"
    unfolding exchange_init_def using assms by (simp add: gw_inv_init queue_spec_channel lib_ok_def)
  have q: "requestQ ?x = ch_init rq" by (simp add: requestQ_def exchange_init_def order_server_init_def fifo_init_def)
  have rep: "engine_rep represents cap (replicate N c) (x_engine ?x) (replicate N a_empty, engine_io0)"
    using init_rep [of mk_book c N] assms by (simp add: exchange_init_def engine_io0_def)
  have e: "engine_out (x_engine ?x) = engine_io0" using rep by (simp add: engine_rep_def)
  show ?thesis
    using g rep assms(1-5) published_init [of "xl_itch L"] streamer_init_ok [of "xl_itch L" "xl_iter L" N]
    unfolding parts q
    by (auto simp: hands_defs q e lib_ok_def) (simp_all add: exchange_init_def engine_io0_def publisher_init_def streamer_init_def chan_init)
qed

lemma x_reach_inv:
  assumes "x_reach L x0 k x" and "x_inv v represents cap L V N c sz (k + n) x0" and "life_ok x0"
    and "admissible N c fits (ch_log (requestQ x))" and "length (ch_log (marketUpdateQ x)) < 2 ^ 64 - 1" and "xl_books L = ops"
  shows "x_inv v represents cap L V N c sz n x"
  using assms
proof (induction arbitrary: n rule: x_reach.induct)
  case (internal k x e x')
  note adm = limits_before [OF internal.hyps(3) internal.prems(3,4)]
  have "life_ok x" using life_reach [OF internal.hyps(1) internal.prems(2)] .
  then show ?case
    using x_step_inv [of L V N c sz e n x] internal.IH [OF internal.prems(1,2) adm internal.prems(5)] internal.hyps(2,3) adm
      internal.prems(5) by auto
next
  case (client k x e x')
  note adm = limits_before [OF client.hyps(2) client.prems(3,4)]
  have "life_ok x" using life_reach [OF client.hyps(1) client.prems(2)] .
  moreover have "x_inv v represents cap L V N c sz (Suc n) x"
    using client.IH [of "Suc n", OF _ client.prems(2) adm client.prems(5)] client.prems(1) by simp
  ultimately show ?case
    using x_step_inv [of L V N c sz "GatewayCallback e" n x] client.hyps(2) adm client.prems(5)
    by (auto simp: client_event_def answer_event_def simp del: x_step.simps)
qed simp

end

end
