(* ===== verification/Progress.thy ===== *)
theory Progress
  imports ExchangeRuns
begin

text \<open>
  The threads do not block each other: while all of them run, whatever the clients have sent so far can be worked
  off completely. The engine waits for room in the queues of the gateway and of the publisher, the publisher
  for the streamer; the gateway waits for nobody, because it retains the requests a full queue does not take.
\<close>

definition worker_event :: "x_event \<Rightarrow> bool" where
  "worker_event e \<longleftrightarrow> \<not> client_event e \<and> \<not> answer_event e \<and> e \<noteq> MainStep \<and> e \<noteq> Signal"

lemma worker_simps [simp]:
  "worker_event GatewayHead" "worker_event (GatewayDrain now)" "worker_event GatewayEndTurn"
  "worker_event EngineHead" "worker_event (EnginePoll out)" "worker_event EnginePush"
  "worker_event PublisherHead" "worker_event (PublisherPoll now)" "worker_event PublisherPush"
  "worker_event StreamerHead" "worker_event StreamerApply" "worker_event StreamerEndTurn"
  by (simp_all add: worker_event_def client_event_def answer_event_def)

definition running :: "('b, 'r, 's, 'u, 'n) exchange \<Rightarrow> bool" where
  "running x \<longleftrightarrow> gateway_run x \<and> engine_run_flag x \<and> publisher_run_flag x \<and> streamer_run_flag x \<and>
     gateway_at x \<noteq> None \<and> engine_at x \<noteq> None \<and> publisher_at x \<noteq> None \<and> streamer_at x \<noteq> None"

lemma running_step:
  assumes "running x" and "worker_event e" and "x_step L e x = Some x'"
  shows "running x'"
proof (cases "phase_event e")
  case True
  then consider "e = GatewayHead" | "e = EngineHead" | "e = PublisherHead" | "e = StreamerHead"
    using assms(2) by (auto simp: phase_event_def worker_event_def)
  then show ?thesis using assms(1,3) by cases (auto simp: running_def split: if_splits)
next
  case False
  with assms show ?thesis using other_events_phase [OF False assms(3)] by (simp add: running_def same_phase_def)
qed

section \<open>Work\<close>

definition w_pending :: "('b, 'r, 's, 'u, 'n) exchange \<Rightarrow> nat" where
  "w_pending x = pending_size (os_fifo (x_gateway x))"

definition w_requests :: "('b, 'r, 's, 'u, 'n) exchange \<Rightarrow> nat" where
  "w_requests x = length (ch_log (requestQ x)) - taken x"

definition w_sending :: "('b, 'r, 's, 'u, 'n) exchange \<Rightarrow> nat" where
  "w_sending x = (case engine_at x of Some (Sending out) \<Rightarrow> Suc (length out) | _ \<Rightarrow> 0)"

definition w_updates :: "('b, 'r, 's, 'u, 'n) exchange \<Rightarrow> nat" where
  "w_updates x = length (ch_log (marketUpdateQ x)) - numbered_updates x"

definition w_pushing :: "('b, 'r, 's, 'u, 'n) exchange \<Rightarrow> nat" where
  "w_pushing x = (case publisher_at x of Some (Pushing out) \<Rightarrow> Suc (length out) | _ \<Rightarrow> 0)"

definition w_snaps :: "('b, 'r, 's, 'u, 'n) exchange \<Rightarrow> nat" where
  "w_snaps x = length (ch_unread (streamerQ x))"

definition w_responses :: "('b, 'r, 's, 'u, 'n) exchange \<Rightarrow> nat" where
  "w_responses x = length (ch_unread (responseQ x))"

lemmas work_defs = w_pending_def w_requests_def w_sending_def w_updates_def w_pushing_def w_snaps_def w_responses_def

text \<open>Nothing is pending, queued or in a thread's hands.\<close>

definition quiescent :: "('b, 'r, 's, 'u, 'n) exchange \<Rightarrow> bool" where
  "quiescent x \<longleftrightarrow> w_pending x = 0 \<and> w_requests x = 0 \<and> w_sending x = 0 \<and> w_updates x = 0 \<and> w_pushing x = 0 \<and>
     w_snaps x = 0 \<and> w_responses x = 0"

definition work :: "(('b, 'r, 's, 'u, 'n) exchange \<times> ('b, 'r, 's, 'u, 'n) exchange) set" where
  "work = measures [w_pending, w_requests, w_sending, w_updates, w_pushing, w_snaps, w_responses]"

lemma wf_work: "wf work"
  by (simp add: work_def)

section \<open>Bringing a thread to its queue\<close>

lemma to_draining:
  assumes "running x"
  obtains es where "list_all worker_event es" and "steps (x_step L) es x = Some (x\<lparr>gateway_at := Some Draining\<rparr>)"
proof -
  obtain pc where pc: "gateway_at x = Some pc" "gateway_run x" using assms by (auto simp: running_def)
  show thesis
  proof (cases pc)
    case GHead
    show thesis by (rule that [of "[GatewayHead]"]) (simp_all add: pc GHead)
  next
    case Draining
    show thesis by (rule that [of "[]"]) (simp_all add: pc Draining)
  next
    case Serving
    show thesis by (rule that [of "[GatewayEndTurn, GatewayHead]"]) (simp_all add: pc Serving)
  qed
qed

lemma to_applying:
  assumes "running x"
  obtains es where "list_all worker_event es" and "steps (x_step L) es x = Some (x\<lparr>streamer_at := Some Applying\<rparr>)"
proof -
  obtain pc where pc: "streamer_at x = Some pc" "streamer_run_flag x" using assms by (auto simp: running_def)
  show thesis
  proof (cases pc)
    case SHead
    show thesis by (rule that [of "[StreamerHead]"]) (simp_all add: pc SHead)
  next
    case Applying
    show thesis by (rule that [of "[]"]) (simp_all add: pc Applying)
  next
    case Answering
    show thesis by (rule that [of "[StreamerEndTurn, StreamerHead]"]) (simp_all add: pc Answering)
  qed
qed

lemma to_polling:
  assumes "running x"
  shows "w_sending x = 0 \<Longrightarrow> \<exists>es. list_all worker_event es \<and> steps (x_step L) es x = Some (x\<lparr>engine_at := Some EPoll\<rparr>)"
    and "w_pushing x = 0 \<Longrightarrow> \<exists>es. list_all worker_event es \<and> steps (x_step L) es x = Some (x\<lparr>publisher_at := Some PPoll\<rparr>)"
proof -
  obtain pe pp where pc: "engine_at x = Some pe" "engine_run_flag x" "publisher_at x = Some pp" "publisher_run_flag x"
    using assms by (auto simp: running_def)
  show "\<exists>es. list_all worker_event es \<and> steps (x_step L) es x = Some (x\<lparr>engine_at := Some EPoll\<rparr>)" if "w_sending x = 0"
    using that pc by (intro exI [of _ "case pe of EHead \<Rightarrow> [EngineHead] | _ \<Rightarrow> []"]) (auto simp: w_sending_def split: engine_pc.splits)
  show "\<exists>es. list_all worker_event es \<and> steps (x_step L) es x = Some (x\<lparr>publisher_at := Some PPoll\<rparr>)" if "w_pushing x = 0"
    using that pc by (intro exI [of _ "case pp of PHead \<Rightarrow> [PublisherHead] | _ \<Rightarrow> []"]) (auto simp: w_pushing_def split: publisher_pc.splits)
qed

section \<open>What is accepted stays accepted\<close>

definition x_accepted :: "('b, 'r, 's, 'u, 'n) exchange \<Rightarrow> MEClientRequest list" where
  "x_accepted x = accepted ch_log (os_fifo (x_gateway x))"

lemma admissible_perm:
  assumes "mset rs = mset rs'"
  shows "admissible N c fits rs = admissible N c fits rs'"
  using mset_eq_length [OF mset_introduced [OF assms]] mset_eq_setD [OF assms] by (simp add: admissible_def list_all_iff)

lemma accepted_step:
  assumes "worker_event e" and "x_step L e x = Some x'" and "x_inv v represents cap L V N c sz n x"
  shows "mset (x_accepted x') = mset (x_accepted x)"
proof (cases e)
  case (GatewayDrain now)
  have "mset (accepted ch_log (publishPendingOrders (xl_sort L) (ch_push (xl_requests L)) (os_fifo (x_gateway x)))) = mset (x_accepted x)"
    unfolding x_accepted_def by (rule publish_accepted) (use assms(3) in \<open>simp_all add: x_inv_def gw_inv_def\<close>)
  with assms(2) GatewayDrain show ?thesis
    by (auto simp: x_accepted_def gateway_drain_def drain_state simp del: drainResponses.simps split: if_splits option.splits)
next
  case EnginePush
  have "x_accepted (engine_push L out x) = x_accepted x" for out
    by (cases "(L, out, x)" rule: engine_push.cases)
      (auto simp: set_requestQ_def requestQ_def x_accepted_def accepted_def pending_def split: option.split)
  with EnginePush assms show ?thesis by (auto split: option.splits engine_pc.splits)
next
  case PublisherPush
  have "x_accepted (publisher_push L out x) = x_accepted x" for out by (cases out) (auto simp: x_accepted_def split: option.split)
  with PublisherPush assms show ?thesis by (auto split: option.splits publisher_pc.splits)
qed (use assms in \<open>auto simp: worker_event_def client_event_def answer_event_def x_accepted_def engine_poll_def publisher_poll_def
    streamer_apply_def split: if_splits option.splits Option.bind_splits\<close>)

section \<open>One piece of work\<close>

text \<open>
  \<open>advances L x x'\<close>: the threads can get from \<open>x\<close> to \<open>x'\<close> on their own, with less work left.
\<close>

definition advances :: "('b, 'r, 's, 'u, 'n) exchange_lib \<Rightarrow> ('b, 'r, 's, 'u, 'n) exchange \<Rightarrow> ('b, 'r, 's, 'u, 'n) exchange \<Rightarrow> bool" where
  "advances L x x' \<longleftrightarrow> (\<exists>es. list_all worker_event es \<and> steps (x_step L) es x = Some x') \<and> (x', x) \<in> work"

lemma advances_by:
  assumes "list_all worker_event es" and "steps (x_step L) es x = Some y" and "worker_event e" and "x_step L e y = Some x'"
    and "(x', x) \<in> work"
  shows "advances L x x'"
  unfolding advances_def using assms by (intro conjI exI [of _ "es @ [e]"]) (simp_all add: steps_append)

lemma take_response:
  assumes inv: "x_inv v represents cap L V N c sz n x" and run: "running x" and w: "0 < w_responses x"
  shows "\<exists>x'. advances L x x'"
proof -
  obtain es where es: "list_all worker_event es" "steps (x_step L) es x = Some (x\<lparr>gateway_at := Some Draining\<rparr>)"
    using to_draining [OF run] .
  have ch: "chan_ok (xl_responses L) (xv_responses V) (responseQ x)" using inv by (simp add: parts)
  have un: "ch_unread (responseQ x) \<noteq> []" using w by (simp add: w_responses_def)
  then obtain r where r: "ch_next (xl_responses L) (responseQ x) = Some r"
    using chan_next [OF ch] by (cases "ch_unread (responseQ x)") auto
  let ?x = "gateway_drain L 0 (x\<lparr>gateway_at := Some Draining\<rparr>)"
  have "(?x, x) \<in> work"
    using chan_pop(2) [OF ch un] un
    by (simp add: work_def gateway_drain_def r work_defs hands_defs requestQ_def drain_state del: drainResponses.simps)
  then show ?thesis using advances_by [OF es, of "GatewayDrain 0" ?x] by auto
qed

lemma take_snap:
  assumes inv: "x_inv v represents cap L V N c sz n x" and run: "running x" and w: "0 < w_snaps x"
  shows "\<exists>x'. advances L x x'"
proof -
  obtain es where es: "list_all worker_event es" "steps (x_step L) es x = Some (x\<lparr>streamer_at := Some Applying\<rparr>)"
    using to_applying [OF run] .
  let ?y = "x\<lparr>streamer_at := Some Applying\<rparr>"
  have ch: "chan_ok (xl_snaps L) (xv_snaps V) (streamerQ x)" using inv by (simp add: parts)
  have un: "ch_unread (streamerQ x) \<noteq> []" using w by (simp add: w_snaps_def)
  then obtain snap where r: "ch_next (xl_snaps L) (streamerQ x) = Some snap"
    using chan_next [OF ch] by (cases "ch_unread (streamerQ x)") auto
  have "x_inv v represents cap L V N c sz n ?y" using inv by (simp add: x_inv_moves)
  from streamer_apply_inv [OF this] obtain x' where x': "streamer_apply L ?y = Some x'" by auto
  then obtain s where "x' = ?y\<lparr>x_streamer := s, streamerQ := ch_pop (xl_snaps L) (streamerQ x)\<rparr>"
    by (auto simp: streamer_apply_def r simp del: streamer_drain.simps split: Option.bind_splits)
  then have "(x', x) \<in> work"
    using chan_pop(2) [OF ch un] un by (simp add: work_def work_defs hands_defs)
  then show ?thesis using advances_by [OF es, of StreamerApply x'] x' by auto
qed

lemma push_snap:
  assumes inv: "x_inv v represents cap L V N c sz n x" and w: "0 < w_pushing x" and free: "w_snaps x = 0"
  shows "\<exists>x'. advances L x x'"
proof -
  obtain out where out: "publisher_at x = Some (Pushing out)" using w by (auto simp: w_pushing_def split: option.splits publisher_pc.splits)
  have ch: "chan_ok (xl_snaps L) (xv_snaps V) (streamerQ x)" "ch_unread (streamerQ x) = []" using inv free by (simp_all add: parts w_snaps_def)
  have "(publisher_push L out x, x) \<in> work"
  proof (cases out)
    case Nil
    then show ?thesis by (simp add: work_def work_defs hands_defs out)
  next
    case (Cons snap rest)
    obtain q where "ch_push (xl_snaps L) (streamerQ x) snap = Some q" using chan_push_empty [OF ch] .
    then show ?thesis by (simp add: Cons work_def work_defs hands_defs out)
  qed
  then show ?thesis using advances_by [of "[]" L x x PublisherPush "publisher_push L out x"] out by auto
qed

lemma take_update:
  assumes inv: "x_inv v represents cap L V N c sz n x" and run: "running x" and w: "0 < w_updates x" "w_pushing x = 0"
  shows "\<exists>x'. advances L x x'"
proof -
  let ?y = "x\<lparr>publisher_at := Some PPoll\<rparr>"
  obtain es where es: "list_all worker_event es" "steps (x_step L) es x = Some ?y"
    using to_polling(2) [OF run w(2)] by blast
  have idle: "numbered_updates x = ch_read (marketUpdateQ x)"
    using w(2) by (auto simp: w_pushing_def numbered_updates_def split: option.splits publisher_pc.splits)
  have ch: "chan_ok (xl_updates L) (xv_updates V) (marketUpdateQ x)" using inv by (simp add: parts)
  have "ch_unread (marketUpdateQ x) \<noteq> []" using w idle by (simp add: w_updates_def ch_unread_def)
  then obtain u where r: "ch_next (xl_updates L) (marketUpdateQ x) = Some u"
    using chan_next [OF ch] by (cases "ch_unread (marketUpdateQ x)") auto
  have "x_inv v represents cap L V N c sz n ?y = x_inv v represents cap L V N c sz n x"
    by (rule x_inv_cong) (use w(2) in \<open>auto simp: hands_defs w_pushing_def split: option.splits publisher_pc.splits\<close>)
  with inv have "x_inv v represents cap L V N c sz n ?y" by simp
  from publisher_poll_inv [OF this] obtain x' where x': "publisher_poll L 0 ?y = Some x'" by auto
  then obtain p out where "x' = x\<lparr>x_publisher := p, publisher_at := Some (Pushing out)\<rparr>"
    by (auto simp: publisher_poll_def r split: Option.bind_splits)
  then have "w_updates x' < w_updates x" "w_pending x' = w_pending x" "w_requests x' = w_requests x" "w_sending x' = w_sending x"
    using w(1) by (simp_all add: w_updates_def idle) (simp_all add: work_defs hands_defs, linarith?)
  then have "(x', x) \<in> work" by (simp add: work_def)
  then show ?thesis using advances_by [OF es, of "PublisherPoll 0" x'] x' by auto
qed

lemma outbox_split: "lefts (map Inl rs @ map Inr us) = rs" "rights (map Inl rs @ map Inr us) = us"
proof -
  have "lefts (map Inr us) = []" "rights (map Inr us) = us" by (induction us) simp_all
  then show "lefts (map Inl rs @ map Inr us) = rs" "rights (map Inl rs @ map Inr us) = us" by (induction rs) simp_all
qed

lemma send_message:
  assumes inv: "x_inv v represents cap L V N c sz n x" and w: "0 < w_sending x"
    and free: "w_responses x = 0" "w_updates x = 0" "w_pushing x = 0"
  shows "\<exists>x'. advances L x x'"
proof -
  obtain out where out: "engine_at x = Some (Sending out)" using w by (auto simp: w_sending_def split: option.splits engine_pc.splits)
  have "numbered_updates x = ch_read (marketUpdateQ x)"
    using free(3) by (auto simp: w_pushing_def numbered_updates_def split: option.splits publisher_pc.splits)
  then have ch: "chan_ok (xl_responses L) (xv_responses V) (responseQ x)" "ch_unread (responseQ x) = []"
    "chan_ok (xl_updates L) (xv_updates V) (marketUpdateQ x)" "ch_unread (marketUpdateQ x) = []"
    using inv free by (simp_all add: parts w_responses_def w_updates_def ch_unread_def)
  let ?x = "engine_push L out x"
  have "w_sending ?x < w_sending x \<and> w_pending ?x = w_pending x \<and> w_requests ?x = w_requests x"
  proof (cases out)
    case Nil
    then show ?thesis by (simp add: work_defs hands_defs out set_requestQ_def requestQ_def)
  next
    case (Cons m rest)
    obtain q q' where "ch_push (xl_responses L) (responseQ x) (projl m) = Some q" "ch_push (xl_updates L) (marketUpdateQ x) (projr m) = Some q'"
      using chan_push_empty [OF ch(1,2)] chan_push_empty [OF ch(3,4)] by metis
    then show ?thesis by (cases m) (simp_all add: Cons work_defs hands_defs out)
  qed
  then have "(?x, x) \<in> work" by (simp add: work_def)
  then show ?thesis using advances_by [of "[]" L x x EnginePush ?x] out by auto
qed

lemma push_loop_pos: "xs \<noteq> [] \<Longrightarrow> push q (snd (hd xs)) \<noteq> None \<Longrightarrow> 0 < fst (push_loop push xs q)"
  by (cases xs) (auto split: prod.split)

lemma publish_shrinks:
  assumes "fifo_ok f" and "sort_spec srt" and "0 < pending_size f" and "\<And>r. push (fifo_requests f) r \<noteq> None"
  shows "pending_size (publishPendingOrders srt push f) < pending_size f"
proof -
  let ?n = "pending_size f"
  define v where "v = (if pending_sorted f then pending_orders f else srt (take ?n (pending_orders f)) @ drop ?n (pending_orders f))"
  have "length (srt xs) = length xs" for xs using assms(2) unfolding sort_spec_def by (metis size_mset)
  then have "length v = length (pending_orders f)" using assms(1) by (simp add: v_def fifo_ok_def)
  then have "take ?n v \<noteq> []" using assms(1,3) by (auto simp: fifo_ok_def)
  then have "0 < fst (push_loop push (take ?n v) (fifo_requests f))" using assms(4) by (intro push_loop_pos)
  with assms(3) show ?thesis
    by (auto simp: publishPendingOrders_def Let_def simp flip: v_def split: prod.split)
qed

lemma publish_pending:
  assumes inv: "x_inv v represents cap L V N c sz n x" and run: "running x" and w: "0 < w_pending x"
    and free: "w_responses x = 0" "w_requests x = 0" "w_sending x = 0"
  shows "\<exists>x'. advances L x x'"
proof -
  let ?y = "x\<lparr>gateway_at := Some Draining\<rparr>"
  obtain es where es: "list_all worker_event es" "steps (x_step L) es x = Some ?y" using to_draining [OF run] .
  have ch: "chan_ok (xl_responses L) (xv_responses V) (responseQ x)" "chan_ok (xl_requests L) (xv_requests V) (requestQ x)"
    and g: "fifo_ok (os_fifo (x_gateway x))" "sort_spec (xl_sort L)"
    using inv by (simp_all add: parts gw_inv_def)
  have "taken x = ch_read (requestQ x)"
    using free(3) by (auto simp: w_sending_def taken_def split: option.splits engine_pc.splits)
  then have "ch_unread (requestQ x) = []" using free(2) by (simp add: w_requests_def ch_unread_def)
  then have "ch_push (xl_requests L) (fifo_requests (os_fifo (x_gateway x))) r \<noteq> None" for r
    using chan_push_empty [OF ch(2)] unfolding requestQ_def by (metis option.distinct(1))
  then have less: "pending_size (publishPendingOrders (xl_sort L) (ch_push (xl_requests L)) (os_fifo (x_gateway x))) < w_pending x"
    using w unfolding w_pending_def by (intro publish_shrinks [OF g])
  have "ch_next (xl_responses L) (responseQ x) = None" using chan_next [OF ch(1)] free(1) by (simp add: w_responses_def)
  then have "(gateway_drain L 0 ?y, x) \<in> work" using less by (simp add: work_def gateway_drain_def) (simp add: w_pending_def)
  then show ?thesis using advances_by [OF es, of "GatewayDrain 0" "gateway_drain L 0 ?y"] by auto
qed

context order_book
begin

lemma take_request:
  assumes inv: "x_inv v represents cap L V N c sz n x" and run: "running x" and L: "xl_books L = ops"
    and adm: "admissible N c fits (ch_log (requestQ x))" and w: "0 < w_requests x" "w_sending x = 0"
  shows "\<exists>x'. advances L x x'"
proof -
  let ?y = "x\<lparr>engine_at := Some EPoll\<rparr>"
  obtain es where es: "list_all worker_event es" "steps (x_step L) es x = Some ?y"
    using to_polling(1) [OF run w(2)] by blast
  have idle: "taken x = ch_read (requestQ x)"
    using w(2) by (auto simp: w_sending_def taken_def split: option.splits engine_pc.splits)
  have ch: "chan_ok (xl_requests L) (xv_requests V) (requestQ x)" using inv by (simp add: parts)
  have "ch_unread (requestQ x) \<noteq> []" using w idle by (simp add: w_requests_def ch_unread_def)
  then obtain r where r: "ch_next (xl_requests L) (requestQ x) = Some r"
    using chan_next [OF ch] by (cases "ch_unread (requestQ x)") auto
  obtain e where e: "processClientRequest ops r (x_engine x) = Some e"
    "engine_rep represents cap (replicate N c) e (a_process v r (x_spec v N x))"
    using request_taken [OF inv adm idle r] by blast
  have "engine_out (x_engine x) = snd (x_spec v N x)" "engine_out e = snd (a_process v r (x_spec v N x))"
    using inv e(2) by (simp_all add: parts engine_rep_def)
  then obtain rs us where rs: "responses (engine_out e) = responses (engine_out (x_engine x)) @ rs"
    and us: "marketUpdates (engine_out e) = marketUpdates (engine_out (x_engine x)) @ us"
    using request_responses request_extends by (metis a_process_io)
  let ?out = "map Inl rs @ map Inr us"
  let ?x = "x\<lparr>x_engine := e, engine_at := Some (Sending ?out)\<rparr>"
  have "lefts ?out = rs" "rights ?out = us" by (rule outbox_split)+
  then have step: "engine_poll L ?out ?y = Some ?x" using e(1) rs us by (simp add: engine_poll_def r L)
  have "w_requests ?x < w_requests x" "w_pending ?x = w_pending x"
    using w(1) by (simp_all add: w_requests_def idle) (simp_all add: taken_def w_pending_def)
  then have "(?x, x) \<in> work" by (simp add: work_def)
  then show ?thesis using advances_by [OF es, of "EnginePoll ?out" ?x] step by auto
qed

lemma some_advance:
  assumes inv: "x_inv v represents cap L V N c sz n x" and run: "running x" and L: "xl_books L = ops"
    and adm: "admissible N c fits (ch_log (requestQ x))" and busy: "\<not> quiescent x"
  shows "\<exists>x'. advances L x x'"
proof -
  consider "0 < w_responses x" | "0 < w_snaps x" | "0 < w_pushing x" "w_snaps x = 0" | "0 < w_updates x" "w_pushing x = 0"
    | "0 < w_sending x" "w_responses x = 0" "w_updates x = 0" "w_pushing x = 0"
    | "0 < w_requests x" "w_sending x = 0"
    | "0 < w_pending x" "w_responses x = 0" "w_requests x = 0" "w_sending x = 0"
    using busy unfolding quiescent_def by blast
  then show ?thesis
    using take_response [OF inv run] take_snap [OF inv run] push_snap [OF inv] take_update [OF inv run] send_message [OF inv]
      take_request [OF inv run L adm] publish_pending [OF inv run] by cases
qed

lemma worker_steps_inv:
  assumes "steps (x_step L) es x = Some x'" and "list_all worker_event es" and "xl_books L = ops"
    and "x_inv v represents cap L V N c sz n x" and "life_ok x" and "running x" and "admissible N c fits (x_accepted x)"
  shows "x_inv v represents cap L V N c sz n x' \<and> life_ok x' \<and> running x' \<and> admissible N c fits (x_accepted x') \<and>
    mset (x_accepted x') = mset (x_accepted x)"
  using assms
proof (induction es arbitrary: x)
  case (Cons e es)
  obtain y where y: "x_step L e x = Some y" "steps (x_step L) es y = Some x'" using Cons.prems(1) by (auto split: Option.bind_splits)
  have e: "worker_event e" using Cons.prems(2) by simp
  have adm: "admissible N c fits (ch_log (requestQ x))"
    using Cons.prems(7) admissible_prefix by (auto simp: x_accepted_def accepted_def requestQ_def)
  have "x_inv v represents cap L V N c sz n y"
    using x_step_inv [of L V N c sz e n x, OF _ Cons.prems(5) adm Cons.prems(3)] Cons.prems(4) e y(1) by (simp add: worker_event_def)
  moreover have "admissible N c fits (x_accepted y)"
    using admissible_perm [OF accepted_step [OF e y(1) Cons.prems(4)]] Cons.prems(7) by simp
  ultimately show ?case
    using Cons.IH [OF y(2)] life_step [OF Cons.prems(5) y(1)] running_step [OF Cons.prems(6) e y(1)] Cons.prems(2,3)
      accepted_step [OF e y(1) Cons.prems(4)] by simp
qed simp

lemma works_off:
  assumes "x_inv v represents cap L V N c sz n x" and "life_ok x" and "running x" and "admissible N c fits (x_accepted x)"
    and "xl_books L = ops"
  shows "\<exists>es x'. list_all worker_event es \<and> steps (x_step L) es x = Some x' \<and> quiescent x' \<and> running x'"
  using assms(1-4)
proof (induction x rule: wf_induct_rule [OF wf_work])
  case (1 x)
  show ?case
  proof (cases "quiescent x")
    case True
    with 1 show ?thesis by (intro exI [of _ "[]"]) simp
  next
    case False
    have "admissible N c fits (ch_log (requestQ x))"
      using 1(5) admissible_prefix by (auto simp: x_accepted_def accepted_def requestQ_def)
    then obtain y es where y: "list_all worker_event es" "steps (x_step L) es x = Some y" "(y, x) \<in> work"
      using some_advance [OF 1(2,4) assms(5) _ False] by (auto simp: advances_def)
    note inv = worker_steps_inv [OF y(2,1) assms(5) 1(2-5)]
    from 1(1) [OF y(3)] inv obtain es' x' where
      "list_all worker_event es'" "steps (x_step L) es' y = Some x'" "quiescent x'" "running x'" by blast
    with y(1,2) show ?thesis by (intro exI [of _ "es @ es'"] exI [of _ x']) (simp add: steps_append)
  qed
qed

end

end
