(* ===== verification/Shutdown.thy ===== *)
theory Shutdown
  imports Progress
begin

text \<open>
  Stopping the exchange. An exchange with nothing left to do stops when asked to. One whose engine
  waits for room in the response queue does not: the gateway, the only consumer of that queue, has already been
  stopped, so the engine never leaves \<^verbatim>\<open>pushBlocking\<close> and the main thread never returns from joining it.
\<close>

section \<open>An idle exchange stops\<close>

definition stop_events :: "x_event list" where
  "stop_events = [Signal, MainStep, GatewayDrain 0, GatewayEndTurn, GatewayHead, MainStep, EnginePoll [], EngineHead, MainStep,
     PublisherPoll 0, PublisherHead, MainStep, StreamerApply, StreamerEndTurn, StreamerHead, MainStep]"

definition all_stopped :: "('b, 'r, 's, 'u, 'n) exchange \<Rightarrow> bool" where
  "all_stopped x \<longleftrightarrow> main_at x = Returned \<and> gateway_at x = None \<and> engine_at x = None \<and> publisher_at x = None \<and> streamer_at x = None"

lemma publish_nothing: "pending_size f = 0 \<Longrightarrow> publishPendingOrders srt push f = f"
  by (simp add: publishPendingOrders_def)

lemma quiescent_queues:
  assumes "x_inv v represents cap L V N c sz n x" and "quiescent x"
  shows "ch_next (xl_requests L) (requestQ x) = None" "ch_next (xl_responses L) (responseQ x) = None"
    "ch_next (xl_updates L) (marketUpdateQ x) = None" "ch_next (xl_snaps L) (streamerQ x) = None"
proof -
  have ch: "chan_ok (xl_requests L) (xv_requests V) (requestQ x)" "chan_ok (xl_responses L) (xv_responses V) (responseQ x)"
    "chan_ok (xl_updates L) (xv_updates V) (marketUpdateQ x)" "chan_ok (xl_snaps L) (xv_snaps V) (streamerQ x)"
    using assms(1) by (simp_all add: parts)
  have "taken x = ch_read (requestQ x)" "numbered_updates x = ch_read (marketUpdateQ x)"
    using assms(2) by (auto simp: quiescent_def w_sending_def w_pushing_def hands_defs split: option.splits engine_pc.splits publisher_pc.splits)
  then show "ch_next (xl_requests L) (requestQ x) = None" "ch_next (xl_responses L) (responseQ x) = None"
    "ch_next (xl_updates L) (marketUpdateQ x) = None" "ch_next (xl_snaps L) (streamerQ x) = None"
    using assms(2) by (auto simp: ch [THEN chan_next] quiescent_def work_defs ch_unread_def)
qed

lemma idle_stops:
  assumes inv: "x_inv v represents cap L V N c sz n x" and idle: "quiescent x" and run: "running x" "main_at x = Waiting"
  shows "\<exists>x'. steps (x_step L) stop_events x = Some x' \<and> all_stopped x'"
proof -
  note nx = quiescent_queues [OF inv idle]
  have pend: "pending_size (os_fifo (x_gateway x)) = 0" using idle by (simp add: quiescent_def w_pending_def)
  obtain pg pe pp ps where pc: "gateway_at x = Some pg" "engine_at x = Some pe" "publisher_at x = Some pp" "streamer_at x = Some ps"
    using run(1) by (auto simp: running_def)
  have "\<And>out. pe \<noteq> Sending out" "\<And>out. pp \<noteq> Pushing out"
    using idle by (auto simp: quiescent_def w_sending_def w_pushing_def pc)
  then have pos: "pe = EHead \<or> pe = EPoll" "pp = PHead \<or> pp = PPoll" by (cases pe; cases pp; simp)+
  define x1 where "x1 = x\<lparr>gateway_at := None, gateway_run := False, engine_run_flag := False, main_at := JoinEngine, g_running := False\<rparr>"
  have 1: "steps (x_step L) [Signal, MainStep, GatewayDrain 0, GatewayEndTurn, GatewayHead, MainStep] x = Some x1"
    by (cases pg) (simp_all add: x1_def sigHandler_def main_defs run(2) pc gateway_drain_def nx pend publish_nothing)
  define x2 where "x2 = x1\<lparr>engine_at := None, publisher_run_flag := False, main_at := JoinPublisher\<rparr>"
  have 2: "steps (x_step L) [EnginePoll [], EngineHead, MainStep] x1 = Some x2"
    using pos(1) by (auto simp: x1_def x2_def pc engine_poll_def nx main_defs)
  define x3 where "x3 = x2\<lparr>publisher_at := None, streamer_run_flag := False, main_at := JoinStreamer\<rparr>"
  have 3: "steps (x_step L) [PublisherPoll 0, PublisherHead, MainStep] x2 = Some x3"
    using pos(2) by (auto simp: x1_def x2_def x3_def pc publisher_poll_def nx main_defs)
  have 4: "steps (x_step L) [StreamerApply, StreamerEndTurn, StreamerHead, MainStep] x3 = Some (x3\<lparr>streamer_at := None, main_at := Returned\<rparr>)"
    by (cases ps) (simp_all add: x1_def x2_def x3_def pc streamer_apply_def nx main_defs)
  have split: "stop_events = [Signal, MainStep, GatewayDrain 0, GatewayEndTurn, GatewayHead, MainStep] @ [EnginePoll [], EngineHead, MainStep] @
      [PublisherPoll 0, PublisherHead, MainStep] @ [StreamerApply, StreamerEndTurn, StreamerHead, MainStep]"
    by (simp add: stop_events_def)
  have "steps (x_step L) stop_events x = Some (x3\<lparr>streamer_at := None, main_at := Returned\<rparr>)"
    unfolding split steps_append 1 2 3 4 Option.bind.bind_lunit by (rule refl)
  moreover have "all_stopped (x3\<lparr>streamer_at := None, main_at := Returned\<rparr>)"
    by (simp add: all_stopped_def x1_def x2_def x3_def)
  ultimately show ?thesis by blast
qed

section \<open>Queues are not drained\<close>

text \<open>A thread that tests its run flag after it was cleared ends, whatever its queue holds.\<close>

definition at_heads :: "('b, 'r, 's, 'u, 'n) exchange \<Rightarrow> bool" where
  "at_heads x \<longleftrightarrow> gateway_at x = Some GHead \<and> engine_at x = Some EHead \<and> publisher_at x = Some PHead \<and> streamer_at x = Some SHead"

definition quick_stop :: "x_event list" where
  "quick_stop = [Signal, MainStep, GatewayHead, MainStep, EngineHead, MainStep, PublisherHead, MainStep, StreamerHead, MainStep]"

lemma stop_stages:
  "gateway_at x = Some GHead \<Longrightarrow> main_at x = Waiting \<Longrightarrow> steps (x_step L) [Signal, MainStep, GatewayHead, MainStep] x =
     Some (x\<lparr>gateway_at := None, gateway_run := False, engine_run_flag := False, main_at := JoinEngine, g_running := False\<rparr>)"
  "engine_at x = Some EHead \<Longrightarrow> main_at x = JoinEngine \<Longrightarrow> \<not> engine_run_flag x \<Longrightarrow> steps (x_step L) [EngineHead, MainStep] x =
     Some (x\<lparr>engine_at := None, publisher_run_flag := False, main_at := JoinPublisher\<rparr>)"
  "publisher_at x = Some PHead \<Longrightarrow> main_at x = JoinPublisher \<Longrightarrow> \<not> publisher_run_flag x \<Longrightarrow> steps (x_step L) [PublisherHead, MainStep] x =
     Some (x\<lparr>publisher_at := None, streamer_run_flag := False, main_at := JoinStreamer\<rparr>)"
  "streamer_at x = Some SHead \<Longrightarrow> main_at x = JoinStreamer \<Longrightarrow> \<not> streamer_run_flag x \<Longrightarrow> steps (x_step L) [StreamerHead, MainStep] x =
     Some (x\<lparr>streamer_at := None, main_at := Returned\<rparr>)"
  by (simp_all add: sigHandler_def main_defs)

lemma quick_stop_leaves:
  assumes "at_heads x" and "main_at x = Waiting"
  obtains z where "steps (x_step L) quick_stop x = Some z" and "all_stopped z" and "requestQ z = requestQ x"
    and "responseQ z = responseQ x" and "marketUpdateQ z = marketUpdateQ x" and "streamerQ z = streamerQ x"
proof -
  note at = assms(1) [unfolded at_heads_def]
  define x1 where "x1 = x\<lparr>gateway_at := None, gateway_run := False, engine_run_flag := False, main_at := JoinEngine, g_running := False\<rparr>"
  define x2 where "x2 = x1\<lparr>engine_at := None, publisher_run_flag := False, main_at := JoinPublisher\<rparr>"
  define x3 where "x3 = x2\<lparr>publisher_at := None, streamer_run_flag := False, main_at := JoinStreamer\<rparr>"
  have "steps (x_step L) [Signal, MainStep, GatewayHead, MainStep] x = Some x1"
    unfolding x1_def by (rule stop_stages(1)) (use at assms(2) in simp_all)
  moreover have "steps (x_step L) [EngineHead, MainStep] x1 = Some x2"
    unfolding x2_def by (rule stop_stages(2)) (use at in \<open>simp_all add: x1_def\<close>)
  moreover have "steps (x_step L) [PublisherHead, MainStep] x2 = Some x3"
    unfolding x3_def by (rule stop_stages(3)) (use at in \<open>simp_all add: x1_def x2_def\<close>)
  moreover have "steps (x_step L) [StreamerHead, MainStep] x3 = Some (x3\<lparr>streamer_at := None, main_at := Returned\<rparr>)"
    by (rule stop_stages(4)) (use at in \<open>simp_all add: x1_def x2_def x3_def\<close>)
  moreover have split: "quick_stop = [Signal, MainStep, GatewayHead, MainStep] @ [EngineHead, MainStep] @ [PublisherHead, MainStep] @ [StreamerHead, MainStep]"
    by (simp add: quick_stop_def)
  ultimately have "steps (x_step L) quick_stop x = Some (x3\<lparr>streamer_at := None, main_at := Returned\<rparr>)"
    by (simp only: split steps_append Option.bind.bind_lunit)
  then show thesis by (rule that) (simp_all add: all_stopped_def x1_def x2_def x3_def)
qed

section \<open>An engine that waits for the stopped gateway\<close>

definition stuck :: "('b, 'r, 's, 'u, 'n) exchange_lib \<Rightarrow> ('b, 'r, 's, 'u, 'n) exchange \<Rightarrow> bool" where
  "stuck L x \<longleftrightarrow> main_at x = JoinEngine \<and> gateway_at x = None \<and>
     (case engine_at x of
        Some (Sending (Inl resp # out)) \<Rightarrow> ch_push (xl_responses L) (responseQ x) resp = None
      | _ \<Rightarrow> False)"

lemma stuck_iff:
  "stuck L x \<longleftrightarrow> main_at x = JoinEngine \<and> gateway_at x = None \<and>
     (\<exists>resp out. engine_at x = Some (Sending (Inl resp # out)) \<and> ch_push (xl_responses L) (responseQ x) resp = None)"
  by (auto simp: stuck_def split: option.splits engine_pc.splits list.splits sum.splits)

lemma stuck_step:
  assumes "stuck L x" and "x_step L e x = Some x'"
  shows "stuck L x'"
proof (cases e)
  case PublisherPush
  have "stuck L (publisher_push L out x)" for out using assms(1) by (cases out) (auto simp: stuck_iff split: option.split)
  with PublisherPush assms show ?thesis by (auto split: option.splits publisher_pc.splits)
qed (use assms in \<open>auto simp: stuck_iff main_defs sigHandler_def publisher_poll_def streamer_apply_def streamer_answer_def
    split: if_splits option.splits Option.bind_splits\<close>)

lemma stuck_steps: "stuck L x \<Longrightarrow> steps (x_step L) es x = Some x' \<Longrightarrow> stuck L x'"
  by (induction es arbitrary: x) (auto simp del: x_step.simps split: Option.bind_splits intro: stuck_step)

end
