(* ===== verification/ExchangeSpec.thy ===== *)
theory ExchangeSpec
  imports Shutdown
begin

text \<open>
  What the invariant says of the exchange as a whole: at every moment it is where a single thread would be
  that takes the requests one by one, and once nothing is on its way, the books, the messages to the clients
  and the shadow books of the streamer are those of all the requests.
\<close>

lemma steps_reach:
  assumes "steps (x_step L) es x = Some x'" and "x_reach L x0 k x"
  shows "x_reach L x0 (k + length (filter client_event es)) x'"
  using assms
proof (induction es arbitrary: x k)
  case (Cons e es)
  obtain y where y: "x_step L e x = Some y" "steps (x_step L) es y = Some x'" using Cons.prems(1) by (auto split: Option.bind_splits)
  show ?case
  proof (cases "client_event e")
    case True
    then obtain ev where "e = GatewayCallback ev" by (auto simp: client_event_def split: x_event.splits)
    then have "x_reach L x0 (Suc k) y" using x_reach.client [OF Cons.prems(2)] y(1) by simp
    with Cons.IH [OF y(2)] True show ?thesis by fastforce
  next
    case False
    with Cons.IH [OF y(2) x_reach.internal [OF Cons.prems(2) False y(1)]] show ?thesis by simp
  qed
qed simp

text \<open>While the main thread waits for a signal all threads run.\<close>

lemma waiting_running: "life_ok x \<Longrightarrow> main_at x = Waiting \<Longrightarrow> running x"
  by (simp add: life_ok_def flags_ok_def started_def running_def)

lemma main_only:
  assumes "x_step L e x = Some x'" and "e \<noteq> MainStep"
  shows "main_at x' = main_at x"
proof (cases "phase_event e")
  case True
  with assms(2) consider "e = GatewayHead" | "e = EngineHead" | "e = PublisherHead" | "e = StreamerHead"
    by (auto simp: phase_event_def)
  then show ?thesis using assms(1) by cases (auto split: if_splits)
qed (use other_events_phase [OF _ assms(1)] in \<open>simp add: same_phase_def\<close>)

lemma worker_main: "steps (x_step L) es x = Some x' \<Longrightarrow> list_all worker_event es \<Longrightarrow> main_at x' = main_at x"
proof (induction es arbitrary: x)
  case (Cons e es)
  then show ?case using main_only [of L e x] by (auto simp: worker_event_def simp del: x_step.simps split: Option.bind_splits)
qed simp

text \<open>The books, the messages and the shadow books at any moment.\<close>

lemma x_inv_books:
  assumes "x_inv v represents cap L V N c sz n x"
  shows "list_all2 represents (ticker_order_book (x_engine x)) (fst (x_spec v N x))"
    and "list_all abook_ok (fst (x_spec v N x))"
    and "ch_log (responseQ x) @ lefts (outbox x) = responses (snd (x_spec v N x))"
    and "ch_log (marketUpdateQ x) @ rights (outbox x) = marketUpdates (snd (x_spec v N x))"
  using assms by (auto simp: x_inv_def engine_inv_def engine_rep_def list_all2_conv_all_nth)

lemma x_inv_shadow:
  assumes inv: "x_inv v represents cap L V N c sz n x"
  shows "ch_read (streamerQ x) \<le> length (ch_log (marketUpdateQ x))"
    and "shadow_book (x_streamer x) = fold apply_update (take (ch_read (streamerQ x)) (marketUpdates (snd (x_spec v N x)))) (replicate N [])"
proof -
  obtain us where us: "ch_log (streamerQ x) = feed (xl_itch L) us" "length us \<le> length (ch_log (marketUpdateQ x))"
    "map fst us = take (length us) (ch_log (marketUpdateQ x))"
    using inv_feed [OF inv] by blast
  have r: "ch_read (streamerQ x) \<le> length (ch_log (streamerQ x))" using inv by (simp add: parts chan_ok_def)
  with us show "ch_read (streamerQ x) \<le> length (ch_log (marketUpdateQ x))" by simp
  have len: "length us \<le> length (marketUpdates (snd (x_spec v N x)))"
    using us(2) arg_cong [OF x_inv_books(4) [OF inv], of length] by simp
  have "map fst us = take (length us) (marketUpdates (snd (x_spec v N x)))"
    using us(2,3) by (simp flip: x_inv_books(4) [OF inv])
  then have "map su_update (take (ch_read (streamerQ x)) (ch_log (streamerQ x))) =
      take (ch_read (streamerQ x)) (marketUpdates (snd (x_spec v N x)))"
    using r us(1) by (simp add: feed_updates min_def flip: take_map)
  then show "shadow_book (x_streamer x) = fold apply_update (take (ch_read (streamerQ x)) (marketUpdates (snd (x_spec v N x)))) (replicate N [])"
    using inv by (simp add: parts)
qed

text \<open>The gateway's guarantees hold for everything it has queued.\<close>

lemma x_inv_requests:
  assumes "x_inv v represents cap L V N c sz n x"
  shows "list_all (owned_request (tokenManager (x_gateway x))) (ch_log (requestQ x))" and "distinct (introduced_ids (ch_log (requestQ x)))"
proof -
  have "ids_ok sz (tokenManager (x_gateway x)) (ch_log (requestQ x))"
    using assms ids_ok_prefix by (auto simp: x_inv_def gw_inv_def accepted_def requestQ_def)
  then show "list_all (owned_request (tokenManager (x_gateway x))) (ch_log (requestQ x))" "distinct (introduced_ids (ch_log (requestQ x)))"
    by (simp_all add: ids_ok_def)
qed

text \<open>With nothing on its way, everything that was accepted has been processed.\<close>

lemma quiescent_all:
  assumes inv: "x_inv v represents cap L V N c sz n x" and idle: "quiescent x"
  shows "outbox x = []" and "x_spec v N x = a_run v (map Some (x_accepted x)) (replicate N a_empty, engine_io0)"
    and "ch_read (responseQ x) = length (ch_log (responseQ x))"
    and "ch_read (streamerQ x) = length (ch_log (marketUpdateQ x))"
proof -
  show o: "outbox x = []"
    using idle by (auto simp: quiescent_def w_sending_def outbox_def split: option.splits engine_pc.splits)
  have "taken x = length (ch_log (requestQ x))" using inv idle by (simp add: quiescent_def w_requests_def parts)
  moreover have "x_accepted x = ch_log (requestQ x)"
    using idle by (simp add: x_accepted_def accepted_def requestQ_def quiescent_def w_pending_def pending_def)
  ultimately show "x_spec v N x = a_run v (map Some (x_accepted x)) (replicate N a_empty, engine_io0)" by (simp add: x_spec_def)
  have ch: "chan_ok (xl_responses L) (xv_responses V) (responseQ x)" "chan_ok (xl_snaps L) (xv_snaps V) (streamerQ x)"
    using inv by (simp_all add: parts)
  show "ch_read (responseQ x) = length (ch_log (responseQ x))"
    using idle ch(1) by (simp add: quiescent_def w_responses_def ch_unread_def chan_ok_def)
  have s: "snap_outbox x = []"
    using idle by (auto simp: quiescent_def w_pushing_def snap_outbox_def split: option.splits publisher_pc.splits)
  obtain us where us: "map fst us = take (numbered_updates x) (ch_log (marketUpdateQ x))" "published (xl_itch L) us (x_publisher x)"
    "streamer_updates (x_publisher x) = ch_log (streamerQ x) @ snap_outbox x"
    using inv by (auto simp: parts)
  have "numbered_updates x = length (ch_log (marketUpdateQ x))" using inv idle by (simp add: quiescent_def w_updates_def parts)
  then have "length (ch_log (streamerQ x)) = length (ch_log (marketUpdateQ x))"
    using us(2,3) s arg_cong [OF us(1), of length] by (auto simp: published_def)
  then show "ch_read (streamerQ x) = length (ch_log (marketUpdateQ x))"
    using idle ch(2) by (simp add: quiescent_def w_snaps_def ch_unread_def chan_ok_def)
qed

text \<open>
  If no request taken was one whose updates do not tell the whole story, the updates describe the books; and once nothing is on
  its way the shadow books show them.
\<close>

lemma x_inv_path:
  assumes inv: "x_inv v represents cap L V N c sz n x" and adm: "admissible N c fits (ch_log (requestQ x))"
    and safe: "feed_polls v (map Some (take (taken x) (ch_log (requestQ x)))) (replicate N a_empty, engine_io0)"
  shows "path_ok (replicate N []) (x_spec v N x)"
  unfolding x_spec_def
  by (rule run_path [OF _ inv_stream [OF inv adm] safe]) (use path_init in \<open>simp add: engine_io0_def\<close>)

lemma quiescent_mirror:
  assumes inv: "x_inv v represents cap L V N c sz n x" and idle: "quiescent x" and adm: "admissible N c fits (ch_log (requestQ x))"
    and safe: "feed_polls v (map Some (x_accepted x)) (replicate N a_empty, engine_io0)"
  shows "mirrored (fst (x_spec v N x)) (shadow_book (x_streamer x))"
proof -
  have "take (taken x) (ch_log (requestQ x)) = x_accepted x"
    using inv idle by (simp add: x_accepted_def accepted_def requestQ_def quiescent_def w_pending_def w_requests_def pending_def parts)
  with x_inv_path [OF inv adm] safe show ?thesis
    using x_inv_shadow(2) [OF inv] quiescent_all(1,4) [OF inv idle] x_inv_books(4) [OF inv] by (simp add: path_ok_def)
qed

context order_book
begin

text \<open>The invariant of an exchange built from empty books and empty queues.\<close>

lemma built_reach_inv:
  assumes "lib_ok L V" and "xv_requests V rq = []" "xv_responses V sq = []" "xv_updates V uq = []" "xv_snaps V nq = []"
    and "\<And>i. represents (mk_book i) a_empty" and "\<And>i. cap (mk_book i) = c" and "sz + 1 < 2 ^ 64" and "k + n < 2 ^ 64 - 1"
    and "x_reach L (exchange_init mk_book N f sz rq sq uq nq) k x"
    and "admissible N c fits (ch_log (requestQ x))" and "length (ch_log (marketUpdateQ x)) < 2 ^ 64 - 1" and "xl_books L = ops"
  shows "x_inv v represents cap L V N c sz n x"
  by (rule x_reach_inv [OF assms(10) x_init_inv [OF assms(1-9)] life_init assms(11-13)])

text \<open>No event has undefined behaviour in a state with the invariant.\<close>

lemma inv_defined:
  assumes "x_inv v represents cap L V N c sz 1 x" and "life_ok x" and "admissible N c fits (ch_log (requestQ x))"
    and "length (ch_log (marketUpdateQ x)) < 2 ^ 64 - 1" and "xl_books L = ops"
  shows "x_step L e x \<noteq> None"
proof -
  have "x_inv v represents cap L V N c sz (if client_event e then Suc 0 else 0) x"
    using assms(1) by (auto simp: x_inv_def gw_inv_def)
  with x_step_inv [OF this assms(2,3,5,4)] show ?thesis by blast
qed

text \<open>Work off everything, then stop.\<close>

lemma works_off_and_stops:
  assumes inv: "x_inv v represents cap L V N c sz n x" and life: "life_ok x" "main_at x = Waiting"
    and adm: "admissible N c fits (x_accepted x)" and L: "xl_books L = ops"
  obtains es y z where "list_all worker_event es" and "steps (x_step L) es x = Some y" and "quiescent y"
    and "mset (x_accepted y) = mset (x_accepted x)" and "x_inv v represents cap L V N c sz n y"
    and "steps (x_step L) stop_events y = Some z" and "all_stopped z"
proof -
  note run = waiting_running [OF life]
  obtain es y where y: "list_all worker_event es" "steps (x_step L) es x = Some y" "quiescent y" "running y"
    using works_off [OF inv life(1) run adm L] by blast
  have iy: "x_inv v represents cap L V N c sz n y" using worker_steps_inv [OF y(2,1) L inv life(1) run adm] by blast
  have "main_at y = Waiting" using worker_main [OF y(2,1)] life(2) by simp
  with idle_stops [OF iy y(3,4)] obtain z where "steps (x_step L) stop_events y = Some z" "all_stopped z" by blast
  with y iy that worker_steps_inv [OF y(2,1) L inv life(1) run adm] show thesis by blast
qed

end

end
