(* ===== verification/ExchangeSamples.thy ===== *)
theory ExchangeSamples
  imports ExchangeSpec Samples
begin

text \<open>
  A small exchange for the examples: one ticker, books with room for four orders, queues that are lists of
  bounded length, and runs of it that start the threads and let a client send an order.
\<close>

definition list_queue :: "nat \<Rightarrow> ('a, 'a list) spsc_ops" where
  "list_queue n = \<lparr>sp_push = (\<lambda>q x. if length q < n then Some (q @ [x]) else None), sp_next = first, sp_pop = tl\<rparr>"

lemma list_queue_spec: "0 < n \<Longrightarrow> spsc_spec (list_queue n) (\<lambda>q. q)"
  by (auto simp: spsc_spec_def list_queue_def)

type_synonym 'b list_lib = "('b, MEClientRequest list, MEClientResponse list, MEMarketUpdate list, SnapshotUpdate list) exchange_lib"
type_synonym 'b list_exchange = "('b, MEClientRequest list, MEClientResponse list, MEMarketUpdate list, SnapshotUpdate list) exchange"

text \<open>The queue of the responses has room for \<open>n\<close>.\<close>

definition sample_lib :: "'b book_ops \<Rightarrow> nat \<Rightarrow> 'b list_lib" where
  "sample_lib books n = \<lparr>xl_books = books, xl_ouch = sample_ouch, xl_itch = sample_itch, xl_sort = sample_sort,
     xl_iter = id, xl_requests = list_queue 4, xl_responses = list_queue n, xl_updates = list_queue 4, xl_snaps = list_queue 4\<rparr>"

definition sample_view :: "(MEClientRequest list, MEClientResponse list, MEMarketUpdate list, SnapshotUpdate list) exchange_view" where
  "sample_view = \<lparr>xv_requests = id, xv_responses = id, xv_updates = id, xv_snaps = id\<rparr>"

lemma sample_lib_ok: "0 < n \<Longrightarrow> lib_ok (sample_lib books n) sample_view"
  by (simp add: lib_ok_def sample_lib_def sample_view_def id_def list_queue_spec)

lemma sample_lib_ok4: "lib_ok (sample_lib books 4) sample_view"
  by (simp add: sample_lib_ok)

lemma sample_lib_books [simp]: "xl_books (sample_lib books n) = books"
  by (simp add: sample_lib_def)

text \<open>The exchange with any engine and any streamer: the runs below do not look into them, or only into the engine.\<close>

definition sample_with :: "'b engine \<Rightarrow> SnapshotStreamer \<Rightarrow> 'b list_exchange" where
  "sample_with e s =
    \<lparr>x_gateway = order_server_init 4 3 (ch_init []), x_engine = e,
     x_publisher = publisher_init, x_streamer = s, responseQ = ch_init [], marketUpdateQ = ch_init [], streamerQ = ch_init [],
     gateway_at = None, engine_at = None, publisher_at = None, streamer_at = None,
     gateway_run = False, engine_run_flag = False, publisher_run_flag = False, streamer_run_flag = False,
     main_at = StartStreamer, g_running = True\<rparr>"

lemma sample_init: "exchange_init mk_book 1 4 3 [] [] [] [] = sample_with (engine_init mk_book 1) (streamer_init 1)"
  by (simp add: sample_with_def exchange_init_def)

text \<open>A fill-and-kill order for 65 shares at price 65, which is accepted and, on an empty book, cancelled.\<close>

definition sample_packet :: "char list" where
  "sample_packet = ''O'' @ ''TOKEN000000001'' @ ''B'' @ ''AA'' @ [char_of (0 :: nat)]"

definition sample_start :: "x_event list" where
  "sample_start = [MainStep, MainStep, MainStep, MainStep, GatewayHead, GatewayDrain 0,
     GatewayCallback (ServerRecv (0, 5) 1 sample_packet), GatewayCallback ServerRecvFinished, EngineHead]"

lemma sample_queued:
  "map_option (\<lambda>x. (main_at x, map (\<lambda>r. (rq_ticker_id r, rq_price r, introduced r)) (x_accepted x), ch_log (marketUpdateQ x)))
     (steps (x_step (sample_lib books 4)) sample_start (sample_with e s)) = Some (Waiting, [(0, 65, [1])], [])"
  by code_simp

text \<open>What a run of the sample leads to, when the order is all that was accepted.\<close>

definition sample_ok :: "(Price \<Rightarrow> bool) \<Rightarrow> 'b list_exchange \<Rightarrow> bool" where
  "sample_ok fits x \<longleftrightarrow> admissible 1 4 fits (x_accepted x) \<and> ch_log (marketUpdateQ x) = [] \<and> main_at x = Waiting"

lemma sample_accepted:
  assumes "fits 65" and "map (\<lambda>r. (rq_ticker_id r, rq_price r, introduced r)) rs = [(0, 65, [1])]"
  shows "admissible 1 4 fits rs"
  using assms by (auto simp: admissible_def)

lemma sample_reached:
  assumes "fits 65"
  obtains x where "x_reach (sample_lib books 4) (exchange_init mk_book 1 4 3 [] [] [] []) 2 x" and "sample_ok fits x"
proof -
  obtain x where x: "steps (x_step (sample_lib books 4)) sample_start (exchange_init mk_book 1 4 3 [] [] [] []) = Some x"
    "main_at x = Waiting" "map (\<lambda>r. (rq_ticker_id r, rq_price r, introduced r)) (x_accepted x) = [(0, 65, [1])]" "ch_log (marketUpdateQ x) = []"
    using sample_queued [of books "engine_init mk_book 1" "streamer_init 1"] unfolding sample_init by auto
  have "0 + length (filter client_event sample_start) = 2" by (simp add: sample_start_def client_event_def)
  with steps_reach [OF x(1) x_reach.built] have "x_reach (sample_lib books 4) (exchange_init mk_book 1 4 3 [] [] [] []) 2 x" by metis
  moreover have "sample_ok fits x" using x(2,4) sample_accepted [of fits, OF assms x(3)] by (simp add: sample_ok_def)
  ultimately show thesis using that by blast
qed

text \<open>
  With room for one response: the engine sends the first report of the order and cannot send the second, and the exchange
  is asked to stop.
\<close>

declare level_loop.simps [code] sweep.simps [code]

definition sample_report :: "ResponseType \<Rightarrow> MEClientResponse" where
  "sample_report status = mk_response 1 0 1 1 BUY 65 65 FillAndKill status 0 65 65 OrderId_INVALID ''TOKEN000000001''"

definition sample_stop :: "x_event list" where
  "sample_stop = [EnginePoll [Inl (sample_report ACCEPTED), Inl (sample_report CANCELED)], EnginePush,
     Signal, MainStep, GatewayEndTurn, GatewayHead, MainStep]"

abbreviation "sample_maps \<equiv> map_book_ops LastValue free_pool"
abbreviation "sample_mk \<equiv> (\<lambda>i. map_book_init 4 i (fresh_pool 4))"

lemma sample_stuck:
  "map_option (stuck (sample_lib sample_maps 1))
     (steps (x_step (sample_lib sample_maps 1)) (sample_start @ sample_stop) (sample_with (engine_init sample_mk 1) s)) = Some True"
  by code_simp

lemma sample_exchange_stuck:
  obtains x where "steps (x_step (sample_lib sample_maps 1)) (sample_start @ sample_stop) (exchange_init sample_mk 1 4 3 [] [] [] []) = Some x"
    and "stuck (sample_lib sample_maps 1) x"
  using sample_stuck [of "streamer_init 1"] unfolding sample_init by auto

text \<open>With room for four: the engine sends both reports, and the gateway takes them.\<close>

definition sample_finish :: "x_event list" where
  "sample_finish = [EnginePoll [Inl (sample_report ACCEPTED), Inl (sample_report CANCELED)], EnginePush, EnginePush, EnginePush,
     GatewayEndTurn, GatewayHead, GatewayDrain 7, GatewayDrain 8]"

lemma sample_finished:
  "map_option (\<lambda>x. (main_at x, map (\<lambda>r. (rq_ticker_id r, rq_price r, introduced r)) (x_accepted x), ch_log (marketUpdateQ x), quiescent x,
       feed_polls MapBook (map Some (x_accepted x)) (replicate 1 a_empty, engine_io0)))
     (steps (x_step (sample_lib sample_maps 4)) (sample_start @ sample_finish) (sample_with (engine_init sample_mk 1) s)) =
   Some (Waiting, [(0, 65, [1])], [], True, True)"
  by code_simp

lemma sample_settled:
  obtains x where "x_reach (sample_lib sample_maps 4) (exchange_init sample_mk 1 4 3 [] [] [] []) 2 x" and "sample_ok (\<lambda>_. True) x"
    and "quiescent x" and "feed_polls MapBook (map Some (x_accepted x)) (replicate 1 a_empty, engine_io0)"
proof -
  obtain x where x: "steps (x_step (sample_lib sample_maps 4)) (sample_start @ sample_finish) (exchange_init sample_mk 1 4 3 [] [] [] []) = Some x"
    "main_at x = Waiting" "map (\<lambda>r. (rq_ticker_id r, rq_price r, introduced r)) (x_accepted x) = [(0, 65, [1])]" "ch_log (marketUpdateQ x) = []"
    "quiescent x" "feed_polls MapBook (map Some (x_accepted x)) (replicate 1 a_empty, engine_io0)"
    using sample_finished [of "streamer_init 1"] unfolding sample_init by auto
  have "0 + length (filter client_event (sample_start @ sample_finish)) = 2"
    by (simp add: sample_start_def sample_finish_def client_event_def)
  with steps_reach [OF x(1) x_reach.built] have "x_reach (sample_lib sample_maps 4) (exchange_init sample_mk 1 4 3 [] [] [] []) 2 x" by metis
  moreover have "sample_ok (\<lambda>_. True) x" using x(2,4) sample_accepted [of "\<lambda>_. True", OF _ x(3)] by (simp add: sample_ok_def)
  ultimately show thesis using that x by blast
qed

text \<open>The order is queued, and every thread is at the head of its loop.\<close>

definition sample_left :: "x_event list" where
  "sample_left = [MainStep, MainStep, MainStep, MainStep, GatewayHead, GatewayDrain 0,
     GatewayCallback (ServerRecv (0, 5) 1 sample_packet), GatewayCallback ServerRecvFinished, GatewayEndTurn]"

lemma sample_left_heads:
  "map_option (\<lambda>x. (main_at x, at_heads x, length (ch_unread (requestQ x)))) (steps (x_step (sample_lib books 4)) sample_left (sample_with e s)) =
   Some (Waiting, True, 1)"
  by code_simp

lemma sample_left_over:
  obtains x where "steps (x_step (sample_lib books 4)) sample_left (exchange_init mk_book 1 4 3 [] [] [] []) = Some x"
    and "main_at x = Waiting" and "at_heads x" and "length (ch_unread (requestQ x)) = 1"
  using sample_left_heads [of books "engine_init mk_book 1" "streamer_init 1"] unfolding sample_init by auto

text \<open>
  A good-till-cancel order, which rests: the engine reports it and announces it, the publisher sends the update on, and the streamer
  applies it. The ring of the streamer may hold anything.
\<close>

definition sample_rest :: "x_event list" where
  "sample_rest = [MainStep, MainStep, MainStep, MainStep, GatewayHead, GatewayDrain 0,
     GatewayCallback (ServerRecv (0, 5) 1 sample_enter), GatewayCallback ServerRecvFinished, EngineHead,
     EnginePoll [Inl (mk_response 1 0 1 1 BUY 65 65 GoodTillCancel ACCEPTED 0 65 65 OrderId_INVALID ''TOKEN000000001''),
       Inr (mk_update 0 1 U_ADD BUY 65 65 OrderId_INVALID OrderId_INVALID)],
     EnginePush, EnginePush, EnginePush, PublisherHead, PublisherPoll 3, PublisherPush, PublisherPush, StreamerHead, StreamerApply, StreamerApply]"

lemma sample_rested:
  "map_option (\<lambda>x. (map (\<lambda>r. (rq_ticker_id r, rq_price r, introduced r)) (x_accepted x), length (ch_log (marketUpdateQ x)),
       length (ch_log (responseQ x)), ch_read (streamerQ x), length (incremental_frames (x_publisher x)),
       feed_polls MapBook (map Some (take (taken x) (ch_log (requestQ x)))) (replicate 1 a_empty, engine_io0)))
     (steps (x_step (sample_lib sample_maps 4)) sample_rest (sample_with (engine_init sample_mk 1)
       \<lparr>shadow_book = [[]], last_seq_num = 0, dirty = False, replay_buffer = ring, snapshot_buf = []\<rparr>)) =
   Some ([(0, 65, [1])], 1, 1, 1, 1, True)"
  by code_simp

lemma sample_resting:
  obtains x where "x_reach (sample_lib sample_maps 4) (exchange_init sample_mk 1 4 3 [] [] [] []) 2 x"
    and "admissible 1 4 (\<lambda>_. True) (x_accepted x)" and "length (ch_log (marketUpdateQ x)) = 1" and "length (ch_log (responseQ x)) = 1"
    and "ch_read (streamerQ x) = 1" and "length (incremental_frames (x_publisher x)) = 1"
    and "feed_polls MapBook (map Some (take (taken x) (ch_log (requestQ x)))) (replicate 1 a_empty, engine_io0)"
proof -
  have "streamer_init 1 = \<lparr>shadow_book = [[]], last_seq_num = 0, dirty = False,
      replay_buffer = replicate REPLAY_CAPACITY empty_entry, snapshot_buf = []\<rparr>"
    by (simp add: streamer_init_def)
  with sample_rested [of "replicate REPLAY_CAPACITY empty_entry"] obtain x where
    x: "steps (x_step (sample_lib sample_maps 4)) sample_rest (exchange_init sample_mk 1 4 3 [] [] [] []) = Some x"
    "map (\<lambda>r. (rq_ticker_id r, rq_price r, introduced r)) (x_accepted x) = [(0, 65, [1])]" "length (ch_log (marketUpdateQ x)) = 1"
    "length (ch_log (responseQ x)) = 1" "ch_read (streamerQ x) = 1" "length (incremental_frames (x_publisher x)) = 1"
    "feed_polls MapBook (map Some (take (taken x) (ch_log (requestQ x)))) (replicate 1 a_empty, engine_io0)"
    unfolding sample_init by auto
  have "0 + length (filter client_event sample_rest) = 2" by (simp add: sample_rest_def client_event_def)
  with steps_reach [OF x(1) x_reach.built] have "x_reach (sample_lib sample_maps 4) (exchange_init sample_mk 1 4 3 [] [] [] []) 2 x" by metis
  with x sample_accepted [of "\<lambda>_. True", OF _ x(2)] that show thesis by blast
qed

end
