(* ===== verification/ExchangeTheorems.thy ===== *)
theory ExchangeTheorems
  imports ExchangeSamples
begin

text \<open>
  The properties of the exchange as \<^verbatim>\<open>main.cpp\<close> builds and runs it, for every interleaving of its threads. They follow
  from the interpretation of the locale \<open>order_book\<close> on the books and the facts on the exchange in
  ExchangeRuns, Progress, Shutdown and ExchangeSpec.
\<close>

section \<open>Exchanges with map books and with vector books\<close>

text \<open>The code outside the repository keeps its contracts, and the pool and the queues are new.\<close>

definition queues_new :: "('r, 's, 'u, 'n) exchange_view \<Rightarrow> 'r \<Rightarrow> 's \<Rightarrow> 'u \<Rightarrow> 'n \<Rightarrow> bool" where
  "queues_new V rq sq uq nq \<longleftrightarrow> xv_requests V rq = [] \<and> xv_responses V sq = [] \<and> xv_updates V uq = [] \<and> xv_snaps V nq = []"

definition pool_new :: "'p pool_ops \<Rightarrow> 'p pool_view \<Rightarrow> 'p \<Rightarrow> bool" where
  "pool_new ops pv pool \<longleftrightarrow> pool_spec ops pv \<and> pv_inv pv pool \<and> pv_live pv pool = {}"

definition map_exchange :: "nat \<Rightarrow> 'p \<Rightarrow> nat \<Rightarrow> nat \<Rightarrow> nat \<Rightarrow> 'r \<Rightarrow> 's \<Rightarrow> 'u \<Rightarrow> 'n \<Rightarrow> ('p map_book, 'r, 's, 'u, 'n) exchange" where
  "map_exchange psz pool = exchange_init (\<lambda>i. map_book_init psz i pool)"

definition vec_exchange :: "'p \<Rightarrow> nat \<Rightarrow> nat \<Rightarrow> nat \<Rightarrow> 'r \<Rightarrow> 's \<Rightarrow> 'u \<Rightarrow> 'n \<Rightarrow> ('p vector_book, 'r, 's, 'u, 'n) exchange" where
  "vec_exchange pool = exchange_init (\<lambda>i. vector_book_init i True pool)"

text \<open>
  How far a run may go: its requests name tickers that have books, prices that fit, and, all together, introduce no more orders
  than the pool of one book holds; the 64-bit counters of updates and of connections do not wrap. The code checks none of
  this: with a request for a ticker without a book the engine has no defined behaviour (\<open>process_unknown_ticker\<close>).
\<close>

definition in_limits :: "nat \<Rightarrow> nat \<Rightarrow> (Price \<Rightarrow> bool) \<Rightarrow> nat \<Rightarrow> ('b, 'r, 's, 'u, 'n) exchange \<Rightarrow> bool" where
  "in_limits N c fits k x \<longleftrightarrow> admissible N c fits (x_accepted x) \<and> length (ch_log (marketUpdateQ x)) < 2 ^ 64 - 1 \<and> k < 2 ^ 64 - 2"

lemma in_limits_queue: "in_limits N c fits k x \<Longrightarrow> admissible N c fits (ch_log (requestQ x))"
  using admissible_prefix by (auto simp: in_limits_def x_accepted_def accepted_def requestQ_def)

lemma map_exchange_inv:
  assumes "lib_ok L V" and "queues_new V rq sq uq nq" and "pool_new ops pv pool" and "sz + 1 < 2 ^ 64"
    and "xl_books L = map_book_ops LastValue ops"
    and "x_reach L (map_exchange psz pool N f sz rq sq uq nq) k x" and "in_limits N (pv_cap pv pool) (\<lambda>_. True) k x"
  shows "x_inv MapBook (map_represents ops pv) (\<lambda>b. pv_cap pv (bk_pool b)) L V N (pv_cap pv pool) sz 1 x" and "life_ok x"
proof -
  have init: "\<And>i. map_represents ops pv (map_book_init psz i pool) a_empty" "\<And>i. pv_cap pv (bk_pool (map_book_init psz i pool)) = pv_cap pv pool"
    using assms(3) map_represents_init by (auto simp: pool_new_def map_book_init_def)
  show "x_inv MapBook (map_represents ops pv) (\<lambda>b. pv_cap pv (bk_pool b)) L V N (pv_cap pv pool) sz 1 x"
    by (rule map_ob.built_reach_inv [OF assms(1) _ _ _ _ init assms(4) _ _ _ _ assms(5)])
      (use assms(2,6,7) in_limits_queue [OF assms(7)] in \<open>simp_all add: queues_new_def in_limits_def map_exchange_def\<close>)
  show "life_ok x" using life_reach [OF assms(6)] by (simp add: map_exchange_def life_init)
qed

lemma vec_exchange_inv:
  assumes "lib_ok L V" and "queues_new V rq sq uq nq" and "pool_new ops pv pool" and "sz + 1 < 2 ^ 64"
    and "xl_books L = vec_book_ops ops"
    and "x_reach L (vec_exchange pool N f sz rq sq uq nq) k x" and "in_limits N (pv_cap pv pool) fits_array k x"
  shows "x_inv VectorBook (vec_represents ops pv) (\<lambda>b. pv_cap pv (bk_pool b)) L V N (pv_cap pv pool) sz 1 x" and "life_ok x"
proof -
  have init: "\<And>i. vec_represents ops pv (vector_book_init i True pool) a_empty" "\<And>i. pv_cap pv (bk_pool (vector_book_init i True pool)) = pv_cap pv pool"
    using assms(3) vec_represents_init by (auto simp: pool_new_def vector_book_init_def)
  show "x_inv VectorBook (vec_represents ops pv) (\<lambda>b. pv_cap pv (bk_pool b)) L V N (pv_cap pv pool) sz 1 x"
    by (rule vec_ob.built_reach_inv [OF assms(1) _ _ _ _ init assms(4) _ _ _ _ assms(5)])
      (use assms(2,6,7) in_limits_queue [OF assms(7)] in \<open>simp_all add: queues_new_def in_limits_def vec_exchange_def\<close>)
  show "life_ok x" using life_reach [OF assms(6)] by (simp add: vec_exchange_def life_init)
qed

lemma sample_limits: "sample_ok fits x \<Longrightarrow> in_limits 1 (pv_cap free_pool_view (fresh_pool 4)) fits 2 x"
  by (simp add: sample_ok_def in_limits_def)

lemma sample_new: "queues_new sample_view [] [] [] []" "pool_new free_pool free_pool_view (fresh_pool 4)" "(3::nat) + 1 < 2 ^ 64"
  using free_pool_spec fresh_pool_ok [of 4] by (simp_all add: queues_new_def sample_view_def pool_new_def)

section \<open>Every interleaving\<close>

text \<open>
  C8. The exchange with map books under every interleaving of its threads and with any signals, within its limits: all tickers that
  clients name have books, and the run introduces no more orders than one pool holds (\<open>in_limits\<close>); a read of an
  erased map node yields its last value (\<open>LastValue\<close>, see C23). Then no step of any thread has undefined behaviour or fails an assertion, the queued requests name only orders of the client that sent them and no
  two introduce the same order, and the exchange is where one thread would be that processes, in the
  order in which they were queued, the requests the engine has taken. Its books are well formed and are those of that run; what was sent
  to the clients and to the publisher, with what the engine is about to send, are the messages of that run; the shadow
  books of the streamer are those of a prefix of its updates.
\<close>

theorem exchange_linear:
  assumes "lib_ok L V" and "queues_new V rq sq uq nq" and "pool_new ops pv pool" and "sz + 1 < 2 ^ 64"
    and "xl_books L = map_book_ops LastValue ops"
    and "x_reach L (map_exchange psz pool N f sz rq sq uq nq) k x" and "in_limits N (pv_cap pv pool) (\<lambda>_. True) k x"
  shows "(\<forall>e. x_step L e x \<noteq> None) \<and>
    list_all (owned_request (tokenManager (x_gateway x))) (ch_log (requestQ x)) \<and> distinct (introduced_ids (ch_log (requestQ x))) \<and>
    (\<exists>As io. a_run MapBook (map Some (take (taken x) (ch_log (requestQ x)))) (replicate N a_empty, engine_io0) = (As, io) \<and>
      list_all abook_ok As \<and> list_all2 (map_represents ops pv) (ticker_order_book (x_engine x)) As \<and>
      ch_log (responseQ x) @ lefts (outbox x) = responses io \<and>
      ch_log (marketUpdateQ x) @ rights (outbox x) = marketUpdates io \<and>
      shadow_book (x_streamer x) = fold apply_update (take (ch_read (streamerQ x)) (marketUpdates io)) (replicate N []))"
proof -
  note inv = map_exchange_inv [OF assms]
  have "length (ch_log (marketUpdateQ x)) < 2 ^ 64 - 1" using assms(7) by (simp add: in_limits_def)
  then have "\<forall>e. x_step L e x \<noteq> None"
    by (intro allI map_ob.inv_defined [OF inv in_limits_queue [OF assms(7)] _ assms(5)])
  then show ?thesis
    using x_inv_requests [OF inv(1)] x_inv_books [OF inv(1)] x_inv_shadow(2) [OF inv(1)] by (cases "x_spec MapBook N x") (simp add: x_spec_def)
qed

theorem exchange_linear_witness:
  "\<exists>x As io. x_reach (sample_lib sample_maps 4) (map_exchange 4 (fresh_pool 4) 1 4 3 [] [] [] []) 2 x \<and>
    x_step (sample_lib sample_maps 4) (EnginePoll []) x \<noteq> None \<and>
    a_run MapBook (map Some (take (taken x) (ch_log (requestQ x)))) (replicate 1 a_empty, engine_io0) = (As, io) \<and>
    list_all2 (map_represents free_pool free_pool_view) (ticker_order_book (x_engine x)) As"
proof -
  obtain x where x: "x_reach (sample_lib sample_maps 4) (map_exchange 4 (fresh_pool 4) 1 4 3 [] [] [] []) 2 x" "sample_ok (\<lambda>_. True) x"
    unfolding map_exchange_def by (rule sample_reached [of "\<lambda>_. True"]) simp
  from exchange_linear [OF sample_lib_ok4 sample_new sample_lib_books x(1) sample_limits [OF x(2)]] x(1) show ?thesis by blast
qed

text \<open>
  C9. The exchange with vector books under every interleaving of its threads, within its limits: all tickers that clients name have books, all
  prices lie inside the arrays, and the run introduces no more orders than one pool holds (\<open>in_limits\<close>). Then, as in C8, no step of any thread has
  undefined behaviour or fails an assertion, the queued requests name only orders of their clients and introduce each order once,
  and books, messages and shadow books are those of one thread that processes the requests the engine has taken.
\<close>

theorem vec_exchange_linear:
  assumes "lib_ok L V" and "queues_new V rq sq uq nq" and "pool_new ops pv pool" and "sz + 1 < 2 ^ 64"
    and "xl_books L = vec_book_ops ops"
    and "x_reach L (vec_exchange pool N f sz rq sq uq nq) k x" and "in_limits N (pv_cap pv pool) fits_array k x"
  shows "(\<forall>e. x_step L e x \<noteq> None) \<and>
    list_all (owned_request (tokenManager (x_gateway x))) (ch_log (requestQ x)) \<and> distinct (introduced_ids (ch_log (requestQ x))) \<and>
    (\<exists>As io. a_run VectorBook (map Some (take (taken x) (ch_log (requestQ x)))) (replicate N a_empty, engine_io0) = (As, io) \<and>
      list_all abook_ok As \<and> list_all2 (vec_represents ops pv) (ticker_order_book (x_engine x)) As \<and>
      ch_log (responseQ x) @ lefts (outbox x) = responses io \<and>
      ch_log (marketUpdateQ x) @ rights (outbox x) = marketUpdates io \<and>
      shadow_book (x_streamer x) = fold apply_update (take (ch_read (streamerQ x)) (marketUpdates io)) (replicate N []))"
proof -
  note inv = vec_exchange_inv [OF assms]
  have "length (ch_log (marketUpdateQ x)) < 2 ^ 64 - 1" using assms(7) by (simp add: in_limits_def)
  then have "\<forall>e. x_step L e x \<noteq> None"
    by (intro allI vec_ob.inv_defined [OF inv in_limits_queue [OF assms(7)] _ assms(5)])
  then show ?thesis
    using x_inv_requests [OF inv(1)] x_inv_books [OF inv(1)] x_inv_shadow(2) [OF inv(1)] by (cases "x_spec VectorBook N x") (simp add: x_spec_def)
qed

theorem vec_exchange_linear_witness:
  "\<exists>x. x_reach (sample_lib (vec_book_ops free_pool) 4) (vec_exchange (fresh_pool 4) 1 4 3 [] [] [] []) 2 x \<and>
    x_step (sample_lib (vec_book_ops free_pool) 4) (EnginePoll []) x \<noteq> None"
proof -
  obtain x where x: "x_reach (sample_lib (vec_book_ops free_pool) 4) (vec_exchange (fresh_pool 4) 1 4 3 [] [] [] []) 2 x" "sample_ok fits_array x"
    unfolding vec_exchange_def by (rule sample_reached [of fits_array]) (simp_all add: fits_array_def MAX_PRICE_LEVELS_def)
  from vec_exchange_linear [OF sample_lib_ok4 sample_new sample_lib_books x(1) sample_limits [OF x(2)]] x(1) show ?thesis by blast
qed

text \<open>
  C10. When nothing is pending, queued or in a thread's hands, the map-book exchange within its limits (\<open>in_limits\<close>, \<open>LastValue\<close>) has done all its work: books and messages
  are those of all accepted requests, every response has been taken for sending, and, if no request was one
  of those after which the feed lags the book, the shadow books show the books.
\<close>

theorem exchange_settled:
  assumes "lib_ok L V" and "queues_new V rq sq uq nq" and "pool_new ops pv pool" and "sz + 1 < 2 ^ 64"
    and "xl_books L = map_book_ops LastValue ops"
    and "x_reach L (map_exchange psz pool N f sz rq sq uq nq) k x" and "in_limits N (pv_cap pv pool) (\<lambda>_. True) k x"
    and "quiescent x"
  shows "\<exists>As io. a_run MapBook (map Some (x_accepted x)) (replicate N a_empty, engine_io0) = (As, io) \<and>
    list_all2 (map_represents ops pv) (ticker_order_book (x_engine x)) As \<and>
    ch_log (responseQ x) = responses io \<and> ch_unread (responseQ x) = [] \<and> ch_log (marketUpdateQ x) = marketUpdates io \<and>
    (feed_polls MapBook (map Some (x_accepted x)) (replicate N a_empty, engine_io0) \<longrightarrow> mirrored As (shadow_book (x_streamer x)))"
proof -
  note inv = map_exchange_inv(1) [OF assms(1-7)]
  note all = quiescent_all [OF inv assms(8)]
  show ?thesis
    using x_inv_books [OF inv] all(1,3) quiescent_mirror [OF inv assms(8) in_limits_queue [OF assms(7)]]
    by (cases "x_spec MapBook N x") (simp add: all(2) ch_unread_def)
qed

theorem exchange_settled_witness:
  "\<exists>x As io. x_reach (sample_lib sample_maps 4) (map_exchange 4 (fresh_pool 4) 1 4 3 [] [] [] []) 2 x \<and> quiescent x \<and>
    a_run MapBook (map Some (x_accepted x)) (replicate 1 a_empty, engine_io0) = (As, io) \<and>
    ch_unread (responseQ x) = [] \<and> ch_log (responseQ x) = responses io \<and> mirrored As (shadow_book (x_streamer x))"
proof -
  obtain x where x: "x_reach (sample_lib sample_maps 4) (map_exchange 4 (fresh_pool 4) 1 4 3 [] [] [] []) 2 x" "sample_ok (\<lambda>_. True) x"
    "quiescent x" "feed_polls MapBook (map Some (x_accepted x)) (replicate 1 a_empty, engine_io0)"
    unfolding map_exchange_def by (rule sample_settled)
  from exchange_settled [OF sample_lib_ok4 sample_new sample_lib_books x(1) sample_limits [OF x(2)] x(3)] x show ?thesis by blast
qed

section \<open>Progress and shutdown\<close>

text \<open>
  C11. The threads do not deadlock: from every reachable state of a map-book exchange within its limits (\<open>in_limits\<close>: every request names a ticker
  with a book, and no more orders are introduced than one pool holds; \<open>LastValue\<close>) in which the exchange runs, its threads alone, with no help
  from clients, can finish all the work, whatever the capacities of the queues, and losing no request; and the
  exchange then stops on a signal, every thread joined.
\<close>

theorem exchange_progress:
  assumes "lib_ok L V" and "queues_new V rq sq uq nq" and "pool_new ops pv pool" and "sz + 1 < 2 ^ 64"
    and "xl_books L = map_book_ops LastValue ops"
    and "x_reach L (map_exchange psz pool N f sz rq sq uq nq) k x" and "in_limits N (pv_cap pv pool) (\<lambda>_. True) k x"
    and "main_at x = Waiting"
  shows "\<exists>es y z. list_all worker_event es \<and> steps (x_step L) es x = Some y \<and> quiescent y \<and>
    mset (x_accepted y) = mset (x_accepted x) \<and> steps (x_step L) stop_events y = Some z \<and> all_stopped z"
proof -
  note inv = map_exchange_inv [OF assms(1-7)]
  have "admissible N (pv_cap pv pool) (\<lambda>_. True) (x_accepted x)" using assms(7) by (simp add: in_limits_def)
  from map_ob.works_off_and_stops [OF inv assms(8) this assms(5)] show ?thesis by blast
qed

theorem exchange_progress_witness:
  "\<exists>x es y z. x_reach (sample_lib sample_maps 4) (map_exchange 4 (fresh_pool 4) 1 4 3 [] [] [] []) 2 x \<and>
    steps (x_step (sample_lib sample_maps 4)) es x = Some y \<and> quiescent y \<and>
    steps (x_step (sample_lib sample_maps 4)) stop_events y = Some z \<and> all_stopped z"
proof -
  obtain x where x: "x_reach (sample_lib sample_maps 4) (map_exchange 4 (fresh_pool 4) 1 4 3 [] [] [] []) 2 x" "sample_ok (\<lambda>_. True) x"
    unfolding map_exchange_def by (rule sample_reached [of "\<lambda>_. True"]) simp
  have "main_at x = Waiting" using x(2) by (simp add: sample_ok_def)
  from exchange_progress [OF sample_lib_ok4 sample_new sample_lib_books x(1) sample_limits [OF x(2)] this] x(1) show ?thesis by blast
qed

text \<open>
  C16. Stopping can hang: once the gateway has been joined while the engine waits for room in the full response
  queue, whatever happens afterwards, the engine does not leave \<^verbatim>\<open>pushBlocking\<close> and the main thread does not
  return from joining it.
\<close>

theorem shutdown_hangs:
  assumes "stuck L x" and "steps (x_step L) es x = Some x'"
  shows "main_at x' = JoinEngine \<and> engine_at x' \<noteq> None \<and> engine_at x' \<noteq> Some EHead"
  using stuck_steps [OF assms] by (auto simp: stuck_iff)

text \<open>The state is reachable: a fill-and-kill order has two reports, the response queue room for one.\<close>

theorem shutdown_hangs_witness:
  "\<exists>x. steps (x_step (sample_lib sample_maps 1)) (sample_start @ sample_stop) (exchange_init sample_mk 1 4 3 [] [] [] []) = Some x \<and>
    (\<forall>x'. steps (x_step (sample_lib sample_maps 1)) [EnginePush, EngineHead, MainStep] x = Some x' \<longrightarrow> main_at x' = JoinEngine)"
proof -
  obtain x where "steps (x_step (sample_lib sample_maps 1)) (sample_start @ sample_stop) (exchange_init sample_mk 1 4 3 [] [] [] []) = Some x" "stuck (sample_lib sample_maps 1) x"
    by (rule sample_exchange_stuck)
  then show ?thesis using shutdown_hangs [of "sample_lib sample_maps 1" x "[EnginePush, EngineHead, MainStep]"] by blast
qed

text \<open>
  C17. Stopping does not drain the queues: if each thread is about to test its run flag when the signal comes, the exchange
  stops, every thread joined, and the requests, responses and updates that were queued stay where they are,
  requests the gateway has accepted among them.
\<close>

theorem shutdown_leaves_queues:
  assumes "at_heads x" and "main_at x = Waiting"
  shows "\<exists>z. steps (x_step L) quick_stop x = Some z \<and> all_stopped z \<and> ch_unread (requestQ z) = ch_unread (requestQ x) \<and>
    ch_unread (responseQ z) = ch_unread (responseQ x) \<and> ch_unread (marketUpdateQ z) = ch_unread (marketUpdateQ x) \<and>
    ch_unread (streamerQ z) = ch_unread (streamerQ x)"
  using quick_stop_leaves [OF assms, of L] by metis

theorem shutdown_leaves_queues_witness:
  "\<exists>x z. steps (x_step (sample_lib sample_maps 4)) sample_left (exchange_init sample_mk 1 4 3 [] [] [] []) = Some x \<and>
    steps (x_step (sample_lib sample_maps 4)) quick_stop x = Some z \<and> all_stopped z \<and> length (ch_unread (requestQ z)) = 1"
proof -
  obtain x where x: "steps (x_step (sample_lib sample_maps 4)) sample_left (exchange_init sample_mk 1 4 3 [] [] [] []) = Some x"
    "main_at x = Waiting" "at_heads x" "length (ch_unread (requestQ x)) = 1"
    by (rule sample_left_over)
  from shutdown_leaves_queues [OF x(3,2), of "sample_lib sample_maps 4"] x(1,4) show ?thesis by metis
qed

text \<open>
  C18. Lifetimes nest: while the gateway runs so does the engine, while the engine runs so does the publisher,
  while the publisher runs so does the streamer; so every thread that fills a queue ends before the thread that empties it,
  with one exception, the responses; and when \<^verbatim>\<open>main\<close> returns no thread is left.
\<close>

theorem thread_lifetimes:
  assumes "x_reach L (exchange_init mk_book N f sz rq sq uq nq) k x"
  shows "(gateway_at x \<noteq> None \<longrightarrow> engine_at x \<noteq> None) \<and> (engine_at x \<noteq> None \<longrightarrow> publisher_at x \<noteq> None) \<and>
    (publisher_at x \<noteq> None \<longrightarrow> streamer_at x \<noteq> None) \<and> (main_at x = Returned \<longrightarrow> streamer_at x = None)"
  using life_reach [OF assms life_init] by (cases "main_at x") (auto simp: life_ok_def flags_ok_def started_def)

theorem thread_lifetimes_witness:
  "\<exists>x. x_reach (sample_lib sample_maps 4) (exchange_init sample_mk 1 4 3 [] [] [] []) 2 x \<and> main_at x = Waiting \<and>
    (gateway_at x \<noteq> None \<longrightarrow> engine_at x \<noteq> None)"
proof -
  obtain x where x: "x_reach (sample_lib sample_maps 4) (exchange_init sample_mk 1 4 3 [] [] [] []) 2 x" "sample_ok (\<lambda>_. True) x"
    by (rule sample_reached [of "\<lambda>_. True"]) simp
  with thread_lifetimes [OF x(1)] show ?thesis by (auto simp: sample_ok_def)
qed

end
