(* ===== verification/MessageTypes.thy ===== *)
theory MessageTypes
  imports Gateway Feed
begin

text \<open>
  The types of the messages beyond their widths. In memory a price has 64 bits, on both wires it has 32; a token
  has 14 characters; which fields of a request mean anything depends on its action. \<open>request_typed\<close>,
  \<open>order_typed\<close>, \<open>response_typed\<close> and \<open>update_typed\<close> say what every message and every resting order
  of the exchange satisfies: decoding establishes it, the order books keep it, and it is what makes both encoders lose nothing.
\<close>

definition price32 :: "Price \<Rightarrow> bool" where
  "price32 p \<longleftrightarrow> unat p < 2 ^ 32"

definition token_typed :: "OrderToken \<Rightarrow> bool" where
  "token_typed tok \<longleftrightarrow> length tok \<le> OUCH_TOKEN_LEN"

text \<open>A new order has no second id, a cancel only an id, a quantity and a token, a replacement no side.\<close>

definition request_typed :: "MEClientRequest \<Rightarrow> bool" where
  "request_typed r \<longleftrightarrow> price32 (rq_price r) \<and> token_typed (rq_order_token r) \<and> rq_client_order_id r \<noteq> 0 \<and>
    (case rq_action r of
       NEW \<Rightarrow> rq_new_client_order_id r = 0
     | CANCEL \<Rightarrow> rq_new_client_order_id r = 0 \<and> rq_price r = 0 \<and> rq_type r = GoodTillCancel \<and> rq_side r = BUY
     | MODIFY \<Rightarrow> rq_new_client_order_id r \<noteq> 0 \<and> rq_side r = BUY)"

definition order_typed :: "MEOrder \<Rightarrow> bool" where
  "order_typed r \<longleftrightarrow> price32 (mo_price r) \<and> token_typed (mo_order_token r)"

definition book_typed :: "abook \<Rightarrow> bool" where
  "book_typed A \<longleftrightarrow> list_all order_typed (a_orders A)"

text \<open>A rejection may carry \<open>Price_INVALID\<close>, which has 64 bits and which no message shows; nothing else may.\<close>

definition response_price :: "ResponseType \<Rightarrow> Price \<Rightarrow> bool" where
  "response_price status p \<longleftrightarrow> price32 p \<or> status = CANCEL_REJECTED \<and> p = Price_INVALID"

definition response_typed :: "MEClientResponse \<Rightarrow> bool" where
  "response_typed r \<longleftrightarrow> token_typed (rs_order_token r) \<and>
     response_price (rs_status r) (rs_price r) \<and> response_price (rs_status r) (rs_execution_price r)"

definition update_typed :: "MEMarketUpdate \<Rightarrow> bool" where
  "update_typed u \<longleftrightarrow> encodable u \<and> price32 (mu_price u)"

definition io_typed :: "engine_io \<Rightarrow> bool" where
  "io_typed io \<longleftrightarrow> list_all response_typed (responses io) \<and> list_all update_typed (marketUpdates io)"

section \<open>Decoding establishes it\<close>

lemma price32_ucast [simp]: "price32 (ucast (p :: uint32))"
  using unsigned_less [of p, where 'a = nat] by (simp add: price32_def unsigned_ucast_eq take_bit_nat_eq_self)

lemma price32_0 [simp]: "price32 0"
  by (simp add: price32_def)

lemma token_take [simp]: "token_typed (take OUCH_TOKEN_LEN tok)"
  by (simp add: token_typed_def)

lemma decode_typed:
  assumes "decodeOuch lib d c m = Some (flag, req, m')" and flag
  shows "request_typed req"
proof -
  obtain t ds where "d = t # ds" using assms(1) by (cases d) (auto simp: decodeOuch_def)
  with assms show ?thesis
    by (auto simp: decodeOuch_def Let_def request_typed_def default_request_def split: if_splits prod.splits)
qed

lemma gw_decode_typed:
  assumes "gw_decode lib cid d m = Some (rest, m', rs)"
  shows "list_all request_typed rs"
  using assms
proof (induction d arbitrary: m rs rule: framing_induct [where lib = lib])
  case (message c ds)
  obtain flag req m1 rs1 where dec: "decodeOuch lib (c # ds) cid m = Some (flag, req, m1)"
    "gw_decode lib cid (drop (ouchMsgSize lib c) (c # ds)) m1 = Some (rest, m', rs1)" "rs = (if flag then req # rs1 else rs1)"
    using message.prems message.hyps by (auto simp: gw_decode_steps Let_def split: Option.bind_splits)
  then show ?case using message.IH [OF dec(2)] decode_typed [OF dec(1)] by simp
qed (auto simp: gw_decode_steps)

section \<open>The books keep it\<close>

lemma book_typed_sides: "book_typed A \<longleftrightarrow> list_all order_typed (a_side s A) \<and> list_all order_typed (a_side (opposite s) A)"
  by (cases s) (auto simp: book_typed_def a_orders_def)

lemma book_typed_counter [simp]: "book_typed (A\<lparr>ab_next := n\<rparr>) = book_typed A"
  by (simp add: book_typed_def)

lemma order_typed_quantity [simp]: "order_typed (r\<lparr>mo_remainingQuantity := q\<rparr>) = order_typed r"
  by (simp add: order_typed_def)

lemma typed_leave: "list_all order_typed L \<Longrightarrow> list_all order_typed (a_leave t q L)"
  by (auto simp: list_all_iff dest!: a_leave_set)

lemma typed_fills: "list_all order_typed L \<Longrightarrow> list_all (\<lambda>x. order_typed (fst x)) (a_fills t q L)"
  using arg_cong [OF a_fills_prefix [of t q L], of set] by (fastforce simp: list_all_iff dest: in_set_takeD)

text \<open>An incoming order, as \<^verbatim>\<open>match\<close> and \<^verbatim>\<open>insert\<close> see it.\<close>

definition args_typed :: "order_args \<Rightarrow> bool" where
  "args_typed t \<longleftrightarrow> price32 (oa_price t) \<and> token_typed (oa_orderToken t)"

lemma fills_typed:
  assumes "list_all (\<lambda>x. order_typed (fst x)) fs" and "args_typed t"
  shows "list_all response_typed (fill_responses t q m fs)" and "list_all update_typed (fill_updates v t m fs)"
  using assms
  by (induction fs arbitrary: q m)
    (auto simp: resting_fill_def incoming_fill_def trade_update_def rec_defs response_typed_def response_price_def update_typed_def
      order_typed_def args_typed_def encodable_def)

lemma own_report_typed: "args_typed t \<Longrightarrow> response_typed (own_report t status q)"
  by (simp add: own_report_def mk_response_def response_typed_def response_price_def args_typed_def)

lemma io_typed_send [simp]:
  "io_typed (sendClientResponse r io) \<longleftrightarrow> response_typed r \<and> io_typed io"
  "io_typed (sendMarketUpdate u io) \<longleftrightarrow> update_typed u \<and> io_typed io"
  by (auto simp: io_typed_def)

lemma finish_typed:
  assumes A: "book_typed A" and t: "args_typed t" and io: "io_typed io"
    and f: "\<And>q io. io_typed io \<Longrightarrow> io_typed (f q io)" and g: "\<And>q io. io_typed io \<Longrightarrow> io_typed (g q io)"
  shows "book_typed (fst (a_finish v t f g A io))" and "io_typed (snd (a_finish v t f g A io))"
proof -
  let ?o = "opposite (oa_side t)"
  have L: "list_all order_typed (a_side (oa_side t) A)" "list_all order_typed (a_side ?o A)"
    using A book_typed_sides [of A "oa_side t"] by simp_all
  have B: "book_typed (in_book t A)"
    using L typed_leave [OF L(2)] by (simp add: book_typed_sides [of _ "oa_side t"] in_book_def)
  moreover have "order_typed (order_of t q)" for q using t by (simp add: order_typed_def args_typed_def rec_defs)
  ultimately have "book_typed (a_rest t q (in_book t A))" for q
    by (auto simp: book_typed_sides [of _ "oa_side t"] a_rest_def list_all_iff)
  with B show "book_typed (fst (a_finish v t f g A io))" by (simp add: a_finish_def a_take_log split: OrderType.split)
  note F = fills_typed [OF typed_fills [OF L(2)] t]
  have "io_typed (snd (snd (a_take v t A io)))" using io F by (simp add: a_take_log io_typed_def in_fills_def)
  with f g show "io_typed (snd (a_finish v t f g A io))"
    by (simp add: a_finish_def a_take_log split: OrderType.split)
qed

lemma reject_typed: "token_typed tok \<Longrightarrow> response_typed (reject_response tick c k tok)"
  by (simp add: response_typed_def response_price_def rec_defs)

lemma find_typed: "book_typed A \<Longrightarrow> a_find c k A = Some r \<Longrightarrow> order_typed r"
  by (auto simp: a_find_def book_typed_def list_all_iff dest: find_SomeD)

lemma drop_typed: "book_typed A \<Longrightarrow> book_typed (a_drop c k A)"
  by (auto simp: book_typed_def a_orders_def a_drop_def list_all_iff)

lemma shrink_typed: "book_typed A \<Longrightarrow> book_typed (a_shrink c k q A)"
  by (auto simp: book_typed_def a_orders_def a_shrink_def Let_def list_all_iff)

lemma update_typed_mk [simp]:
  "update_typed (mk_update t m ty s p q n x) \<longleftrightarrow> ty \<in> {U_ADD, U_CANCEL, U_MODIFY, U_TRADE} \<and> price32 p"
  by (simp add: update_typed_def encodable_def mk_update_def)

lemma cancel_typed:
  assumes "book_typed A" and "io_typed io" and "token_typed tok"
  shows "book_typed (fst (a_cancelOrder v tick c k qty tok A io))" and "io_typed (snd (a_cancelOrder v tick c k qty tok A io))"
  using assms find_typed [OF assms(1)]
  by (auto simp: a_cancelOrder_def Let_def drop_typed shrink_typed order_typed_def response_typed_def response_price_def mk_response_def reject_response_def
      split: option.split)

lemma replace_typed:
  assumes "book_typed A" and "io_typed io" and "price32 p" and "token_typed tok"
  shows "book_typed (fst (a_replaceOrder v tick c k k' ty p qty tok A io))"
    and "io_typed (snd (a_replaceOrder v tick c k k' ty p qty tok A io))"
proof -
  have "book_typed (fst R) \<and> io_typed (snd R)" if "R = a_replaceOrder v tick c k k' ty p qty tok A io" for R
    using assms unfolding that a_replaceOrder_def Let_def
    by (auto intro!: finish_typed simp: drop_typed reject_typed own_report_typed args_typed_def split: option.split variant.split)
  then show "book_typed (fst (a_replaceOrder v tick c k k' ty p qty tok A io))"
    "io_typed (snd (a_replaceOrder v tick c k k' ty p qty tok A io))" by blast+
qed

lemma add_typed:
  assumes "book_typed A" and "io_typed io" and "args_typed args"
  shows "book_typed (fst (a_addOrder v args A io))" and "io_typed (snd (a_addOrder v args A io))"
  using assms unfolding a_addOrder_def Let_def
  by (auto intro!: finish_typed simp: own_report_typed args_typed_def)

definition engine_typed :: "abook list \<times> engine_io \<Rightarrow> bool" where
  "engine_typed S \<longleftrightarrow> list_all book_typed (fst S) \<and> io_typed (snd S)"

lemma request_keeps_types:
  assumes "book_typed A" and "io_typed io" and "request_typed r"
  shows "book_typed (fst (a_request v r A io))" and "io_typed (snd (a_request v r A io))"
  using assms
  by (auto simp: a_request_def request_typed_def request_args_def args_typed_def split: ClientRequestType.split
      intro!: add_typed cancel_typed replace_typed)

lemma run_typed:
  assumes "engine_typed S" and "list_all request_typed (polled polls)"
    and "list_all (\<lambda>r. unat (rq_ticker_id r) < length (fst S)) (polled polls)"
  shows "engine_typed (a_run v polls S)"
  using assms
proof (induction v polls S rule: a_run.induct)
  case (3 v r polls S)
  obtain As io where S: "S = (As, io)" by (cases S)
  have "book_typed (As ! unat (rq_ticker_id r))" "io_typed io" "request_typed r"
    using 3 by (auto simp: S engine_typed_def list_all_length)
  from request_keeps_types [OF this, of v] have "engine_typed (a_process v r S)"
    using 3(2) by (auto simp: S engine_typed_def a_process_def Let_def list_all_iff split: prod.split dest!: subsetD [OF set_update_subset_insert])
  moreover have "length (fst (a_process v r S)) = length (fst S)"
    by (simp add: S a_process_def Let_def split: prod.split)
  ultimately show ?case using 3 by simp
qed simp_all

section \<open>The encoders lose nothing\<close>

text \<open>
  What a client takes from an OUCH message: the kind, the token, the number of shares, the price and the reference
  or match number, as far as the message has them; and what the response it was made from says.
\<close>

definition read_ouch :: "ouch_lib \<Rightarrow> ouch_out \<Rightarrow> ResponseType \<times> OrderToken \<times> Quantity \<times> Price option \<times> OrderId option" where
  "read_ouch lib out =
    (case out of
       OrderAccepted _ _ tok _ shares _ price _ ref \<Rightarrow>
         (ACCEPTED, tok, ol_swap32 lib shares, Some (ucast (ol_swap32 lib price)), Some (ol_swap64 lib ref))
     | OrderExecuted _ _ tok shares price n \<Rightarrow>
         (EXECUTED, tok, ol_swap32 lib shares, Some (ucast (ol_swap32 lib price)), Some (ol_swap64 lib n))
     | OrderCanceled _ _ tok shares _ \<Rightarrow> (CANCELED, tok, ol_swap32 lib shares, None, None)
     | OrderReplaced _ _ tok _ shares _ price _ ref \<Rightarrow>
         (MODIFIED, tok, ol_swap32 lib shares, Some (ucast (ol_swap32 lib price)), Some (ol_swap64 lib ref))
     | CancelRejected _ _ tok \<Rightarrow> (CANCEL_REJECTED, tok, 0, None, None))"

definition told :: "MEClientResponse \<Rightarrow> ResponseType \<times> OrderToken \<times> Quantity \<times> Price option \<times> OrderId option" where
  "told r =
    (case rs_status r of
       EXECUTED \<Rightarrow> (EXECUTED, rs_order_token r, rs_executed_qty r, Some (rs_execution_price r), Some (rs_match_id r))
     | CANCELED \<Rightarrow> (CANCELED, rs_order_token r, rs_leaves_qty r, None, None)
     | CANCEL_REJECTED \<Rightarrow> (CANCEL_REJECTED, rs_order_token r, 0, None, None)
     | status \<Rightarrow> (status, rs_order_token r, rs_qty r, Some (rs_price r), Some (rs_market_order_id r)))"

lemma read_ouch_encode:
  assumes "ouch_spec lib" and "response_typed r"
  shows "read_ouch lib (encodeOuch lib r ts) = told r"
proof -
  have "take 14 (rs_order_token r) = rs_order_token r"
    using assms(2) by (simp add: response_typed_def token_typed_def OUCH_TOKEN_LEN_def)
  then show ?thesis
    using assms ucast_low32 [of "rs_price r"] ucast_low32 [of "rs_execution_price r"]
    by (cases "rs_status r")
      (simp_all add: read_ouch_def told_def encodeOuch_def Let_def ouch_spec_def response_typed_def response_price_def price32_def)
qed

text \<open>
  The same for a subscriber and an ITCH message: the ticker, from the stock locate code every message has, then the kind, the
  order, and what the kind says of it. An add message names the ticker a second time. A delete message has no quantity, a
  trade or a delete no price and no side, so these are not read back.
\<close>

datatype shown =
  ShowsAdd TickerId OrderId Side Price Quantity
| ShowsDelete OrderId
| ShowsTrade OrderId Quantity OrderId
| ShowsReplace OrderId OrderId Quantity Price

definition read_itch :: "itch_lib \<Rightarrow> itch_msg \<Rightarrow> TickerId \<times> shown" where
  "read_itch lib msg = (ucast (il_swap16 lib (im_stock_locate msg)),
     case msg of
       AddOrder _ _ _ _ ref side shares stock price \<Rightarrow>
         ShowsAdd (ucast (il_swap64 lib stock)) (il_swap64 lib ref) (if side = CHR ''B'' then BUY else SELL)
           (ucast (il_swap32 lib price)) (il_swap32 lib shares)
     | OrderDelete _ _ _ _ ref \<Rightarrow> ShowsDelete (il_swap64 lib ref)
     | OrderExecute _ _ _ _ ref shares n \<Rightarrow> ShowsTrade (il_swap64 lib ref) (il_swap32 lib shares) (il_swap64 lib n)
     | OrderReplace _ _ _ _ ref new shares price \<Rightarrow>
         ShowsReplace (il_swap64 lib ref) (il_swap64 lib new) (il_swap32 lib shares) (ucast (il_swap32 lib price)))"

definition shown_of :: "MEMarketUpdate \<Rightarrow> TickerId \<times> shown" where
  "shown_of u = (mu_ticker_id u,
     case mu_type u of
       U_TRADE \<Rightarrow> ShowsTrade (mu_market_order_id u) (mu_qty u) (mu_match_id u)
     | U_CANCEL \<Rightarrow> ShowsDelete (mu_market_order_id u)
     | U_MODIFY \<Rightarrow> ShowsReplace (mu_market_order_id u) (mu_new_order_id u) (mu_qty u) (mu_price u)
     | _ \<Rightarrow> ShowsAdd (mu_ticker_id u) (mu_market_order_id u) (mu_side u) (mu_price u) (mu_qty u))"

lemma read_itch_encode:
  assumes "itch_spec lib" and "update_typed u"
  shows "\<exists>msg. encode lib now u = Some msg \<and> snd (read_itch lib msg) = snd (shown_of u) \<and>
    (unat (mu_ticker_id u) < 2 ^ 16 \<longrightarrow> read_itch lib msg = shown_of u)"
proof -
  have p: "ucast (ucast (mu_price u) :: uint32) = mu_price u"
    using assms(2) ucast_low32 by (simp add: update_typed_def price32_def)
  have "mu_side u = BUY \<or> mu_side u = SELL" by (cases "mu_side u") auto
  with p assms ucast_low16 [of "mu_ticker_id u"] show ?thesis
    by (auto simp: update_typed_def encodable_def encode_def read_itch_def shown_of_def itch_spec_def copyStock_def getStockLocate_def
        ucast_up_down Let_def)
qed

end
