(* ===== verification/ExchangeWire.thy ===== *)
theory ExchangeWire
  imports ExchangeSpec MessageTypes
begin

text \<open>
  The types of MessageTypes in the running exchange: whatever the clients send, every request the gateway has accepted, every
  resting order, every response and every market update is typed, in every reachable state; so what goes out on either wire is
  read back as it was meant.
\<close>

section \<open>The gateway accepts typed requests only\<close>

lemma gw_step_accepts:
  assumes inv: "gw_inv srt push view sz n s" and step: "gw_step lib srt push e s = Some s'"
  obtains rs where "mset (accepted view (os_fifo s')) = mset (accepted view (os_fifo s)) + mset rs" and "list_all request_typed rs"
proof (cases e)
  case (ServerRecv sk t bytes)
  define s0 where "s0 = s\<lparr>inbound_data := (inbound_data s)(fst sk := inbound_data s (fst sk) @ bytes)\<rparr>"
  define s1 where "s1 = (if map_of (fdToClientId s0) (snd sk) = None then registerClient sk s0 else s0)"
  have same: "os_fifo s1 = os_fifo s" "tokenManager s1 = tokenManager s" by (simp_all add: s0_def s1_def registerClient_def Let_def)
  have "onRecv lib srt push sk t s0 = Some s'" using step by (simp add: ServerRecv gw_step_def s0_def)
  then obtain cid rest m' where "recv_loop lib srt push cid t (inbound_data s1 (fst sk)) (tokenManager s1, os_fifo s1) = Some (rest, m', os_fifo s')"
    unfolding onRecv_def Let_def s1_def [symmetric] by (auto split: Option.bind_splits)
  from recv_accepts [OF _ _ _ _ this] inv gw_decode_typed that show thesis
    unfolding gw_inv_def ids_ok_def same by blast
next
  case PublishPending
  with inv step that [of "[]"] publish_accepted [of "os_fifo s" srt push view] show thesis by (auto simp: gw_step_def gw_inv_def)
next
  case ServerRecvFinished
  with inv step that [of "[]"] publish_accepted [of "os_fifo s" srt push view] show thesis
    by (auto simp: gw_step_def gw_inv_def onRecvFinished_def)
qed (use step that [of "[]"] in \<open>auto simp: gw_step_def drain_state onDisconnect_def split: option.splits\<close>)

lemma typed_perm:
  assumes "mset R' = mset R + mset rs" and "list_all request_typed R" and "list_all request_typed rs"
  shows "list_all request_typed R'"
  using assms mset_eq_setD [of R' "R @ rs"] by (auto simp: list_all_iff)

lemma x_step_typed:
  assumes inv: "x_inv v represents cap L V N c sz n x" and step: "x_step L e x = Some x'"
    and ok: "list_all request_typed (x_accepted x)"
  shows "list_all request_typed (x_accepted x')"
proof -
  have gw: "gw_inv (xl_sort L) (ch_push (xl_requests L)) ch_log sz n (x_gateway x)" using inv by (simp add: x_inv_def)
  show ?thesis
  proof (cases e)
    case (GatewayDrain now)
    have "mset (accepted ch_log (publishPendingOrders (xl_sort L) (ch_push (xl_requests L)) (os_fifo (x_gateway x)))) = mset (x_accepted x)"
      unfolding x_accepted_def by (rule publish_accepted) (use gw in \<open>simp_all add: gw_inv_def\<close>)
    with step GatewayDrain ok typed_perm [of _ "x_accepted x" "[]"] show ?thesis
      by (auto simp: gateway_drain_def x_accepted_def drain_state simp del: drainResponses.simps split: if_splits option.splits)
  next
    case (GatewayCallback ev)
    have "list_all request_typed (accepted ch_log (os_fifo g))"
      if g: "gw_step (xl_ouch L) (xl_sort L) (ch_push (xl_requests L)) ev (x_gateway x) = Some g" for g
      by (rule gw_step_accepts [OF gw g]) (use ok typed_perm in \<open>auto simp: x_accepted_def\<close>)
    with step GatewayCallback ok show ?thesis by (auto simp: gateway_callback_def x_accepted_def split: if_splits)
  next
    case MainStep
    with step ok show ?thesis by (cases "main_at x") (auto simp: main_defs x_accepted_def)
  next
    case EnginePush
    have "x_accepted (engine_push L out x) = x_accepted x" for out
      by (cases "(L, out, x)" rule: engine_push.cases)
        (auto simp: set_requestQ_def requestQ_def x_accepted_def accepted_def pending_def split: option.split)
    with EnginePush step ok show ?thesis by (auto split: option.splits engine_pc.splits)
  next
    case PublisherPush
    have "x_gateway (publisher_push L out x) = x_gateway x" for out by (cases out) (auto split: option.split)
    with PublisherPush step ok show ?thesis by (auto simp: x_accepted_def split: option.splits publisher_pc.splits)
  qed (use step ok in \<open>auto simp: x_accepted_def sigHandler_def engine_poll_def publisher_poll_def streamer_apply_def streamer_answer_def
      split: if_splits option.splits Option.bind_splits\<close>)
qed

section \<open>Every reachable state\<close>

lemma x_inv_less: "x_inv v represents cap L V N c sz (k + n) x \<Longrightarrow> x_inv v represents cap L V N c sz k x"
  by (auto simp: x_inv_def gw_inv_def)

context order_book
begin

text \<open>What every step keeps that starts in a state with the invariant holds in every reachable state.\<close>

lemma x_reach_keeps:
  assumes "x_reach L x0 k x" and "x_inv v represents cap L V N c sz k x0" and "life_ok x0"
    and "admissible N c fits (ch_log (requestQ x))" and "length (ch_log (marketUpdateQ x)) < 2 ^ 64 - 1" and "xl_books L = ops"
    and "P x0" and step: "\<And>e x x'. x_inv v represents cap L V N c sz 0 x \<Longrightarrow> x_step L e x = Some x' \<Longrightarrow> P x \<Longrightarrow> P x'"
  shows "P x"
  using assms(1-7)
proof (induction rule: x_reach.induct)
  case (internal k x e x')
  note before = limits_before [OF internal.hyps(3) internal.prems(3,4)]
  have "x_inv v represents cap L V N c sz 0 x"
    by (rule x_reach_inv [OF internal.hyps(1) _ internal.prems(2) before internal.prems(5)]) (use internal.prems(1) in simp)
  with step [OF _ internal.hyps(3)] internal.IH [OF internal.prems(1,2) before internal.prems(5,6)] show ?case by blast
next
  case (client k x e x')
  note before = limits_before [OF client.hyps(2) client.prems(3,4)]
  have k: "x_inv v represents cap L V N c sz k x0" by (rule x_inv_less [where n = 1]) (use client.prems(1) in simp)
  have "x_inv v represents cap L V N c sz 0 x"
    by (rule x_reach_inv [OF client.hyps(1) _ client.prems(2) before client.prems(5)]) (use k in simp)
  with step [OF _ client.hyps(2)] client.IH [OF k client.prems(2) before client.prems(5,6)] show ?case by blast
qed simp

lemma built_typed:
  assumes "lib_ok L V" and "xv_requests V rq = []" "xv_responses V sq = []" "xv_updates V uq = []" "xv_snaps V nq = []"
    and "\<And>i. represents (mk_book i) a_empty" and "\<And>i. cap (mk_book i) = c" and "sz + 1 < 2 ^ 64" and "k < 2 ^ 64 - 1"
    and "x_reach L (exchange_init mk_book N f sz rq sq uq nq) k x"
    and "admissible N c fits (ch_log (requestQ x))" and "length (ch_log (marketUpdateQ x)) < 2 ^ 64 - 1" and "xl_books L = ops"
  shows "list_all request_typed (x_accepted x)"
  by (rule x_reach_keeps [OF assms(10) x_init_inv [OF assms(1-9)] life_init assms(11-13)])
    (use x_step_typed in \<open>simp_all add: exchange_init_def x_accepted_def accepted_def order_server_init_def fifo_init_def pending_def ch_init_def\<close>)

end

text \<open>With the invariant, the types of the requests are the types of everything.\<close>

lemma x_inv_typed:
  assumes inv: "x_inv v represents cap L V N c sz n x" and adm: "admissible N c fits (ch_log (requestQ x))"
    and typed: "list_all request_typed (x_accepted x)"
  shows "list_all book_typed (fst (x_spec v N x))" and "list_all response_typed (ch_log (responseQ x) @ lefts (outbox x))"
    and "list_all update_typed (ch_log (marketUpdateQ x) @ rights (outbox x))"
proof -
  have "engine_typed (replicate N a_empty, engine_io0)"
    by (simp add: engine_typed_def io_typed_def engine_io0_def book_typed_def a_empty_def a_orders_def list_all_iff)
  then have "engine_typed (x_spec v N x)" unfolding x_spec_def
    by (rule run_typed)
      (use typed adm in \<open>auto simp: x_accepted_def accepted_def requestQ_def list_all_iff admissible_def dest!: in_set_takeD\<close>)
  then show "list_all book_typed (fst (x_spec v N x))" "list_all response_typed (ch_log (responseQ x) @ lefts (outbox x))"
    "list_all update_typed (ch_log (marketUpdateQ x) @ rights (outbox x))"
    unfolding x_inv_books(3,4) [OF inv] by (simp_all add: engine_typed_def io_typed_def)
qed

end
