(* ===== verification/SnapshotView.thy ===== *)
theory SnapshotView
  imports MessageTypes
begin

text \<open>
  What a client makes of a snapshot: the messages of the reply, and the books a client reads from them. A client that
  then applies the updates that follow has, ticker by ticker, the books those updates describe.
\<close>

section \<open>The entries of a shadow book\<close>

text \<open>An entry is filed under its own order id, belongs to the book's ticker and has a price the wire can carry.\<close>

definition entry_ok :: "nat \<Rightarrow> OrderId \<times> MEMarketUpdate \<Rightarrow> bool" where
  "entry_ok t x \<longleftrightarrow> mu_market_order_id (snd x) = fst x \<and> unat (mu_ticker_id (snd x)) = t \<and> price32 (mu_price (snd x))"

definition shadow_ok :: "nat \<Rightarrow> shadow \<Rightarrow> bool" where
  "shadow_ok t sh \<longleftrightarrow> distinct (map fst sh) \<and> list_all (entry_ok t) sh"

lemma set_alist_update: "y \<in> set (AList.update k x sh) \<Longrightarrow> y = (k, x) \<or> y \<in> set sh"
  by (induction sh) (auto split: if_splits)

lemma entries_update: "list_all (entry_ok t) sh \<Longrightarrow> entry_ok t (k, x) \<Longrightarrow> list_all (entry_ok t) (AList.update k x sh)"
  by (auto simp: list_all_iff dest!: set_alist_update)

lemma entries_delete: "list_all (entry_ok t) sh \<Longrightarrow> list_all (entry_ok t) (AList.delete k sh)"
  by (auto simp: list_all_iff AList.delete_eq)

lemma entries_find: "list_all (entry_ok t) sh \<Longrightarrow> map_of sh k = Some r \<Longrightarrow> entry_ok t (k, r)"
  by (auto simp: list_all_iff dest: map_of_SomeD)

lemma shadow_apply_ok:
  assumes "shadow_ok (unat (mu_ticker_id u)) sh" and "update_typed u"
  shows "shadow_ok (unat (mu_ticker_id u)) (shadow_apply u sh)"
proof -
  let ?t = "unat (mu_ticker_id u)"
  have sh: "distinct (map fst sh)" "list_all (entry_ok ?t) sh" using assms(1) by (simp_all add: shadow_ok_def)
  have "distinct (map fst (shadow_apply u sh))"
    using sh(1) by (simp add: shadow_apply_def Let_def distinct_update distinct_delete split: UpdateType.split option.split)
  moreover have "list_all (entry_ok ?t) (shadow_apply u sh)"
    using sh(2) entries_find [OF sh(2)] assms(2)
    by (auto simp: shadow_apply_def Let_def update_typed_def intro!: entries_update entries_delete split: UpdateType.split option.split)
      (auto simp: entry_ok_def)
  ultimately show ?thesis by (simp add: shadow_ok_def)
qed

definition shadows_ok :: "shadow list \<Rightarrow> bool" where
  "shadows_ok SB \<longleftrightarrow> (\<forall>t < length SB. shadow_ok t (SB ! t))"

lemma shadows_fold:
  assumes "shadows_ok SB" and "list_all update_typed us"
  shows "shadows_ok (fold apply_update us SB)"
  using assms
proof (induction us arbitrary: SB)
  case (Cons u us)
  have "shadows_ok (apply_update u SB)"
    unfolding shadows_ok_def apply_update_def
    using Cons.prems shadow_apply_ok [of u] by (simp add: shadows_ok_def) (metis nth_list_update_eq nth_list_update_neq)
  with Cons show ?case by simp
qed simp

lemma shadows_empty: "shadows_ok (replicate n [])"
  by (simp add: shadows_ok_def shadow_ok_def)

section \<open>The messages of a snapshot\<close>

definition baked :: "(nat \<Rightarrow> uint64) \<Rightarrow> (uint64 \<Rightarrow> itch_msg option) list \<Rightarrow> itch_msg list" where
  "baked clk msgs = List.map_filter (\<lambda>x. snd x (clk (fst x))) (enumerate 0 msgs)"

lemma bake_bytes_baked: "bake_bytes lib clk msgs = concat (map (il_bytes lib) (baked clk msgs))"
proof -
  have "concat (map (\<lambda>(k, f). case f (clk k) of None \<Rightarrow> [] | Some m \<Rightarrow> il_bytes lib m) xs) =
      concat (map (il_bytes lib) (List.map_filter (\<lambda>x. snd x (clk (fst x))) xs))" for xs
    by (induction xs) (auto simp: List.map_filter_simps split: option.split)
  then show ?thesis by (simp add: bake_bytes_def baked_def)
qed

text \<open>The orders of one ticker a client reads from a list of messages.\<close>

definition shown_order :: "itch_lib \<Rightarrow> nat \<Rightarrow> itch_msg \<Rightarrow> (OrderId \<times> Side \<times> Price \<times> Quantity) option" where
  "shown_order lib t msg =
    (case snd (read_itch lib msg) of
       ShowsAdd tick ref side price shares \<Rightarrow> if unat tick = t then Some (ref, side, price, shares) else None
     | _ \<Rightarrow> None)"

definition shown_view :: "itch_lib \<Rightarrow> nat \<Rightarrow> itch_msg list \<Rightarrow> view" where
  "shown_view lib t msgs = map_of (List.map_filter (shown_order lib t) msgs)"

text \<open>What is read does not depend on the clock.\<close>

definition shown_entry :: "nat \<Rightarrow> OrderId \<times> MEMarketUpdate \<Rightarrow> (OrderId \<times> Side \<times> Price \<times> Quantity) option" where
  "shown_entry t x = (if unat (mu_ticker_id (snd x)) = t then Some (fst x, update_view (snd x)) else None)"

lemma shown_add:
  assumes "itch_spec lib" and "entry_ok t' x"
  shows "\<exists>msg. encode lib now (snd x\<lparr>mu_type := U_ADD\<rparr>) = Some msg \<and> shown_order lib t msg = shown_entry t x"
proof -
  have "update_typed (snd x\<lparr>mu_type := U_ADD\<rparr>)" using assms(2) by (simp add: update_typed_def encodable_def entry_ok_def)
  from read_itch_encode [OF assms(1) this, of now] assms(2) show ?thesis
    by (auto simp: shown_order_def shown_entry_def shown_of_def entry_ok_def update_view_def)
qed

lemma shown_ctrl [simp]: "shown_order lib t (ctrl_msg lib code value now) = None"
  by (simp add: shown_order_def read_itch_def ctrl_msg_def)

text \<open>A message function that always shows the same.\<close>

definition shows_as :: "itch_lib \<Rightarrow> nat \<Rightarrow> (uint64 \<Rightarrow> itch_msg option) \<Rightarrow> (OrderId \<times> Side \<times> Price \<times> Quantity) option \<Rightarrow> bool" where
  "shows_as lib t f y \<longleftrightarrow> (\<forall>now. \<exists>msg. f now = Some msg \<and> shown_order lib t msg = y)"

lemma baked_shows:
  assumes "list_all2 (shows_as lib t) fs ys"
  shows "List.map_filter (shown_order lib t) (baked clk fs) = List.map_filter id ys"
proof -
  have "List.map_filter (shown_order lib t) (List.map_filter (\<lambda>x. snd x (clk (fst x))) (enumerate n fs)) = List.map_filter id ys" for n
    using assms
  proof (induction arbitrary: n rule: list_all2_induct)
    case (Cons f fs y ys)
    obtain msg where "f (clk n) = Some msg" "shown_order lib t msg = y" using Cons.hyps(1) by (auto simp: shows_as_def)
    with Cons.IH [of "Suc n"] show ?case by (cases y) (simp_all add: List.map_filter_simps)
  qed (simp add: List.map_filter_simps)
  then show ?thesis by (simp add: baked_def)
qed

text \<open>An \<^verbatim>\<open>unordered_map\<close> is traversed in some order, each entry once.\<close>

definition iter_spec :: "(shadow \<Rightarrow> shadow) \<Rightarrow> bool" where
  "iter_spec iter \<longleftrightarrow> (\<forall>sh. mset (iter sh) = mset sh)"

lemma concat_single:
  assumes "t < n" and "\<And>i. i < n \<Longrightarrow> i \<noteq> t \<Longrightarrow> f i = []"
  shows "concat (map f [0..<n]) = f t"
proof -
  obtain k where "n = t + Suc k" using assms(1) less_iff_Suc_add by auto
  then have "[0..<n] = [0..<t] @ t # [Suc t..<n]" using upt_add_eq_append [of 0 t "Suc k"] by (simp add: upt_conv_Cons del: upt_Suc)
  moreover have "concat (map f [0..<t]) = []" "concat (map f [Suc t..<n]) = []" using assms by auto
  ultimately show ?thesis by (simp only: map_append concat_append list.map concat.simps append_Nil append_Nil2)
qed

lemma list_all2_concat_map:
  "(\<And>i. i \<in> set is \<Longrightarrow> list_all2 P (f i) (g i)) \<Longrightarrow> list_all2 P (concat (map f is)) (concat (map g is))"
  by (induction "is") (auto intro: list_all2_appendI)

lemma map_filter_lists:
  "List.map_filter f (xs @ ys) = List.map_filter f xs @ List.map_filter f ys"
  "List.map_filter f (concat xss) = concat (map (List.map_filter f) xss)"
  "List.map_filter id (None # map g zs) = List.map_filter g zs"
  by (induction xss) (simp_all add: List.map_filter_def filter_map comp_def)

lemma shown_entries:
  assumes "list_all (entry_ok i) sh"
  shows "List.map_filter (shown_entry t) sh = (if i = t then map (\<lambda>(k, u). (k, update_view u)) sh else [])"
  using assms by (induction sh) (auto simp: List.map_filter_simps shown_entry_def entry_ok_def)

lemma shown_adds:
  assumes "itch_spec lib" and "list_all (entry_ok i) sh"
  shows "list_all2 (shows_as lib t) (map (\<lambda>(_, order) now. encode lib now (order\<lparr>mu_type := U_ADD\<rparr>)) sh) (map (shown_entry t) sh)"
  using assms(2) shown_add [OF assms(1)] by (induction sh) (auto simp: shows_as_def split_def)

lemma shown_snapshot:
  assumes spec: "itch_spec lib" "iter_spec iter" and ok: "shadows_ok (shadow_book s)" and t: "t < length (shadow_book s)"
  shows "shown_view lib t (baked clk (snapshot_msgs lib iter s)) = shadow_view (shadow_book s ! t)"
proof -
  let ?SB = "shadow_book s" and ?g = "\<lambda>i. None # map (shown_entry t) (iter (shadow_book s ! i))"
  have perm: "mset (iter sh) = mset sh" "set (iter sh) = set sh" for sh
    using spec(2) mset_eq_setD by (auto simp: iter_spec_def)
  have ent: "list_all (entry_ok i) (iter (?SB ! i))" if "i < length ?SB" for i
    using ok that by (auto simp: shadows_ok_def shadow_ok_def list_all_iff perm)
  have "list_all2 (shows_as lib t) (snapshot_msgs lib iter s) ([None] @ concat (map ?g [0..<length ?SB]) @ [None])"
    unfolding snapshot_msgs_def
  proof (intro list_all2_appendI list_all2_concat_map)
    fix i assume "i \<in> set [0..<length ?SB]"
    then have "list_all (entry_ok i) (iter (?SB ! i))" using ent by simp
    from shown_adds [OF spec(1) this] show "list_all2 (shows_as lib t) ((\<lambda>now. Some (ctrl_msg lib SNAP_CTRL_CLEAR (of_nat i) now)) #
        map (\<lambda>(_, order) now. encode lib now (order\<lparr>mu_type := U_ADD\<rparr>)) (iter (?SB ! i))) (?g i)"
      by (simp add: shows_as_def)
  qed (simp_all add: shows_as_def)
  from baked_shows [OF this] have "List.map_filter (shown_order lib t) (baked clk (snapshot_msgs lib iter s)) =
      concat (map (\<lambda>i. List.map_filter (shown_entry t) (iter (?SB ! i))) [0..<length ?SB])"
    unfolding map_filter_lists map_map comp_def by (simp add: List.map_filter_simps)
  also have "\<dots> = map (\<lambda>(k, u). (k, update_view u)) (iter (?SB ! t))"
    using concat_single [OF t, of "\<lambda>i. List.map_filter (shown_entry t) (iter (?SB ! i))"] shown_entries [OF ent, of _ t] t by simp
  finally have "shown_view lib t (baked clk (snapshot_msgs lib iter s)) = map_option update_view \<circ> map_of (iter (?SB ! t))"
    by (simp add: shown_view_def map_of_map)
  moreover have "map_of (iter (?SB ! t)) = map_of (?SB ! t)"
  proof -
    have "distinct (map fst (?SB ! t))" using ok t by (simp add: shadows_ok_def shadow_ok_def)
    moreover have "mset (map fst (iter (?SB ! t))) = mset (map fst (?SB ! t))" by (simp add: perm)
    ultimately show ?thesis using map_of_inject_set [of "iter (?SB ! t)" "?SB ! t"] mset_eq_imp_distinct_iff perm(2) by blast
  qed
  ultimately show ?thesis by (simp add: shadow_view_def fun_eq_iff)
qed

text \<open>Updates of other tickers do not matter to the book of a ticker.\<close>

lemma fold_ticker:
  assumes "t < length SB"
  shows "shadow_view (fold apply_update us SB ! t) =
    fold view_apply (filter (\<lambda>u. unat (mu_ticker_id u) = t) us) (shadow_view (SB ! t))"
  using assms
proof (induction us arbitrary: SB)
  case (Cons u us)
  have "shadow_view (apply_update u SB ! t) = (if unat (mu_ticker_id u) = t then view_apply u (shadow_view (SB ! t)) else shadow_view (SB ! t))"
    using Cons.prems by (simp add: apply_update_def shadow_view_apply)
  with Cons.IH [of "apply_update u SB"] Cons.prems show ?case by (simp add: apply_update_def)
qed simp

end
