(* ===== verification/ExchangeFeed.thy ===== *)
theory ExchangeFeed
  imports ExchangeWire SnapshotView
begin

text \<open>
  The market data of the running exchange, as its subscribers see it: the frames on the incremental feed, the replies to replay and
  snapshot requests at any moment, and the books a subscriber has who starts from a snapshot and goes on with the feed.
\<close>

text \<open>What the publisher has sent: one frame for each update it has taken, in order, numbered from one.\<close>

lemma x_inv_frames:
  assumes inv: "x_inv v represents cap L V N c sz n x"
  obtains us where "map fst us = take (numbered_updates x) (ch_log (marketUpdateQ x))" and "length us = numbered_updates x"
    and "incremental_frames (x_publisher x) = map (frame (xl_itch L)) (feed (xl_itch L) us)"
    and "map (frame (xl_itch L)) (take (ch_read (streamerQ x)) (ch_log (streamerQ x))) =
      take (ch_read (streamerQ x)) (incremental_frames (x_publisher x))"
    and "ch_read (streamerQ x) \<le> length (incremental_frames (x_publisher x))" and "publishedCount (x_publisher x) = of_nat (numbered_updates x)"
proof -
  obtain us where us: "map fst us = take (numbered_updates x) (ch_log (marketUpdateQ x))" "published (xl_itch L) us (x_publisher x)"
    "streamer_updates (x_publisher x) = ch_log (streamerQ x) @ snap_outbox x"
    using inv by (auto simp: parts)
  have le: "numbered_updates x \<le> length (ch_log (marketUpdateQ x))" "ch_read (streamerQ x) \<le> length (ch_log (streamerQ x))"
    using inv by (simp_all add: parts chan_ok_def)
  have f: "feed (xl_itch L) us = ch_log (streamerQ x) @ snap_outbox x" "incremental_frames (x_publisher x) = map (frame (xl_itch L)) (feed (xl_itch L) us)"
    using us(2,3) by (simp_all add: published_def)
  have len: "length us = numbered_updates x" using arg_cong [OF us(1), of length] le(1) by simp
  moreover have "publishedCount (x_publisher x) = of_nat (numbered_updates x)" using us(2) len by (simp add: published_def publishedCount_def)
  moreover have "map (frame (xl_itch L)) (take (ch_read (streamerQ x)) (ch_log (streamerQ x))) =
      take (ch_read (streamerQ x)) (incremental_frames (x_publisher x))"
    using le(2) by (simp add: f take_map)
  moreover have "ch_read (streamerQ x) \<le> length (incremental_frames (x_publisher x))"
    using le(2) arg_cong [OF f(1), of length] by (simp add: f(2))
  ultimately show thesis using that us(1) f(2) by blast
qed

text \<open>With typed updates of tickers that fit the locate code each frame says what its update says.\<close>

definition frame_shows :: "itch_lib \<Rightarrow> nat \<Rightarrow> MEMarketUpdate \<Rightarrow> char list \<Rightarrow> bool" where
  "frame_shows lib i u fr \<longleftrightarrow> (\<exists>msg. fr = il_image64 lib (il_swap64 lib (of_nat i + 1)) @ il_bytes lib msg \<and> read_itch lib msg = shown_of u)"

lemma frames_show:
  assumes inv: "x_inv v represents cap L V N c sz n x" and typed: "list_all update_typed (ch_log (marketUpdateQ x))"
    and tickers: "N \<le> 2 ^ 16"
  shows "length (incremental_frames (x_publisher x)) = numbered_updates x" and "publishedCount (x_publisher x) = of_nat (numbered_updates x)"
    and "i < numbered_updates x \<Longrightarrow> frame_shows (xl_itch L) i (ch_log (marketUpdateQ x) ! i) (incremental_frames (x_publisher x) ! i)"
proof -
  obtain us where us: "map fst us = take (numbered_updates x) (ch_log (marketUpdateQ x))" "length us = numbered_updates x"
    "incremental_frames (x_publisher x) = map (frame (xl_itch L)) (feed (xl_itch L) us)" "publishedCount (x_publisher x) = of_nat (numbered_updates x)"
    using x_inv_frames [OF inv] by blast
  show "length (incremental_frames (x_publisher x)) = numbered_updates x" "publishedCount (x_publisher x) = of_nat (numbered_updates x)" by (simp_all add: us)
  have spec: "itch_spec (xl_itch L)" and le: "numbered_updates x \<le> length (ch_log (marketUpdateQ x))"
    using inv by (simp_all add: parts lib_ok_def)
  show "frame_shows (xl_itch L) i (ch_log (marketUpdateQ x) ! i) (incremental_frames (x_publisher x) ! i)" if i: "i < numbered_updates x"
  proof -
    have u: "fst (us ! i) = ch_log (marketUpdateQ x) ! i"
      using arg_cong [OF us(1), of "\<lambda>l. l ! i"] i by (simp add: us(2))
    then have "update_typed (fst (us ! i))" using typed i le by (simp add: list_all_length)
    moreover have "list_all (in_range N) (ch_log (marketUpdateQ x))" using inv by (simp add: parts)
    then have "in_range N (ch_log (marketUpdateQ x) ! i)" using i le by (simp add: list_all_length)
    then have "unat (mu_ticker_id (fst (us ! i))) < 2 ^ 16" using tickers by (simp add: u in_range_def)
    ultimately show ?thesis using read_itch_encode [OF spec, of "fst (us ! i)" "snd (us ! i)"] i
      unfolding frame_shows_def u [symmetric]
      by (auto simp: us(2,3) nth_feed numbered_snap_def frame_def)
  qed
qed

lemma short_feed:
  assumes "x_inv v represents cap L V N c sz n x" and "length (ch_log (marketUpdateQ x)) < 2 ^ 64 - 1"
  shows "streamer_ok (xl_itch L) (xl_iter L) (take (ch_read (streamerQ x)) (ch_log (streamerQ x))) (x_streamer x)"
    and "ch_read (streamerQ x) \<le> length (ch_log (streamerQ x))"
proof -
  obtain us where "ch_log (streamerQ x) = feed (xl_itch L) us" "length us \<le> length (ch_log (marketUpdateQ x))"
    using inv_feed [OF assms(1)] by blast
  with assms show "streamer_ok (xl_itch L) (xl_iter L) (take (ch_read (streamerQ x)) (ch_log (streamerQ x))) (x_streamer x)"
    by (simp add: parts)
  show "ch_read (streamerQ x) \<le> length (ch_log (streamerQ x))" using assms(1) by (simp add: parts chan_ok_def)
qed

lemma x_inv_replay:
  assumes inv: "x_inv v represents cap L V N c sz n x" and short: "length (ch_log (marketUpdateQ x)) < 2 ^ 64 - 1"
    and req: "8 \<le> length rest" "i = unat (il_swap64 (xl_itch L) (il_read64 (xl_itch L) (take 8 rest)))"
    and k: "k = ch_read (streamerQ x)"
  shows "handleClient (xl_itch L) (xl_iter L) clk (CHR ''R'' # rest) (x_streamer x) =
    Some (if k \<le> i then ''C'' else if i + REPLAY_CAPACITY < k then ''N''
          else CHR ''R'' # concat (drop i (take k (incremental_frames (x_publisher x)))), x_streamer x)"
proof -
  let ?H = "take k (ch_log (streamerQ x))"
  obtain us where fr: "map (frame (xl_itch L)) ?H = take k (incremental_frames (x_publisher x))"
    using x_inv_frames [OF inv] k by blast
  note ok = short_feed [OF inv short, folded k]
  then have "length ?H = k" by simp
  moreover have "ring_ok (xl_itch L) ?H (x_streamer x)" "length ?H < 2 ^ 64 - 1" using ok(1) by (simp_all add: streamer_ok_def)
  ultimately show ?thesis
    using serveReplay_ok [of "xl_itch L" ?H "x_streamer x", OF _ _ req(2) [symmetric]] req(1)
    by (simp add: handleClient_def fr flip: drop_map)
qed

text \<open>The first and the last message of a snapshot.\<close>

lemma baked_ends:
  "\<exists>ms. baked clk (snapshot_msgs lib iter s) = ctrl_msg lib SNAP_CTRL_START (last_seq_num s) (clk 0) # ms @
     [ctrl_msg lib SNAP_CTRL_END (last_seq_num s) (clk (length (snapshot_msgs lib iter s) - 1))]"
  by (auto simp: baked_def snapshot_msgs_def enumerate_append_eq map_filter_lists List.map_filter_simps)

lemma x_inv_snapshot:
  assumes inv: "x_inv v represents cap L V N c sz n x" and short: "length (ch_log (marketUpdateQ x)) < 2 ^ 64 - 1"
    and typed: "list_all update_typed (ch_log (marketUpdateQ x))" and iter: "iter_spec (xl_iter L)" and k: "k = ch_read (streamerQ x)"
  obtains reply s' msgs where "handleClient (xl_itch L) (xl_iter L) clk (CHR ''S'' # rest) (x_streamer x) = Some (reply, s')"
    and "reply = concat (map (il_bytes (xl_itch L)) msgs)"
    and "\<exists>a ms b. msgs = ctrl_msg (xl_itch L) SNAP_CTRL_START (of_nat k) a # ms @ [ctrl_msg (xl_itch L) SNAP_CTRL_END (of_nat k) b]"
    and "\<And>t. t < N \<Longrightarrow> shown_view (xl_itch L) t msgs =
      fold view_apply (filter (\<lambda>u. unat (mu_ticker_id u) = t) (take k (ch_log (marketUpdateQ x)))) Map.empty"
proof -
  let ?lib = "xl_itch L" and ?s = "x_streamer x"
  note ok = short_feed [OF inv short, folded k]
  have seq: "last_seq_num ?s = of_nat k" using ok by (simp add: streamer_ok_def ring_ok_def)
  obtain reply s' where S: "serveSnapshot ?lib (xl_iter L) clk ?s = (reply, s')" by fastforce
  then obtain clk' where r: "reply = bake_bytes ?lib clk' (snapshot_msgs ?lib (xl_iter L) ?s)"
    using serveSnapshot_current(1) [OF _ S] ok(1) by (auto simp: streamer_ok_def)
  have kl: "k \<le> length (ch_log (marketUpdateQ x))" using x_inv_shadow(1) [OF inv] k by simp
  then have upd: "take k (marketUpdates (snd (x_spec v N x))) = take k (ch_log (marketUpdateQ x))"
    by (simp flip: x_inv_books(4) [OF inv])
  have sh: "shadow_book ?s = fold apply_update (take k (ch_log (marketUpdateQ x))) (replicate N [])"
    using x_inv_shadow(2) [OF inv] by (simp add: upd flip: k)
  have "shadows_ok (shadow_book ?s)" unfolding sh
    by (rule shadows_fold [OF shadows_empty]) (use typed in \<open>auto simp: list_all_iff dest: in_set_takeD\<close>)
  moreover have "itch_spec ?lib" using inv by (simp add: parts lib_ok_def)
  ultimately have "shown_view ?lib t (baked clk' (snapshot_msgs ?lib (xl_iter L) ?s)) =
      fold view_apply (filter (\<lambda>u. unat (mu_ticker_id u) = t) (take k (ch_log (marketUpdateQ x)))) Map.empty" if "t < N" for t
    using shown_snapshot [OF _ iter, of ?lib ?s t clk'] fold_ticker [of t "replicate N []" "take k (ch_log (marketUpdateQ x))"] that
    by (simp add: sh shadow_view_def)
  moreover have "handleClient ?lib (xl_iter L) clk (CHR ''S'' # rest) ?s = Some (reply, s')" by (simp add: handleClient_def S)
  ultimately show thesis
    using that r baked_ends [of clk' ?lib "xl_iter L" ?s] unfolding bake_bytes_baked seq by blast
qed

end
