(* ===== verification/FeedTheorems.thy ===== *)
theory FeedTheorems
  imports ExchangeTheorems ExchangeFeed
begin

text \<open>
  Properties of the messages of the running exchange: their types, what is read from either wire, and what a subscriber can
  recover from replay and snapshot, in every reachable state.
\<close>

lemma map_exchange_typed:
  assumes "lib_ok L V" and "queues_new V rq sq uq nq" and "pool_new ops pv pool" and "sz + 1 < 2 ^ 64"
    and "xl_books L = map_book_ops LastValue ops"
    and "x_reach L (map_exchange psz pool N f sz rq sq uq nq) k x" and "in_limits N (pv_cap pv pool) (\<lambda>_. True) k x"
  shows "list_all request_typed (x_accepted x)" and "list_all book_typed (fst (x_spec MapBook N x))"
    and "list_all response_typed (ch_log (responseQ x) @ lefts (outbox x))"
    and "list_all update_typed (ch_log (marketUpdateQ x) @ rights (outbox x))"
proof -
  have init: "\<And>i. map_represents ops pv (map_book_init psz i pool) a_empty" "\<And>i. pv_cap pv (bk_pool (map_book_init psz i pool)) = pv_cap pv pool"
    using assms(3) map_represents_init by (auto simp: pool_new_def map_book_init_def)
  show typed: "list_all request_typed (x_accepted x)"
    by (rule map_ob.built_typed [OF assms(1) _ _ _ _ init assms(4) _ _ _ _ assms(5)])
      (use assms(2,6,7) in_limits_queue [OF assms(7)] in \<open>simp_all add: queues_new_def in_limits_def map_exchange_def\<close>)
  note T = x_inv_typed [OF map_exchange_inv(1) [OF assms] in_limits_queue [OF assms(7)] typed]
  then show "list_all book_typed (fst (x_spec MapBook N x))" "list_all response_typed (ch_log (responseQ x) @ lefts (outbox x))"
    "list_all update_typed (ch_log (marketUpdateQ x) @ rights (outbox x))" by blast+
qed

text \<open>The exchange of the examples, with one order resting, announced and applied.\<close>

lemma sample_resting_exchange:
  obtains x where "x_reach (sample_lib sample_maps 4) (map_exchange 4 (fresh_pool 4) 1 4 3 [] [] [] []) 2 x"
    and "in_limits 1 (pv_cap free_pool_view (fresh_pool 4)) (\<lambda>_. True) 2 x"
    and "length (ch_log (marketUpdateQ x)) = 1" and "length (ch_log (responseQ x)) = 1"
    and "ch_read (streamerQ x) = 1" and "length (incremental_frames (x_publisher x)) = 1"
    and "feed_polls MapBook (map Some (take (taken x) (ch_log (requestQ x)))) (replicate 1 a_empty, engine_io0)"
proof -
  obtain x where x: "x_reach (sample_lib sample_maps 4) (exchange_init sample_mk 1 4 3 [] [] [] []) 2 x"
    "admissible 1 4 (\<lambda>_. True) (x_accepted x)" "length (ch_log (marketUpdateQ x)) = 1" "length (ch_log (responseQ x)) = 1"
    "ch_read (streamerQ x) = 1" "length (incremental_frames (x_publisher x)) = 1"
    "feed_polls MapBook (map Some (take (taken x) (ch_log (requestQ x)))) (replicate 1 a_empty, engine_io0)"
    by (rule sample_resting)
  have "in_limits 1 (pv_cap free_pool_view (fresh_pool 4)) (\<lambda>_. True) 2 x" using x(2,3) by (simp add: in_limits_def)
  from that [OF x(1) [folded map_exchange_def] this x(3-7)] show thesis .
qed

text \<open>
  C15. Types are kept from wire to wire: in a map-book exchange within its limits (\<open>in_limits\<close>, \<open>LastValue\<close>), however the threads interleave,
  every request the gateway has accepted is well formed for its action, every order that rests in a book has a price of 32
  bits and a token of at most 14 characters, and so has every response, except that a rejected cancel may carry the
  64-bit \<open>Price_INVALID\<close>; every market update is of a kind the encoder knows and has a price of 32 bits.
\<close>

theorem exchange_typed:
  assumes "lib_ok L V" and "queues_new V rq sq uq nq" and "pool_new ops pv pool" and "sz + 1 < 2 ^ 64"
    and "xl_books L = map_book_ops LastValue ops"
    and "x_reach L (map_exchange psz pool N f sz rq sq uq nq) k x" and "in_limits N (pv_cap pv pool) (\<lambda>_. True) k x"
  shows "list_all request_typed (x_accepted x) \<and>
    (\<forall>b\<in>set (ticker_order_book (x_engine x)). \<exists>A. map_represents ops pv b A \<and> book_typed A) \<and>
    list_all response_typed (responses (engine_out (x_engine x))) \<and> list_all update_typed (marketUpdates (engine_out (x_engine x)))"
proof -
  note inv = map_exchange_inv(1) [OF assms] and T = map_exchange_typed [OF assms]
  have "\<exists>A. map_represents ops pv b A \<and> book_typed A" if "b \<in> set (ticker_order_book (x_engine x))" for b
    using x_inv_books(1) [OF inv] T(2) that by (fastforce simp: list_all2_conv_all_nth list_all_length in_set_conv_nth)
  moreover have "responses (engine_out (x_engine x)) = ch_log (responseQ x) @ lefts (outbox x)"
    "marketUpdates (engine_out (x_engine x)) = ch_log (marketUpdateQ x) @ rights (outbox x)"
    using inv by (simp_all add: parts)
  ultimately show ?thesis using T by simp
qed

theorem exchange_typed_witness:
  "\<exists>x. x_reach (sample_lib sample_maps 4) (map_exchange 4 (fresh_pool 4) 1 4 3 [] [] [] []) 2 x \<and> length (ch_log (marketUpdateQ x)) = 1 \<and>
    list_all request_typed (x_accepted x) \<and> list_all update_typed (marketUpdates (engine_out (x_engine x)))"
proof -
  obtain x where x: "x_reach (sample_lib sample_maps 4) (map_exchange 4 (fresh_pool 4) 1 4 3 [] [] [] []) 2 x"
    "in_limits 1 (pv_cap free_pool_view (fresh_pool 4)) (\<lambda>_. True) 2 x" "length (ch_log (marketUpdateQ x)) = 1"
    by (rule sample_resting_exchange)
  from exchange_typed [OF sample_lib_ok4 sample_new sample_lib_books x(1,2)] x(1,3) show ?thesis by blast
qed



text \<open>
  C14. Gap recovery in the running map-book exchange within its limits (\<open>in_limits\<close>, \<open>LastValue\<close>): a subscriber that has the feed up to sequence number \<open>i\<close> and asks for a replay at any moment is
  sent, byte for byte, the frames of the feed after \<open>i\<close> up to the last the streamer has applied, which is no further
  than the feed; it is told \<open>C\<close> when there are none and \<open>N\<close> exactly when the gap exceeds the ring of 8192 frames.
\<close>

theorem exchange_replay:
  assumes "lib_ok L V" and "queues_new V rq sq uq nq" and "pool_new ops pv pool" and "sz + 1 < 2 ^ 64"
    and "xl_books L = map_book_ops LastValue ops"
    and "x_reach L (map_exchange psz pool N f sz rq sq uq nq) k x" and "in_limits N (pv_cap pv pool) (\<lambda>_. True) k x"
    and "8 \<le> length rest" and "i = unat (il_swap64 (xl_itch L) (il_read64 (xl_itch L) (take 8 rest)))"
  shows "\<exists>m \<le> length (incremental_frames (x_publisher x)). m = ch_read (streamerQ x) \<and>
    handleClient (xl_itch L) (xl_iter L) clk (CHR ''R'' # rest) (x_streamer x) =
      Some (if m \<le> i then ''C'' else if i + REPLAY_CAPACITY < m then ''N''
            else CHR ''R'' # concat (drop i (take m (incremental_frames (x_publisher x)))), x_streamer x)"
proof -
  note inv = map_exchange_inv(1) [OF assms(1-7)]
  have "length (ch_log (marketUpdateQ x)) < 2 ^ 64 - 1" using assms(7) by (simp add: in_limits_def)
  from x_inv_replay [OF inv this assms(8,9) refl] x_inv_frames [OF inv] show ?thesis by blast
qed

theorem exchange_replay_witness:
  "\<exists>x. x_reach (sample_lib sample_maps 4) (map_exchange 4 (fresh_pool 4) 1 4 3 [] [] [] []) 2 x \<and>
    handleClient sample_itch id (\<lambda>_. 0) (CHR ''R'' # sample_image 0) (x_streamer x) =
      Some (CHR ''R'' # concat (incremental_frames (x_publisher x)), x_streamer x)"
proof -
  obtain x where x: "x_reach (sample_lib sample_maps 4) (map_exchange 4 (fresh_pool 4) 1 4 3 [] [] [] []) 2 x"
    "in_limits 1 (pv_cap free_pool_view (fresh_pool 4)) (\<lambda>_. True) 2 x" "ch_read (streamerQ x) = 1" "length (incremental_frames (x_publisher x)) = 1"
    by (rule sample_resting_exchange)
  have o: "xl_itch (sample_lib sample_maps 4) = sample_itch" "xl_iter (sample_lib sample_maps 4) = id" by (simp_all add: sample_lib_def)
  have "8 \<le> length (sample_image 0)" "0 = unat (il_swap64 sample_itch (il_read64 sample_itch (take 8 (sample_image 0))))"
    by (simp add: sample_image_def) code_simp
  from exchange_replay [OF sample_lib_ok4 sample_new sample_lib_books x(1,2), unfolded o, OF this, of "\<lambda>_. 0"] x
  have "handleClient sample_itch id (\<lambda>_. 0) (CHR ''R'' # sample_image 0) (x_streamer x) =
      Some (CHR ''R'' # concat (incremental_frames (x_publisher x)), x_streamer x)" by (simp add: REPLAY_CAPACITY_def)
  with x(1) show ?thesis by blast
qed

text \<open>
  C13. Joining late, in a map-book exchange within its limits (\<open>in_limits\<close>, \<open>LastValue\<close>): a subscriber that asks for a snapshot at any moment gets messages between two control messages that carry
  the same sequence number \<open>m\<close>; if it reads the books from them and goes on with the updates after the \<open>m\<close>-th, it has, for
  every ticker, the open orders of the engine's book, as long as no request was one after which the feed lags the book.
\<close>

theorem exchange_late_join:
  assumes "lib_ok L V" and "queues_new V rq sq uq nq" and "pool_new ops pv pool" and "sz + 1 < 2 ^ 64"
    and "xl_books L = map_book_ops LastValue ops"
    and "x_reach L (map_exchange psz pool N f sz rq sq uq nq) k x" and "in_limits N (pv_cap pv pool) (\<lambda>_. True) k x"
    and "iter_spec (xl_iter L)" and "feed_polls MapBook (map Some (take (taken x) (ch_log (requestQ x)))) (replicate N a_empty, engine_io0)"
  shows "\<exists>reply s' msgs m As. handleClient (xl_itch L) (xl_iter L) clk (CHR ''S'' # rest) (x_streamer x) = Some (reply, s') \<and>
    reply = concat (map (il_bytes (xl_itch L)) msgs) \<and> m \<le> length (incremental_frames (x_publisher x)) \<and>
    (\<exists>a ms b. msgs = ctrl_msg (xl_itch L) SNAP_CTRL_START (of_nat m) a # ms @ [ctrl_msg (xl_itch L) SNAP_CTRL_END (of_nat m) b]) \<and>
    list_all2 (map_represents ops pv) (ticker_order_book (x_engine x)) As \<and>
    (\<forall>t < N. fold view_apply (filter (\<lambda>u. unat (mu_ticker_id u) = t) (drop m (marketUpdates (engine_out (x_engine x)))))
       (shown_view (xl_itch L) t msgs) = book_view (As ! t))"
proof -
  note inv = map_exchange_inv(1) [OF assms(1-7)] and T = map_exchange_typed [OF assms(1-7)]
  let ?m = "ch_read (streamerQ x)" and ?ups = "marketUpdates (snd (x_spec MapBook N x))"
  have pre: "length (ch_log (marketUpdateQ x)) < 2 ^ 64 - 1" "list_all update_typed (ch_log (marketUpdateQ x))"
    using assms(7) T(4) by (simp_all add: in_limits_def)
  obtain reply s' msgs where S: "handleClient (xl_itch L) (xl_iter L) clk (CHR ''S'' # rest) (x_streamer x) = Some (reply, s')"
    "reply = concat (map (il_bytes (xl_itch L)) msgs)"
    "\<exists>a ms b. msgs = ctrl_msg (xl_itch L) SNAP_CTRL_START (of_nat ?m) a # ms @ [ctrl_msg (xl_itch L) SNAP_CTRL_END (of_nat ?m) b]"
    "\<And>t. t < N \<Longrightarrow> shown_view (xl_itch L) t msgs =
      fold view_apply (filter (\<lambda>u. unat (mu_ticker_id u) = t) (take ?m (ch_log (marketUpdateQ x)))) Map.empty"
    using x_inv_snapshot [OF inv pre assms(8) refl, of clk rest] by blast
  have out: "marketUpdates (engine_out (x_engine x)) = ?ups" using inv by (simp add: x_inv_def engine_inv_def engine_rep_def)
  have upd: "take ?m (ch_log (marketUpdateQ x)) = take ?m ?ups"
    using x_inv_shadow(1) [OF inv] by (simp flip: x_inv_books(4) [OF inv])
  have path: "path_ok (replicate N []) (x_spec MapBook N x)" by (rule x_inv_path [OF inv in_limits_queue [OF assms(7)] assms(9)])
  have join: "fold view_apply (filter (\<lambda>u. unat (mu_ticker_id u) = t) (drop ?m ?ups)) (shown_view (xl_itch L) t msgs) =
      book_view (fst (x_spec MapBook N x) ! t)" if t: "t < N" for t
  proof -
    have "fold view_apply (filter (\<lambda>u. unat (mu_ticker_id u) = t) (drop ?m ?ups)) (shown_view (xl_itch L) t msgs) =
        fold view_apply (filter (\<lambda>u. unat (mu_ticker_id u) = t) (take ?m ?ups @ drop ?m ?ups)) Map.empty"
      unfolding S(4) [OF t] upd by (simp del: append_take_drop_id)
    also have "\<dots> = shadow_view (fold apply_update ?ups (replicate N []) ! t)"
      using fold_ticker [of t "replicate N []" ?ups] t by (simp add: shadow_view_def)
    finally show ?thesis using path t by (simp add: path_ok_def mirrored_def)
  qed
  have "?m \<le> length (incremental_frames (x_publisher x))" using x_inv_frames [OF inv] by blast
  with S(1-3) x_inv_books(1) [OF inv] join show ?thesis unfolding out by blast
qed

theorem exchange_late_join_witness:
  "\<exists>x reply s' msgs b A. x_reach (sample_lib sample_maps 4) (map_exchange 4 (fresh_pool 4) 1 4 3 [] [] [] []) 2 x \<and>
    handleClient sample_itch id (\<lambda>_. 0) ''S'' (x_streamer x) = Some (reply, s') \<and> reply = concat (map (il_bytes sample_itch) msgs) \<and>
    ticker_order_book (x_engine x) = [b] \<and> map_represents free_pool free_pool_view b A \<and>
    (\<exists>m. fold view_apply (filter (\<lambda>u. unat (mu_ticker_id u) = 0) (drop m (marketUpdates (engine_out (x_engine x))))) (shown_view sample_itch 0 msgs) = book_view A)"
proof -
  obtain x where x: "x_reach (sample_lib sample_maps 4) (map_exchange 4 (fresh_pool 4) 1 4 3 [] [] [] []) 2 x"
    "in_limits 1 (pv_cap free_pool_view (fresh_pool 4)) (\<lambda>_. True) 2 x"
    "feed_polls MapBook (map Some (take (taken x) (ch_log (requestQ x)))) (replicate 1 a_empty, engine_io0)"
    by (rule sample_resting_exchange)
  have o: "xl_itch (sample_lib sample_maps 4) = sample_itch" "xl_iter (sample_lib sample_maps 4) = id" by (simp_all add: sample_lib_def)
  have "iter_spec id" by (simp add: iter_spec_def)
  from exchange_late_join [OF sample_lib_ok4 sample_new sample_lib_books x(1,2), unfolded o, OF this x(3), of "\<lambda>_. 0" "[]"]
  obtain reply s' msgs m As where J: "handleClient sample_itch id (\<lambda>_. 0) ''S'' (x_streamer x) = Some (reply, s')"
    "reply = concat (map (il_bytes sample_itch) msgs)" "list_all2 (map_represents free_pool free_pool_view) (ticker_order_book (x_engine x)) As"
    "fold view_apply (filter (\<lambda>u. unat (mu_ticker_id u) = 0) (drop m (marketUpdates (engine_out (x_engine x))))) (shown_view sample_itch 0 msgs) = book_view (As ! 0)"
    by blast
  have "length (ticker_order_book (x_engine x)) = 1"
    using x_inv_books(1) [OF map_exchange_inv(1) [OF sample_lib_ok4 sample_new sample_lib_books x(1,2)]]
      a_run_length [of MapBook _ "replicate 1 a_empty" engine_io0] unfolding x_spec_def by (metis list_all2_lengthD length_replicate)
  then obtain b where b: "ticker_order_book (x_engine x) = [b]" by (auto simp: length_Suc_conv)
  then obtain A where "As = [A]" "map_represents free_pool free_pool_view b A" using J(3) by (auto simp: list_all2_Cons1)
  with J(1,2,4) b x(1) show ?thesis by (metis nth_Cons_0)
qed

end
