(* ===== verification/Startup.thy ===== *)
theory Startup
  imports Prelude "HOL-Library.Sublist"
begin

text \<open>
  What \<^verbatim>\<open>main.cpp\<close> does besides running the exchange: the command line, and the table of threads
  that \<^verbatim>\<open>printThreadPlacement\<close> reads from the file system. The file system is a parameter, from paths to contents,
  \<open>None\<close> for a file that cannot be opened. A result \<open>None\<close> is an exception nobody catches.
\<close>

section \<open>Strings\<close>

definition LF :: char where "LF = char_of (10 :: nat)"
definition CR :: char where "CR = char_of (13 :: nat)"
definition TAB :: char where "TAB = char_of (9 :: nat)"

definition is_space :: "char \<Rightarrow> bool" where
  "is_space c \<longleftrightarrow> c = CHR '' '' \<or> (9 \<le> (of_char c :: nat) \<and> (of_char c :: nat) \<le> 13)"

text \<open>Extraction of a string from a stream: the token and what is left; nothing is extracted at the end.\<close>

definition next_token :: "string \<Rightarrow> (string \<times> string) option" where
  "next_token s = (let t = dropWhile is_space s in
     if t = [] then None else Some (takeWhile (\<lambda>c. \<not> is_space c) t, dropWhile (\<lambda>c. \<not> is_space c) t))"

lemma next_token_shorter: "next_token s = Some (w, r) \<Longrightarrow> length r < length s"
proof -
  assume a: "next_token s = Some (w, r)"
  let ?t = "dropWhile is_space s"
  have t: "?t \<noteq> []" "r = dropWhile (\<lambda>c. \<not> is_space c) ?t" using a by (auto simp: next_token_def Let_def split: if_splits)
  then obtain c cs where c: "?t = c # cs" "\<not> is_space c" by (metis hd_dropWhile list.exhaust list.sel(1))
  then have "length r \<le> length cs" using t(2) by (simp add: length_dropWhile_le)
  moreover have "length (c # cs) \<le> length s" unfolding c(1) [symmetric] by (rule length_dropWhile_le)
  ultimately show "length r < length s" by simp
qed

function tokens :: "string \<Rightarrow> string list" where
  "tokens s = (case next_token s of None \<Rightarrow> [] | Some (w, r) \<Rightarrow> w # tokens r)"
  by auto
termination by (relation "measure length") (auto dest: next_token_shorter)

declare tokens.simps [simp del]

definition first_token :: "string \<Rightarrow> string" where
  "first_token s = (case next_token s of None \<Rightarrow> ''?'' | Some (w, r) \<Rightarrow> w)"

text \<open>\<^verbatim>\<open>std::getline\<close> until the end of the stream.\<close>

function getlines :: "string \<Rightarrow> string list" where
  "getlines [] = []"
| "getlines (c # s) = takeWhile (\<lambda>c. c \<noteq> LF) (c # s) # getlines (drop 1 (dropWhile (\<lambda>c. c \<noteq> LF) (c # s)))"
  by pat_completeness auto
termination by (relation "measure length") (auto simp: less_Suc_eq_le intro: le_trans [OF diff_le_self length_dropWhile_le])

text \<open>Positions are of type \<^verbatim>\<open>size_t\<close>, \<^verbatim>\<open>npos\<close> is its largest value, and sums of positions wrap around.\<close>

definition npos :: uint64 where "npos = - 1"

definition rfind :: "char \<Rightarrow> string \<Rightarrow> uint64" where
  "rfind c s = (if c \<in> set s then of_nat (length s - 1 - length (takeWhile (\<lambda>d. d \<noteq> c) (rev s))) else npos)"

definition substr :: "string \<Rightarrow> uint64 \<Rightarrow> string option" where
  "substr s pos = (if unat pos \<le> length s then Some (drop (unat pos) s) else None)"

definition setw :: "nat \<Rightarrow> string \<Rightarrow> string" where
  "setw n s = s @ replicate (n - length s) (CHR '' '')"

section \<open>Thread placement\<close>

type_synonym file_system = "string \<Rightarrow> string option"

definition readFile :: "file_system \<Rightarrow> string \<Rightarrow> string" where
  "readFile fs path = (case fs path of None \<Rightarrow> [] | Some bytes \<Rightarrow> bytes)"

definition task_file :: "string \<Rightarrow> string \<Rightarrow> string" where
  "task_file tid name = ''/proc/self/task/'' @ tid @ ''/'' @ name"

definition core_file :: "string \<Rightarrow> string" where
  "core_file cpu = ''/sys/devices/system/cpu/cpu'' @ cpu @ ''/topology/core_id''"

text \<open>The fields after the name of the thread, which stands in parentheses.\<close>

definition stat_fields :: "string \<Rightarrow> string list option" where
  "stat_fields stat = map_option tokens (substr stat (rfind (CHR '')'') stat + 2))"

definition strip_eol :: "string \<Rightarrow> string" where
  "strip_eol s = rev (dropWhile (\<lambda>c. c = CR \<or> c = LF) (rev s))"

fun find_allowed :: "string list \<Rightarrow> string option" where
  "find_allowed [] = Some ''?''"
| "find_allowed (line # lines) =
    (if prefix ''Cpus_allowed_list:'' line then map_option strip_eol (substr line 19) else find_allowed lines)"

text \<open>The row of a thread, \<open>Some None\<close> if it is left out.\<close>

definition thread_row :: "file_system \<Rightarrow> string \<Rightarrow> string option option" where
  "thread_row fs tid = do {
     f \<leftarrow> stat_fields (readFile fs (task_file tid ''stat''));
     if length f \<le> 36 then Some None
     else do {
       let cpu = f ! 36;
       allowed \<leftarrow> find_allowed (getlines (readFile fs (task_file tid ''status'')));
       let phys = first_token (readFile fs (core_file cpu));
       let comm = first_token (readFile fs (task_file tid ''comm''));
       Some (Some (setw 22 comm @ setw 8 tid @ setw 10 cpu @ phys @ ''   (allowed: '' @ allowed @ '')'' @ [LF]))
     }
   }"

text \<open>The rows of the table, for the threads in the order of the directory.\<close>

fun printThreadPlacement :: "file_system \<Rightarrow> string list \<Rightarrow> string option" where
  "printThreadPlacement fs [] = Some []"
| "printThreadPlacement fs (tid # tids) = do {
     row \<leftarrow> thread_row fs tid;
     rows \<leftarrow> printThreadPlacement fs tids;
     Some (case row of None \<Rightarrow> rows | Some r \<Rightarrow> r @ rows)
   }"

section \<open>The command line\<close>

definition is_digit :: "char \<Rightarrow> bool" where
  "is_digit c \<longleftrightarrow> 48 \<le> (of_char c :: nat) \<and> (of_char c :: nat) \<le> 57"

definition digits_value :: "string \<Rightarrow> int" where
  "digits_value s = foldl (\<lambda>n c. 10 * n + (of_char c - 48)) 0 (takeWhile is_digit s)"

text \<open>\<open>None\<close>: the value is outside the range of \<^verbatim>\<open>int\<close>, and the result of \<^verbatim>\<open>atoi\<close> undefined.\<close>

definition atoi :: "string \<Rightarrow> int option" where
  "atoi s = (let t = dropWhile is_space s;
       v = (case t of
              [] \<Rightarrow> 0
            | c # r \<Rightarrow> if c = CHR ''-'' then - digits_value r else if c = CHR ''+'' then digits_value r else digits_value t)
     in if - (2 ^ 31) \<le> v \<and> v < 2 ^ 31 then Some v else None)"

record config =
  gatewayIface :: string
  gatewayPort :: int
  incrementalIp :: string
  incrementalPort :: int
  snapshotTcpPort :: int
  mcastIface :: string
  coreMe :: int
  coreGateway :: int
  corePublisher :: int
  coreStreamer :: int
  coreLogger :: int

definition core_arg :: "string list \<Rightarrow> nat \<Rightarrow> int \<Rightarrow> int option" where
  "core_arg argv i dflt = (if i < length argv then atoi (argv ! i) else Some dflt)"

text \<open>\<open>Inl\<close> is the exit code after the usage message.\<close>

definition main_args :: "string list \<Rightarrow> (int + config) option" where
  "main_args argv =
    (if length argv < 7 then Some (Inl 1)
     else do {
       gp \<leftarrow> atoi (argv ! 2); ip \<leftarrow> atoi (argv ! 4); sp \<leftarrow> atoi (argv ! 5);
       me \<leftarrow> core_arg argv 7 1; gw \<leftarrow> core_arg argv 8 2; pu \<leftarrow> core_arg argv 9 4;
       st \<leftarrow> core_arg argv 10 6; lg \<leftarrow> core_arg argv 11 8;
       Some (Inr \<lparr>gatewayIface = argv ! 1, gatewayPort = gp, incrementalIp = argv ! 3, incrementalPort = ip,
         snapshotTcpPort = sp, mcastIface = argv ! 6, coreMe = me, coreGateway = gw, corePublisher = pu,
         coreStreamer = st, coreLogger = lg\<rparr>)
     })"

lemma main_args_usage: "length argv < 7 \<Longrightarrow> main_args argv = Some (Inl 1)"
  by (simp add: main_args_def)

text \<open>Without core arguments the five threads get different cores.\<close>

lemma main_args_defaults:
  assumes "length argv = 7" and "main_args argv = Some (Inr c)"
  shows "distinct [coreMe c, coreGateway c, corePublisher c, coreStreamer c, coreLogger c]"
  using assms by (auto simp: main_args_def core_arg_def split: Option.bind_splits)

section \<open>Reading the files of the kernel\<close>

definition spaced :: "string list \<Rightarrow> string" where
  "spaced ws = concat (map (\<lambda>w. CHR '' '' # w) ws)"

definition field_ok :: "string \<Rightarrow> bool" where
  "field_ok w \<longleftrightarrow> w \<noteq> [] \<and> list_all (\<lambda>c. \<not> is_space c \<and> c \<noteq> CHR '')'') w"

lemma space_simps [simp]: "is_space (CHR '' '')" "is_space LF"
  by (simp_all add: is_space_def LF_def)

lemma paren_no_space: "\<not> is_space (CHR '')'')"
  by (simp add: is_space_def)

lemma next_token_space [simp]: "is_space c \<Longrightarrow> next_token (c # s) = next_token s"
  by (simp add: next_token_def)

lemma next_token_word:
  assumes "field_ok w" and "s = [] \<or> is_space (hd s)"
  shows "next_token (w @ s) = Some (w, s)"
proof -
  obtain c cs where w: "w = c # cs" "\<not> is_space c" using assms(1) by (cases w) (auto simp: field_ok_def)
  have all: "\<And>x. x \<in> set w \<Longrightarrow> \<not> is_space x" using assms(1) by (auto simp: field_ok_def list_all_iff)
  have "takeWhile (\<lambda>c. \<not> is_space c) (w @ s) = w" "dropWhile (\<lambda>c. \<not> is_space c) (w @ s) = s"
    using all assms(2) by (cases s; simp add: takeWhile_append dropWhile_append)+
  moreover have "dropWhile is_space (w @ s) = w @ s" using w by simp
  ultimately show ?thesis using w by (simp add: next_token_def)
qed

lemma tokens_space [simp]: "is_space c \<Longrightarrow> tokens (c # s) = tokens s"
  by (subst (1 2) tokens.simps) simp

lemma tokens_spaced:
  assumes "list_all field_ok ws" and "list_all is_space s"
  shows "tokens (spaced ws @ s) = ws"
  using assms(1)
proof (induction ws)
  case Nil
  have "dropWhile is_space s = []" using assms(2) by (simp add: list_all_iff)
  then show ?case by (simp add: spaced_def) (simp add: tokens.simps next_token_def)
next
  case (Cons w ws)
  have "spaced ws @ s = [] \<or> is_space (hd (spaced ws @ s))" using assms(2) by (cases ws; cases s) (simp_all add: spaced_def)
  then have "next_token (w @ spaced ws @ s) = Some (w, spaced ws @ s)" using Cons.prems by (intro next_token_word) simp_all
  then have "tokens (w @ spaced ws @ s) = w # ws" using Cons by (subst tokens.simps) simp
  then show ?case by (simp add: spaced_def)
qed

lemma rfind_last:
  assumes "c \<notin> set b"
  shows "rfind c (a @ c # b) = of_nat (length a)"
proof -
  have "takeWhile (\<lambda>d. d \<noteq> c) (rev (a @ c # b)) = rev b" using assms by (simp add: takeWhile_append takeWhile_tail)
  then show ?thesis by (simp add: rfind_def)
qed

text \<open>The name of a thread may hold anything, parentheses and spaces included.\<close>

lemma stat_fields_format:
  assumes "list_all field_ok fl" and "fl \<noteq> []" and "length pre + 2 < 2 ^ 64"
  shows "stat_fields (pre @ '')'' @ spaced fl @ [LF]) = Some fl"
proof -
  obtain w ws where f: "fl = w # ws" using assms(2) by (cases fl) auto
  have "CHR '')'' \<notin> set (spaced ws')" if "list_all field_ok ws'" for ws'
    using that by (induction ws') (auto simp: spaced_def field_ok_def list.pred_set)
  moreover have "CHR '')'' \<noteq> LF" by (metis space_simps(2) paren_no_space)
  ultimately have "CHR '')'' \<notin> set (spaced fl @ [LF])" using assms(1) by simp
  then have r: "rfind (CHR '')'') (pre @ '')'' @ spaced fl @ [LF]) = of_nat (length pre)" using rfind_last by simp
  have "unat (of_nat (length pre + 2) :: uint64) = length pre + 2"
    by (rule unat_of_nat_small) (use assms(3) in simp)
  then have "unat (of_nat (length pre) + 2 :: uint64) = length pre + 2" by (simp only: of_nat_add of_nat_numeral)
  then have "substr (pre @ '')'' @ spaced fl @ [LF]) (of_nat (length pre) + 2) = Some (w @ spaced ws @ [LF])"
    by (simp add: substr_def f spaced_def)
  moreover have "tokens (w @ spaced ws @ [LF]) = fl"
    using tokens_spaced [OF assms(1), of "[LF]"] by (simp add: f spaced_def)
  ultimately show ?thesis unfolding stat_fields_def r by simp
qed

lemma getlines_format: "list_all (\<lambda>l. LF \<notin> set l) ls \<Longrightarrow> getlines (concat (map (\<lambda>l. l @ [LF]) ls)) = ls"
proof (induction ls)
  case (Cons l ls)
  have l: "takeWhile (\<lambda>c. c \<noteq> LF) (l @ LF # s) = l" "dropWhile (\<lambda>c. c \<noteq> LF) (l @ LF # s) = LF # s" for s
    using Cons.prems by (auto simp: takeWhile_append dropWhile_append takeWhile_tail)
  have "getlines (l @ LF # s) = l # getlines s" for s
    using l [of s] by (cases l) (simp_all add: getlines.simps(2) [where c = LF and s = s])
  with Cons show ?case by simp
qed simp

lemma find_allowed_format:
  assumes "list_all (\<lambda>l. \<not> prefix ''Cpus_allowed_list:'' l) before" and "\<And>c. c \<in> set cpus \<Longrightarrow> c \<noteq> CR \<and> c \<noteq> LF"
  shows "find_allowed (before @ (''Cpus_allowed_list:'' @ TAB # cpus) # after) = Some cpus"
  using assms(1)
proof (induction before)
  case Nil
  have "dropWhile (\<lambda>c. c = CR \<or> c = LF) (rev cpus) = rev cpus"
    using assms(2) by (cases "rev cpus") (auto simp flip: set_rev [of cpus])
  then show ?case by (simp add: substr_def strip_eol_def)
qed simp

text \<open>A thread whose files are gone by the time they are read.\<close>

lemma gone_stat: "stat_fields [] = None"
  by (simp add: stat_fields_def rfind_def npos_def substr_def)

lemma gone_placement: "tid \<in> set tids \<Longrightarrow> fs (task_file tid ''stat'') = None \<Longrightarrow> printThreadPlacement fs tids = None"
  by (induction tids) (auto simp: thread_row_def readFile_def gone_stat split: Option.bind_splits)

section \<open>The table\<close>

text \<open>What the kernel writes about a thread: its name in parentheses, then the fields; a line with its CPUs.\<close>

record task =
  tk_tid :: string
  tk_name :: string
  tk_fields :: "string list"
  tk_before :: "string list"
  tk_cpus :: string
  tk_after :: "string list"

definition stat_file :: "task \<Rightarrow> string" where
  "stat_file t = (tk_tid t @ '' ('' @ tk_name t) @ '')'' @ spaced (tk_fields t) @ [LF]"

definition status_lines :: "task \<Rightarrow> string list" where
  "status_lines t = tk_before t @ (''Cpus_allowed_list:'' @ TAB # tk_cpus t) # tk_after t"

definition described :: "file_system \<Rightarrow> task \<Rightarrow> bool" where
  "described fs t \<longleftrightarrow> fs (task_file (tk_tid t) ''stat'') = Some (stat_file t) \<and>
     fs (task_file (tk_tid t) ''status'') = Some (concat (map (\<lambda>l. l @ [LF]) (status_lines t))) \<and>
     list_all field_ok (tk_fields t) \<and> 36 < length (tk_fields t) \<and> length (tk_tid t) + length (tk_name t) + 4 < 2 ^ 64 \<and>
     list_all (\<lambda>l. LF \<notin> set l) (status_lines t) \<and> CR \<notin> set (tk_cpus t) \<and>
     list_all (\<lambda>l. \<not> prefix ''Cpus_allowed_list:'' l) (tk_before t)"

text \<open>The processor is field 39 of the file, the 37th after the name.\<close>

definition task_row :: "file_system \<Rightarrow> task \<Rightarrow> string" where
  "task_row fs t = (let cpu = tk_fields t ! 36 in
     setw 22 (first_token (readFile fs (task_file (tk_tid t) ''comm''))) @ setw 8 (tk_tid t) @ setw 10 cpu @
     first_token (readFile fs (core_file cpu)) @ ''   (allowed: '' @ tk_cpus t @ '')'' @ [LF])"

lemma described_row:
  assumes "described fs t"
  shows "thread_row fs (tk_tid t) = Some (Some (task_row fs t))"
proof -
  have "stat_fields (readFile fs (task_file (tk_tid t) ''stat'')) = Some (tk_fields t)"
    using assms stat_fields_format [of "tk_fields t" "tk_tid t @ '' ('' @ tk_name t"]
    by (cases "tk_fields t") (auto simp: described_def readFile_def stat_file_def)
  moreover have "getlines (readFile fs (task_file (tk_tid t) ''status'')) = status_lines t"
    using assms getlines_format by (simp add: described_def readFile_def)
  moreover have "find_allowed (status_lines t) = Some (tk_cpus t)"
    unfolding status_lines_def by (rule find_allowed_format) (use assms in \<open>auto simp: described_def status_lines_def\<close>)
  moreover have "\<not> length (tk_fields t) \<le> 36" using assms by (simp add: described_def)
  ultimately show ?thesis by (simp add: thread_row_def task_row_def Let_def)
qed

text \<open>
  C38. The table of threads: for the files the kernel writes, \<^verbatim>\<open>printThreadPlacement\<close> shows for every thread its number, the processor it
  last ran on and the processors it may run on, whatever the names of the threads are, parentheses and spaces included.
\<close>

theorem placement_table:
  assumes "list_all (described fs) ts"
  shows "printThreadPlacement fs (map tk_tid ts) = Some (concat (map (task_row fs) ts))"
  using assms by (induction ts) (simp_all add: described_row)

definition sample_task :: task where
  "sample_task = \<lparr>tk_tid = ''42'', tk_name = ''a) (b'', tk_fields = replicate 37 ''3'', tk_before = [''Name: a''],
     tk_cpus = ''0-3'', tk_after = []\<rparr>"

definition sample_files :: file_system where
  "sample_files path =
    (if path = task_file ''42'' ''stat'' then Some (stat_file sample_task)
     else if path = task_file ''42'' ''status'' then Some (concat (map (\<lambda>l. l @ [LF]) (status_lines sample_task))) else None)"

lemma sample_described: "described sample_files sample_task"
proof -
  have "list_all field_ok (tk_fields sample_task) \<and> 36 < length (tk_fields sample_task) \<and>
      list_all (\<lambda>l. LF \<notin> set l) (status_lines sample_task) \<and> CR \<notin> set (tk_cpus sample_task) \<and>
      list_all (\<lambda>l. \<not> prefix ''Cpus_allowed_list:'' l) (tk_before sample_task)"
    by code_simp
  moreover have "tk_tid sample_task = ''42''" "length (tk_name sample_task) = 5" by (simp_all add: sample_task_def)
  ultimately show ?thesis by (simp add: described_def sample_files_def task_file_def)
qed

theorem placement_table_witness:
  "printThreadPlacement sample_files [''42''] =
    Some (setw 22 ''?'' @ setw 8 ''42'' @ setw 10 ''3'' @ ''?'' @ ''   (allowed: 0-3)'' @ [LF])"
proof -
  from placement_table [of sample_files "[sample_task]"] sample_described
  have "printThreadPlacement sample_files [''42''] = Some (task_row sample_files sample_task)" by (simp add: sample_task_def)
  moreover have "task_row sample_files sample_task = setw 22 ''?'' @ setw 8 ''42'' @ setw 10 ''3'' @ ''?'' @ ''   (allowed: 0-3)'' @ [LF]"
    by code_simp
  ultimately show ?thesis by simp
qed

end
