(* ===== verification/Layout.thy ===== *)
theory Layout
  imports Types
begin

text \<open>
  The layout of the message structs of \<^verbatim>\<open>src/src/types.h\<close> in memory, and the \<^verbatim>\<open>static_assert\<close>s at the end of that file. A member has a
  size and an alignment; members are placed in the order of their declaration, each at the next multiple of
  its alignment, and the size of the struct is rounded up to its largest alignment, as on the x86-64 hosts the program is
  written for. The comment in \<^verbatim>\<open>types.h\<close> asks for members ordered widest first: it is shown that this order is as small as any.
\<close>

section \<open>Structs as the compiler lays them out\<close>

record struct_member =
  sm_size :: nat
  sm_align :: nat

definition align_up :: "nat \<Rightarrow> nat \<Rightarrow> nat" where
  "align_up n a = (n + a - 1) div a * a"

fun place :: "nat \<Rightarrow> struct_member list \<Rightarrow> nat" where
  "place n [] = n"
| "place n (m # ms) = place (align_up n (sm_align m) + sm_size m) ms"

definition struct_align :: "struct_member list \<Rightarrow> nat" where
  "struct_align ms = fold (\<lambda>m. max (sm_align m)) ms 1"

definition struct_size :: "struct_member list \<Rightarrow> nat" where
  "struct_size ms = align_up (place 0 ms) (struct_align ms)"

abbreviation uint64_t :: struct_member where "uint64_t \<equiv> \<lparr>sm_size = 8, sm_align = 8\<rparr>"
abbreviation uint32_t :: struct_member where "uint32_t \<equiv> \<lparr>sm_size = 4, sm_align = 4\<rparr>"
abbreviation uint8_t :: struct_member where "uint8_t \<equiv> \<lparr>sm_size = 1, sm_align = 1\<rparr>"
abbreviation pointer :: struct_member where "pointer \<equiv> \<lparr>sm_size = 8, sm_align = 8\<rparr>"
abbreviation order_token :: struct_member where "order_token \<equiv> \<lparr>sm_size = OUCH_TOKEN_LEN, sm_align = 1\<rparr>"

section \<open>The structs of the source\<close>

definition MEClientRequest_members :: "struct_member list" where
  "MEClientRequest_members =
    [uint64_t, uint64_t, uint64_t, uint64_t, uint32_t, uint32_t, uint8_t, uint8_t, uint8_t, order_token]"

definition MEClientResponse_members :: "struct_member list" where
  "MEClientResponse_members =
    [uint64_t, uint64_t, uint64_t, uint64_t, uint64_t, uint64_t, uint32_t, uint32_t, uint32_t, uint32_t,
     uint8_t, uint8_t, uint8_t, order_token]"

definition MEMarketUpdate_members :: "struct_member list" where
  "MEMarketUpdate_members = [uint32_t, uint64_t, uint8_t, uint8_t, uint64_t, uint32_t, uint64_t, uint64_t]"

definition MEOrder_members :: "struct_member list" where
  "MEOrder_members =
    [uint64_t, uint64_t, uint64_t, uint64_t, pointer, pointer, uint32_t, uint32_t, uint32_t, uint8_t, uint8_t, order_token]"

definition types_static_asserts :: bool where
  "types_static_asserts \<longleftrightarrow> struct_size MEClientRequest_members = 64 \<and> struct_size MEClientResponse_members = 88 \<and>
     struct_size MEOrder_members = 80"

section \<open>Widest first\<close>

text \<open>Sizes are multiples of alignments, and of two alignments the larger is a multiple of the smaller.\<close>

definition members_ok :: "struct_member list \<Rightarrow> bool" where
  "members_ok ms \<longleftrightarrow> (\<forall>m\<in>set ms. 0 < sm_align m \<and> sm_align m dvd sm_size m \<and>
     (\<forall>m'\<in>set ms. sm_align m' \<le> sm_align m \<longrightarrow> sm_align m' dvd sm_align m))"

definition widest_first :: "struct_member list \<Rightarrow> bool" where
  "widest_first ms \<longleftrightarrow> sorted_wrt (\<lambda>m m'. sm_align m' \<le> sm_align m) ms"

definition members_total :: "struct_member list \<Rightarrow> nat" where
  "members_total ms = sum_list (map sm_size ms)"

lemma align_up_ge: "0 < a \<Longrightarrow> n \<le> align_up n a"
  using div_mult_mod_eq [of "n + a - 1" a] mod_less_divisor [of a "n + a - 1"] unfolding align_up_def by linarith

lemma align_up_mono: "n \<le> n' \<Longrightarrow> align_up n a \<le> align_up n' a"
  by (simp add: align_up_def div_le_mono)

lemma align_up_dvd:
  assumes "0 < a" and "a dvd n"
  shows "align_up n a = n"
proof -
  obtain k where n: "n = a * k" using assms(2) by (rule dvdE)
  have "(a * k + (a - 1)) div a = k" using assms(1) div_mult_self4 [of a k "a - 1"] by simp
  with assms(1) show ?thesis by (simp add: align_up_def n)
qed

lemma place_ge:
  assumes "\<forall>m\<in>set ms. 0 < sm_align m"
  shows "n + members_total ms \<le> place n ms"
  using assms
proof (induction ms arbitrary: n)
  case (Cons m ms)
  have "n \<le> align_up n (sm_align m)" using Cons.prems by (simp add: align_up_ge)
  with Cons.IH [of "align_up n (sm_align m) + sm_size m"] Cons.prems show ?case by (simp add: members_total_def)
qed (simp add: members_total_def)

text \<open>Widest first leaves no gaps.\<close>

lemma place_widest:
  assumes "members_ok ms" and "widest_first ms" and "\<forall>m\<in>set ms. sm_align m dvd n"
  shows "place n ms = n + members_total ms"
  using assms
proof (induction ms arbitrary: n)
  case (Cons m ms)
  have "sm_align m' dvd n + sm_size m" if m': "m' \<in> set ms" for m'
  proof -
    have "sm_align m' dvd sm_align m" "sm_align m dvd sm_size m"
      using Cons.prems(1,2) m' by (auto simp: members_ok_def widest_first_def)
    then show ?thesis using Cons.prems(3) m' by (meson dvd_add dvd_trans list.set_intros(2))
  qed
  moreover have "members_ok ms" "widest_first ms" using Cons.prems(1,2) by (auto simp: members_ok_def widest_first_def)
  moreover have "align_up n (sm_align m) = n" using Cons.prems(1,3) by (intro align_up_dvd) (auto simp: members_ok_def)
  ultimately show ?case using Cons.IH [of "n + sm_size m"] by (simp add: members_total_def)
qed (simp add: members_total_def)

lemma struct_align_perm: "mset ms = mset ms' \<Longrightarrow> struct_align ms = struct_align ms'"
proof -
  have "struct_align ms = Max (set (1 # map sm_align ms))" for ms
    unfolding Max.set_eq_fold struct_align_def by (simp add: fold_map comp_def)
  then show "mset ms = mset ms' \<Longrightarrow> struct_align ms = struct_align ms'" using mset_eq_setD [of ms ms'] by simp
qed

lemma widest_first_minimal:
  assumes "members_ok ms" and "widest_first ms" and "mset ms' = mset ms"
  shows "struct_size ms \<le> struct_size ms'"
proof -
  have "members_total ms' = members_total ms" using assms(3) by (metis members_total_def mset_map sum_mset_sum_list)
  moreover have "\<forall>m\<in>set ms'. 0 < sm_align m" using assms(1,3) mset_eq_setD by (fastforce simp: members_ok_def)
  ultimately have "place 0 ms \<le> place 0 ms'" using place_widest [OF assms(1,2), of 0] place_ge [of ms' 0] by simp
  then show ?thesis unfolding struct_size_def struct_align_perm [OF assms(3)] by (rule align_up_mono)
qed

text \<open>
  The structs are laid out as their \<^verbatim>\<open>static_assert\<close>s say, and no order of their members would make the request, the response or the
  order smaller. The market update is not ordered widest first, as the comment on the structs says of all of them: it
  has 56 bytes, and 48 in another order.
\<close>

theorem struct_layouts:
  "types_static_asserts \<and>
   (\<forall>ms. mset ms = mset MEClientRequest_members \<longrightarrow> struct_size MEClientRequest_members \<le> struct_size ms) \<and>
   (\<forall>ms. mset ms = mset MEClientResponse_members \<longrightarrow> struct_size MEClientResponse_members \<le> struct_size ms) \<and>
   (\<forall>ms. mset ms = mset MEOrder_members \<longrightarrow> struct_size MEOrder_members \<le> struct_size ms) \<and>
   struct_size MEMarketUpdate_members = 56 \<and> (\<exists>ms. mset ms = mset MEMarketUpdate_members \<and> struct_size ms = 48)"
proof -
  have "types_static_asserts" "struct_size MEMarketUpdate_members = 56" by code_simp+
  moreover have "members_ok MEClientRequest_members" "members_ok MEClientResponse_members" "members_ok MEOrder_members"
    by (simp_all add: members_ok_def MEClientRequest_members_def MEClientResponse_members_def MEOrder_members_def)
  moreover have "widest_first MEClientRequest_members" "widest_first MEClientResponse_members" "widest_first MEOrder_members"
    by (simp_all add: widest_first_def MEClientRequest_members_def MEClientResponse_members_def MEOrder_members_def)
  moreover have "mset [uint64_t, uint64_t, uint64_t, uint64_t, uint32_t, uint32_t, uint8_t, uint8_t] = mset MEMarketUpdate_members"
    by (simp add: MEMarketUpdate_members_def add_mset_commute)
  moreover have "struct_size [uint64_t, uint64_t, uint64_t, uint64_t, uint32_t, uint32_t, uint8_t, uint8_t] = 48" by code_simp
  ultimately show ?thesis using widest_first_minimal by blast
qed

theorem struct_layouts_witness:
  "mset (rev MEOrder_members) = mset MEOrder_members \<and> struct_size MEOrder_members \<le> struct_size (rev MEOrder_members)"
  using struct_layouts by simp

end
