(* ===== verification/Instrumentation.thy ===== *)
theory Instrumentation
  imports Outputs
begin

text \<open>
  The instrumentation of \<^verbatim>\<open>src/src/instrumentation/perf_utils.h\<close> and the records it writes while the engine handles a
  request. The cycle counter and the clock are read by the library; their readings are arguments. The logger is the
  library's as well: it is modelled by the calls to \<^verbatim>\<open>log\<close>, format, tag and value, oldest first.
\<close>

record log_call =
  lc_format :: string
  lc_tag :: string
  lc_value :: uint64

type_synonym logger = "log_call list"

section \<open>The operations of the source\<close>

definition log_cycles :: "string \<Rightarrow> uint64 \<Rightarrow> logger \<Rightarrow> logger" where
  "log_cycles tag cycles lg = lg @ [\<lparr>lc_format = ''RDTSC % %'', lc_tag = tag, lc_value = cycles\<rparr>]"

text \<open>\<open>now\<close> is what \<^verbatim>\<open>TimeConverter::get_time\<close> returns, or the timestamp the caller passes.\<close>

definition log_timestamp :: "string \<Rightarrow> uint64 \<Rightarrow> logger \<Rightarrow> logger" where
  "log_timestamp tag now lg = lg @ [\<lparr>lc_format = ''TTT % %'', lc_tag = tag, lc_value = now\<rparr>]"

text \<open>\<^verbatim>\<open>START_MEASURE\<close> keeps a reading of the counter, \<^verbatim>\<open>END_MEASURE\<close> logs the difference of a second one to it.\<close>

definition START_MEASURE :: "uint64 \<Rightarrow> uint64" where
  "START_MEASURE rdtsc_start = rdtsc_start"

definition END_MEASURE :: "string \<Rightarrow> uint64 \<Rightarrow> uint64 \<Rightarrow> logger \<Rightarrow> logger" where
  "END_MEASURE tag start_cycles rdtsc_end lg = log_cycles tag (rdtsc_end - start_cycles) lg"

section \<open>The records of a request\<close>

text \<open>
  The records of the messages the engine sends for a request: the two readings of the counter around a message are
  \<open>tsc k\<close> and \<open>tsc (k + 1)\<close>, the time after the push is \<open>clk k\<close>. \<open>Inl\<close> is a response, \<open>Inr\<close> a market update.
\<close>

fun send_records :: "(nat \<Rightarrow> uint64) \<Rightarrow> (nat \<Rightarrow> uint64) \<Rightarrow> nat \<Rightarrow> ('a + 'c) list \<Rightarrow> logger \<Rightarrow> logger" where
  "send_records tsc clk k [] lg = lg"
| "send_records tsc clk k (Inl response # out) lg =
    (let start = START_MEASURE (tsc k);
         lg = log_timestamp ''T4t_MatchingEngine_LFQueue_write'' (clk k) lg;
         lg = END_MEASURE ''Exchange_MatchingEngine_sendClientResponse'' start (tsc (k + 1)) lg
     in send_records tsc clk (k + 2) out lg)"
| "send_records tsc clk k (Inr update # out) lg =
    (let start = START_MEASURE (tsc k);
         lg = log_timestamp ''T4_MatchingEngine_LFQueue_write'' (clk k) lg;
         lg = END_MEASURE ''Exchange_MatchingEngine_sendMarketUpdate'' start (tsc (k + 1)) lg
     in send_records tsc clk (k + 2) out lg)"

definition request_records :: "(nat \<Rightarrow> uint64) \<Rightarrow> (nat \<Rightarrow> uint64) \<Rightarrow> ('a + 'c) list \<Rightarrow> logger \<Rightarrow> logger" where
  "request_records tsc clk out lg =
    (let lg = log_timestamp ''T3_MatchingEngine_LFQueue_read'' (clk 0) lg;
         start = START_MEASURE (tsc 0);
         lg = send_records tsc clk 1 out lg
     in END_MEASURE ''Exchange_MatchingEngine_processClientRequest'' start (tsc (2 * length out + 1)) lg)"

section \<open>What the records say\<close>

text \<open>A counter that wraps around still measures: the difference of two readings is the distance of what they stand for.\<close>

lemma elapsed_exact:
  assumes "a \<le> b" and "b - a < 2 ^ 64"
  shows "unat (of_nat b - of_nat a :: uint64) = b - a"
proof -
  have "of_nat b - of_nat a = (of_nat (b - a) :: uint64)" using assms(1) by (simp add: of_nat_diff)
  with assms(2) show ?thesis by (simp add: unat_of_nat_small)
qed

definition cycles_of :: "logger \<Rightarrow> nat list" where
  "cycles_of lg = map (\<lambda>l. unat (lc_value l)) (filter (\<lambda>l. lc_format l = ''RDTSC % %'') lg)"

lemma cycles_of_simps [simp]:
  "cycles_of [] = []"
  "cycles_of (log_timestamp tag now lg) = cycles_of lg"
  "cycles_of (END_MEASURE tag s e lg) = cycles_of lg @ [unat (e - s)]"
  by (simp_all add: cycles_of_def log_timestamp_def END_MEASURE_def log_cycles_def)

text \<open>The messages of a request, with a counter that stands for \<open>T\<close>, from the \<open>k\<close>-th reading on.\<close>

definition reads :: "(nat \<Rightarrow> nat) \<Rightarrow> nat \<Rightarrow> uint64" where
  "reads T k = of_nat (T k)"

lemma send_cycles:
  assumes "mono T" and "T (k + 2 * length out) - T k < 2 ^ 64"
  shows "cycles_of (send_records (reads T) clk k out lg) = cycles_of lg @ map (\<lambda>i. T (k + 2 * i + 1) - T (k + 2 * i)) [0..<length out]"
  using assms(2)
proof (induction out arbitrary: k lg)
  case (Cons m out)
  have le: "T k \<le> T (k + 1)" "T (k + 1) \<le> T (k + 2)" "T (k + 2) \<le> T (k + 2 * length (m # out))"
    by (rule monoD [OF assms(1)], simp)+
  have "unat (reads T (k + 1) - reads T k) = T (k + 1) - T k"
    unfolding reads_def by (rule elapsed_exact) (use le Cons.prems in linarith)+
  moreover have "T (k + 2 + 2 * length out) - T (k + 2) < 2 ^ 64" using le Cons.prems by simp
  note Cons.IH [OF this]
  moreover have "map (\<lambda>i. T (k + 2 * i + 1) - T (k + 2 * i)) [0..<length (m # out)] =
      (T (k + 1) - T k) # map (\<lambda>i. T (k + 2 + 2 * i + 1) - T (k + 2 + 2 * i)) [0..<length out]"
    by (simp add: upt_conv_Cons map_Suc_upt [symmetric] comp_def add_ac del: upt_Suc)
  ultimately show ?case by (cases m) (simp_all add: Let_def START_MEASURE_def)
qed simp

lemma gaps_sum:
  assumes "mono T"
  shows "(\<Sum>i\<leftarrow>[0..<n]. T (k + 2 * i + 1) - T (k + 2 * i :: nat) :: nat) \<le> T (k + 2 * n) - T k"
proof (induction n)
  case (Suc n)
  have "T k \<le> T (k + 2 * n)" "T (k + 2 * n) \<le> T (k + 2 * n + 1)" "T (k + 2 * n + 1) \<le> T (k + 2 * Suc n)"
    by (rule monoD [OF assms], simp)+
  with Suc show ?case by simp
qed simp

text \<open>
  C39. The cycle records of a request: if the readings of the counter are those of a time that does not run backwards, taken modulo
  \<open>2 ^ 64\<close>, and the request takes less than \<open>2 ^ 64\<close> cycles, then the engine logs one record for each message it sends and
  one for the request, each the exact number of cycles between its two readings even when the counter wraps in between; and all messages
  together take no longer than the request.
\<close>

theorem request_measured:
  assumes "mono T" and "T (2 * length out + 1) - T 0 < 2 ^ 64"
  shows "\<exists>inner. cycles_of (request_records (reads T) clk out []) = inner @ [T (2 * length out + 1) - T 0] \<and>
    length inner = length out \<and> (\<forall>i < length out. inner ! i = T (2 * i + 2) - T (2 * i + 1)) \<and>
    sum_list inner \<le> T (2 * length out + 1) - T 0"
proof -
  let ?n = "length out" and ?inner = "map (\<lambda>i. T (1 + 2 * i + 1) - T (1 + 2 * i)) [0..<length out]"
  have le: "T 0 \<le> T 1" "T 1 \<le> T (1 + 2 * ?n)" by (rule monoD [OF assms(1)], simp)+
  then have "T (1 + 2 * ?n) - T 1 < 2 ^ 64" using assms(2) by simp
  note send_cycles [OF assms(1) this]
  moreover have "unat (reads T (2 * ?n + 1) - reads T 0) = T (2 * ?n + 1) - T 0"
    unfolding reads_def by (rule elapsed_exact) (use le assms(2) in simp_all)
  ultimately have "cycles_of (request_records (reads T) clk out []) = ?inner @ [T (2 * ?n + 1) - T 0]"
    by (simp add: request_records_def Let_def START_MEASURE_def)
  moreover have "sum_list ?inner \<le> T (2 * ?n + 1) - T 0"
    using gaps_sum [OF assms(1), of 1 ?n] le by simp
  ultimately show ?thesis by (intro exI [of _ ?inner]) simp
qed

text \<open>A response and an update, with a counter that wraps between the readings.\<close>

theorem request_measured_witness:
  "cycles_of (request_records (reads (\<lambda>k. 2 ^ 64 - 10 + 7 * k)) (\<lambda>_. 0) ([Inl (), Inr ()] :: (unit + unit) list) []) = [7, 7, 35]"
proof -
  let ?T = "\<lambda>k. 2 ^ 64 - 10 + 7 * k :: nat" and ?out = "[Inl (), Inr ()] :: (unit + unit) list"
  have "mono ?T" "?T (2 * length ?out + 1) - ?T 0 < 2 ^ 64" by (simp_all add: mono_def)
  from request_measured [OF this, of "\<lambda>_. 0"] obtain inner
    where I: "cycles_of (request_records (reads ?T) (\<lambda>_. 0) ?out []) = inner @ [?T (2 * length ?out + 1) - ?T 0]" "length inner = length ?out"
      "\<forall>i < length ?out. inner ! i = ?T (2 * i + 2) - ?T (2 * i + 1)" by blast
  obtain a b where "inner = [a, b]" using I(2) by (auto simp: length_Suc_conv)
  moreover have "inner ! 0 = 7" "inner ! 1 = 7" using I(3) by simp_all
  ultimately show ?thesis using I(1) by simp
qed

end
