(* ===== verification/Console.thy ===== *)
theory Console
  imports Startup ExchangeSamples
begin

text \<open>
  What \<^verbatim>\<open>main.cpp\<close> writes: the usage text, the banner, the table of threads with its frame, the messages of start and shutdown, and the
  report of the crash handler. Text is the bytes written, so the line-drawing characters stand in UTF-8.
\<close>

section \<open>Text\<close>

definition rep :: "nat \<Rightarrow> string \<Rightarrow> string" where
  "rep n s = concat (replicate n s)"

definition box_h :: string where "box_h = [CHR 0xE2, CHR 0x94, CHR 0x80]"
definition box_h2 :: string where "box_h2 = [CHR 0xE2, CHR 0x95, CHR 0x90]"
definition box_v :: string where "box_v = [CHR 0xE2, CHR 0x95, CHR 0x91]"
definition box_tl :: string where "box_tl = [CHR 0xE2, CHR 0x95, CHR 0x94]"
definition box_tr :: string where "box_tr = [CHR 0xE2, CHR 0x95, CHR 0x97]"
definition box_bl :: string where "box_bl = [CHR 0xE2, CHR 0x95, CHR 0x9A]"
definition box_br :: string where "box_br = [CHR 0xE2, CHR 0x95, CHR 0x9D]"

text \<open>Integers in decimal.\<close>

fun show_nat :: "nat \<Rightarrow> string" where
  "show_nat n = (if n < 10 then [char_of (48 + n)] else show_nat (n div 10) @ [char_of (48 + n mod 10)])"

declare show_nat.simps [simp del]

definition show_int :: "int \<Rightarrow> string" where
  "show_int i = (if i < 0 then ''-'' @ show_nat (nat (- i)) else show_nat (nat i))"

section \<open>The operations of the source\<close>

definition printUsage :: "string \<Rightarrow> string" where
  "printUsage prog =
    [LF] @ ''Usage: '' @ prog @ '' <gateway_iface> <gateway_port>'' @
    '' <incremental_ip> <incremental_port>'' @
    '' <snapshot_tcp_port>'' @
    '' <mcast_iface>'' @
    '' [core_me] [core_gateway] [core_publisher] [core_streamer] [core_logger]'' @ [LF] @
    [LF] @ ''Example:'' @ [LF] @
    ''  '' @ prog @ '' lo 10000'' @
    '' 224.0.0.1 20001'' @
    '' 20002'' @
    '' lo 1 2 4 6 8'' @ [LF] @
    [LF] @ ''Notes:'' @ [LF] @
    ''  core_* = CPU core to pin each thread to (-1 = OS decides).'' @ [LF] @
    ''  Defaults (distinct physical cores on SMT machines):'' @ [LF] @
    ''  core_me=1  core_gateway=2  core_publisher=4  core_streamer=6  core_logger=8'' @ [LF] @ [LF]"

text \<open>The whole output of \<^verbatim>\<open>printThreadPlacement\<close>: its heading, the rows, a line.\<close>

definition placement_report :: "file_system \<Rightarrow> nat \<Rightarrow> string list \<Rightarrow> string option" where
  "placement_report fs pid tids = do {
     rows \<leftarrow> printThreadPlacement fs tids;
     Some ([LF] @ rep 2 box_h @ '' Thread placement (PID '' @ show_nat pid @ '') '' @ rep 19 box_h @ [LF] @
       setw 22 ''THREAD'' @ setw 8 ''TID'' @ setw 10 ''CPU'' @ ''PHYSICAL CORE'' @ [LF] @
       rows @
       rep 55 box_h @ [LF] @ [LF])
   }"

definition banner :: "config \<Rightarrow> string" where
  "banner c =
    [LF] @
    box_tl @ rep 54 box_h2 @ box_tr @ [LF] @
    box_v @ ''              NanoExchange  v1.0                      '' @ box_v @ [LF] @
    box_bl @ rep 54 box_h2 @ box_br @ [LF] @
    ''  Tickers          : '' @ show_nat NUM_TICKERS @ [LF] @
    ''  Gateway          : '' @ gatewayIface c @ '':'' @ show_int (gatewayPort c) @ [LF] @
    ''  Incremental feed : '' @ incrementalIp c @ '':'' @ show_int (incrementalPort c) @ [LF] @
    ''  Snapshot TCP     : '' @ show_int (snapshotTcpPort c) @ [LF] @
    ''  Mcast iface      : '' @ mcastIface c @ [LF] @
    ''  Core ME          : '' @ show_int (coreMe c) @ [LF] @
    ''  Core Gateway     : '' @ show_int (coreGateway c) @ [LF] @
    ''  Core Publisher   : '' @ show_int (corePublisher c) @ [LF] @
    ''  Core Streamer    : '' @ show_int (coreStreamer c) @ [LF] @
    ''  Core Logger      : '' @ show_int (coreLogger c) @ [LF] @
    ''  Press Ctrl+C to stop'' @ [LF] @ [LF]"

text \<open>
  The crash handler: what it writes to \<^verbatim>\<open>/tmp/crash_bt.txt\<close> if the file can be opened, and the exit code. The name of the
  thread, the ids, the two addresses as \<^verbatim>\<open>%p\<close> prints them and the lines of the backtrace come from the system.
\<close>

definition crashHandler :: "bool \<Rightarrow> int \<Rightarrow> string \<Rightarrow> int \<Rightarrow> int \<Rightarrow> string \<Rightarrow> string \<Rightarrow> string list \<Rightarrow> string option \<times> int" where
  "crashHandler can_open sig comm pid tid addr rip backtrace =
    (if can_open then
       Some (''signal '' @ show_int sig @ '', thread '' @ [CHR 0x27] @ comm @ [CHR 0x27] @ '', pid '' @ show_int pid @ '' tid '' @ show_int tid @
         '', fault addr '' @ addr @ '', RIP '' @ rip @ [LF] @ concat (map (\<lambda>l. l @ [LF]) backtrace))
     else None, 1)"

text \<open>The signals \<^verbatim>\<open>main\<close> installs handlers for.\<close>

datatype signal = SIGINT | SIGTERM | SIGSEGV | SIGABRT | SIGBUS | SIGFPE | OtherSignal
datatype disposition = SetsFlag | Crashes | DefaultAction

definition installed :: "signal \<Rightarrow> disposition" where
  "installed sig =
    (if sig \<in> {SIGINT, SIGTERM} then SetsFlag
     else if sig \<in> {SIGSEGV, SIGABRT, SIGBUS, SIGFPE} then Crashes else DefaultAction)"

text \<open>What the main thread prints when it goes from one position to the next; \<open>placement\<close> is the table of threads.\<close>

definition console :: "string \<Rightarrow> main_pc \<Rightarrow> main_pc \<Rightarrow> string" where
  "console placement m m' =
    (if m = m' then []
     else case m' of
       Waiting \<Rightarrow> ''[INFO] NanoExchange is running.'' @ [LF] @ [LF] @ placement
     | JoinGateway \<Rightarrow> [LF] @ ''[INFO] Shutting down...'' @ [LF]
     | JoinEngine \<Rightarrow> ''[INFO] Gateway stopped.'' @ [LF]
     | JoinPublisher \<Rightarrow> ''[INFO] Engine stopped.'' @ [LF]
     | Returned \<Rightarrow> ''[INFO] Publisher stopped.'' @ [LF] @ ''[INFO] Log written to: nanoexchange.log'' @ [LF] @ ''[INFO] Done.'' @ [LF] @ [LF]
     | _ \<Rightarrow> [])"

fun transcript :: "('b, 'r, 's, 'u, 'n) exchange_lib \<Rightarrow> string \<Rightarrow> x_event list \<Rightarrow> ('b, 'r, 's, 'u, 'n) exchange \<Rightarrow> string" where
  "transcript L placement [] x = []"
| "transcript L placement (e # es) x =
    (case x_step L e x of None \<Rightarrow> [] | Some x' \<Rightarrow> console placement (main_at x) (main_at x') @ transcript L placement es x')"

section \<open>The transcript of a run\<close>

text \<open>Everything printed by the time the main thread is at a position.\<close>

fun rank :: "main_pc \<Rightarrow> nat" where
  "rank Waiting = 1" | "rank JoinGateway = 2" | "rank JoinEngine = 3" | "rank JoinPublisher = 4" | "rank JoinStreamer = 4"
| "rank Returned = 5" | "rank _ = 0"

definition printed :: "string \<Rightarrow> main_pc \<Rightarrow> string" where
  "printed placement m = concat (take (rank m)
    [''[INFO] NanoExchange is running.'' @ [LF] @ [LF] @ placement,
     [LF] @ ''[INFO] Shutting down...'' @ [LF],
     ''[INFO] Gateway stopped.'' @ [LF],
     ''[INFO] Engine stopped.'' @ [LF],
     ''[INFO] Publisher stopped.'' @ [LF] @ ''[INFO] Log written to: nanoexchange.log'' @ [LF] @ ''[INFO] Done.'' @ [LF] @ [LF]])"

lemma console_step:
  assumes "x_step L e x = Some x'"
  shows "printed placement (main_at x') = printed placement (main_at x) @ console placement (main_at x) (main_at x')"
proof (cases "e = MainStep")
  case True
  with assms show ?thesis by (cases "main_at x") (auto simp: main_defs console_def printed_def numeral_eq_Suc split: if_splits)
next
  case False
  with main_only [OF assms] show ?thesis by (simp add: console_def)
qed

lemma transcript_printed:
  assumes "steps (x_step L) es x = Some x'"
  shows "printed placement (main_at x) @ transcript L placement es x = printed placement (main_at x')"
  using assms
proof (induction es arbitrary: x)
  case (Cons e es)
  then obtain y where y: "x_step L e x = Some y" "steps (x_step L) es y = Some x'" by (auto split: Option.bind_splits)
  with Cons.IH [OF y(2)] console_step [OF y(1), of placement] show ?case by simp
qed simp

text \<open>
  C40. What the console says is true: under every interleaving the output of a run, after the banner, is what belongs to the position of the main thread;
  once it has announced that the gateway has stopped, the gateway's thread has ended, likewise for the engine, and
  when it says that it is done no thread is left.
\<close>

theorem console_truthful:
  assumes "steps (x_step L) es (exchange_init mk_book N f sz rq sq uq nq) = Some x"
    and "out = transcript L placement es (exchange_init mk_book N f sz rq sq uq nq)"
  shows "out = printed placement (main_at x) \<and>
    (prefix (printed placement JoinEngine) out \<longrightarrow> gateway_at x = None) \<and>
    (prefix (printed placement JoinPublisher) out \<longrightarrow> engine_at x = None) \<and>
    (prefix (printed placement Returned) out \<longrightarrow> publisher_at x = None \<and> streamer_at x = None)"
proof -
  have out: "out = printed placement (main_at x)"
    using transcript_printed [OF assms(1), of placement] assms(2) by (simp add: exchange_init_def printed_def)
  have life: "life_ok x" using life_reach [OF steps_reach [OF assms(1) x_reach.built] life_init] .
  have len: "prefix p out \<Longrightarrow> length p \<le> length (printed placement (main_at x))" for p unfolding out by (rule prefix_length_le)
  show ?thesis
    using out life len by (cases "main_at x") (auto simp: life_ok_def flags_ok_def started_def printed_def numeral_eq_Suc dest!: len)
qed

theorem console_truthful_witness:
  "\<exists>x. steps (x_step (sample_lib sample_maps 4)) [MainStep, MainStep, MainStep, MainStep, Signal, MainStep] (exchange_init sample_mk 1 4 3 [] [] [] []) = Some x \<and>
    transcript (sample_lib sample_maps 4) [] [MainStep, MainStep, MainStep, MainStep, Signal, MainStep] (exchange_init sample_mk 1 4 3 [] [] [] []) =
      printed [] JoinGateway"
proof -
  let ?es = "[MainStep, MainStep, MainStep, MainStep, Signal, MainStep]"
  obtain x where x: "steps (x_step (sample_lib sample_maps 4)) ?es (exchange_init sample_mk 1 4 3 [] [] [] []) = Some x" "main_at x = JoinGateway"
    by (simp add: exchange_init_def main_defs sigHandler_def)
  from console_truthful [OF x(1) refl, of "[]"] x show ?thesis by auto
qed

section \<open>The usage text\<close>

text \<open>
  The example the usage text gives is a command line \<^verbatim>\<open>main\<close> accepts, and without its core arguments it means the
  same: the defaults of the text are the defaults of the code.
\<close>

definition usage_synopsis :: string where
  "usage_synopsis = '' <gateway_iface> <gateway_port> <incremental_ip> <incremental_port> <snapshot_tcp_port> <mcast_iface>'' @
     '' [core_me] [core_gateway] [core_publisher] [core_streamer] [core_logger]''"

definition usage_call :: string where
  "usage_call = '' lo 10000 224.0.0.1 20001 20002 lo 1 2 4 6 8''"

definition usage_notes :: "string list" where
  "usage_notes = [[], ''Notes:'', ''  core_* = CPU core to pin each thread to (-1 = OS decides).'',
     ''  Defaults (distinct physical cores on SMT machines):'',
     ''  core_me=1  core_gateway=2  core_publisher=4  core_streamer=6  core_logger=8'', []]"

definition example_args :: "string list" where
  "example_args = [''lo'', ''10000'', ''224.0.0.1'', ''20001'', ''20002'', ''lo'', ''1'', ''2'', ''4'', ''6'', ''8'']"

definition example_config :: config where
  "example_config = \<lparr>gatewayIface = ''lo'', gatewayPort = 10000, incrementalIp = ''224.0.0.1'', incrementalPort = 20001,
     snapshotTcpPort = 20002, mcastIface = ''lo'', coreMe = 1, coreGateway = 2, corePublisher = 4, coreStreamer = 6, coreLogger = 8\<rparr>"

lemma LF_literal: "LF = CHR 0x0A"
  by code_simp

lemma usage_line:
  assumes "field_ok prog"
  shows "getlines (printUsage prog) ! 4 = ''  '' @ prog @ usage_call"
proof -
  let ?ls = "[[], ''Usage: '' @ prog @ usage_synopsis, [], ''Example:'', ''  '' @ prog @ usage_call] @ usage_notes"
  have "LF \<notin> set (''Usage: '' @ usage_synopsis @ ''Example:  '' @ usage_call) \<and> list_all (\<lambda>l. LF \<notin> set l) usage_notes"
    by (simp add: LF_literal usage_synopsis_def usage_call_def usage_notes_def)
  moreover have "LF \<notin> set prog" using assms space_simps(2) unfolding field_ok_def list_all_iff by blast
  ultimately have "list_all (\<lambda>l. LF \<notin> set l) ?ls" by simp
  moreover have "printUsage prog = concat (map (\<lambda>l. l @ [LF]) ?ls)"
    by (simp add: printUsage_def usage_synopsis_def usage_call_def usage_notes_def)
  ultimately show ?thesis using getlines_format [of ?ls] by simp
qed

theorem usage_example:
  assumes "field_ok prog"
  shows "tokens (getlines (printUsage prog) ! 4) = prog # example_args \<and> main_args (prog # example_args) = Some (Inr example_config) \<and>
    main_args (take 7 (prog # example_args)) = Some (Inr example_config)"
proof -
  have "list_all field_ok example_args" by code_simp
  then have "tokens (spaced (prog # example_args) @ []) = prog # example_args" using assms by (intro tokens_spaced) simp_all
  moreover have "''  '' @ prog @ usage_call = CHR '' '' # spaced (prog # example_args)"
    by (simp add: spaced_def example_args_def usage_call_def)
  ultimately have "tokens (getlines (printUsage prog) ! 4) = prog # example_args" unfolding usage_line [OF assms] by simp
  moreover have "main_args (prog # example_args) = Some (Inr example_config)" "main_args (take 7 (prog # example_args)) = Some (Inr example_config)"
    by code_simp+
  ultimately show ?thesis by blast
qed

end
