(* ===== verification/Spec2Isabelle.thy ===== *)
theory Spec2Isabelle
  imports NetTheorems Sockets FeedTheorems Startup Layout Instrumentation Console
begin

text \<open>
  A verification of NanoExchange, a single-host exchange written in C++.

  \<^bold>\<open>The program.\<close> Clients send OUCH orders over TCP to the gateway (\<^verbatim>\<open>src/src/network/gateway\<close>). The gateway frames
  and decodes the bytes, maps client tokens to internal order ids, stages the requests with
  their receive time, sorts them and pushes them to a lock-free queue. The matching engine
  (\<^verbatim>\<open>src/src/engine\<close>) polls the queue, applies each request to the order book of its ticker, and
  emits private responses and public market updates. There are two order books with one interface,
  selected at build time: one on ordered maps of price levels, one on arrays of price levels with a
  linked list of the active ones. The gateway sends the responses back as OUCH messages. The market data
  publisher (\<^verbatim>\<open>src/src/network/market\<close>) numbers the updates, encodes them as ITCH messages, sends them
  to subscribers and hands them to the snapshot streamer, which keeps a shadow copy of the books
  and a ring of the latest frames, and answers snapshot and replay requests.

  \<^bold>\<open>How it is modelled.\<close> Machine integers are words of their C++ width. Code that can run into undefined
  behaviour returns an option, \<open>None\<close> being a dereference of a null or dangling pointer, an index outside
  an array or vector, a failed allocation or assertion, or a loop that does not end. Pointers are addresses
  into an explicit heap of orders. The queues, the object pool, the sockets, the clocks, the byte swaps and
  the message structs come from a library outside the repository: they are parameters, and what the
  code relies on is stated as \<open>pool_spec\<close>, \<open>queue_spec\<close>, \<open>spsc_spec\<close>, \<open>sort_spec\<close>, \<open>ouch_spec\<close>, \<open>lib_local\<close> and \<open>itch_spec\<close>. Each
  component is first a function on its own state. The exchange (Exchange) puts them together: the state of the five threads
  with their positions and run flags, the four queues with their histories, and one step of one thread at a time, in
  any order (\<open>x_step\<close>, \<open>x_reach\<close>).
  Loops are structural recursions over what was polled, \<open>function\<close>s with a measure, or
  \<open>partial_function (option)\<close> where the loop follows pointers (\<open>level_loop\<close>, \<open>sweep\<close>, \<open>level_walk\<close>) or a wrapping
  counter (\<open>replay_loop\<close>); for these it is proved that they return. No fuel is used.

  \<^bold>\<open>Theories.\<close>
  \<^item> Prelude: machine integers, lists, polling, hash maps. Machine: threads as machines, the locale
    \<open>machine\<close>, interpreted on the gateway (Gateway).
  \<^item> Types, Outputs: \<^verbatim>\<open>types.h\<close> and what the books use of the engine (match ids, the two channels).
  \<^item> BookSpec: the contract of an order book: per side the resting orders in price-time priority, with
    \<open>a_addOrder\<close>, \<open>a_cancelOrder\<close>, \<open>a_replaceOrder\<close>. BookProps, Trades: what follows from the contract (the
    invariant \<open>abook_ok\<close>, closed forms of the messages, trade numbering, conservation).
  \<^item> Links, BookCore, Matching: doubly linked lists in the heap, the state and loops both books share,
    and the locale \<open>book_store\<close>, in which the match loop is proved against the contract once.
    OrderBook: the interface the engine is written against, as the locale \<open>order_book\<close>.
  \<^item> OrderedMap, MapBook: \<^verbatim>\<open>order_book_map.cpp\<close>. LevelList, VectorBook: \<^verbatim>\<open>order_book_vector.cpp\<close>. Both interpret
    \<open>book_store\<close> and \<open>order_book\<close>. FreePool: an object pool, to show that \<open>pool_spec\<close> can hold.
  \<^item> Engine: \<^verbatim>\<open>matching_engine.cpp\<close>, proved inside \<open>order_book\<close>, so for both books. Requests: streams of requests
    that are admissible in whatever state the engine is by then. TradeReports: who is told of a trade, and that the two books make
    the same trades.
  \<^item> TokenManager, Fifo, Ouch, OrderServer, Gateway: \<^verbatim>\<open>token_manager.h\<close>, \<^verbatim>\<open>fifo_process.h\<close>, \<^verbatim>\<open>ouch_processor.h\<close>,
    \<^verbatim>\<open>order_server.h\<close> with its run loop, and the invariant of the gateway over all its events.
  \<^item> Itch, Publisher, Snapshot: \<^verbatim>\<open>itch_encoder.h\<close>, \<^verbatim>\<open>marketdata_publisher.h\<close>, \<^verbatim>\<open>snapshot_stream.h\<close>. Mirror: the shadow book
    against the book it shadows. Sockets: the
    send and receive loops of the streamer, where calls move part of the data or fail. Feed: the path from the engine's updates to the shadow books.
  \<^item> Channels, Exchange: the queues with their histories, and \<^verbatim>\<open>main.cpp\<close>: construction, start, wait, stop, and the loops
    of the four threads as steps. Lifecycle: which threads exist when. ExchangeInv, ExchangeRuns: the invariant that ties
    queues, engine, publisher and streamer together, kept by every step. Progress: a well-founded measure of the work left, and that
    some thread can always reduce it. Shutdown: how the exchange stops, and how it does not. ExchangeSpec: what the invariant
    says of the whole.
  \<^item> MessageTypes, ExchangeWire: what may stand in the fields of requests, orders, responses and updates, kept on the way from the
    decoder through the books to the queues, and what a reader of the two wires gets back. SnapshotView, ExchangeFeed: what a client that
    knows only the bytes gets from snapshot, replay and feed.
  \<^item> Startup: the command line and \<^verbatim>\<open>printThreadPlacement\<close>. Console: the text \<^verbatim>\<open>main.cpp\<close> writes, its signal handlers and the
    crash report. Layout: the sizes of the structs of \<^verbatim>\<open>types.h\<close> and its static assertions. Instrumentation: \<^verbatim>\<open>perf_utils.h\<close>
    and the records of the engine.
  \<^item> BookTheorems, NetTheorems, ExchangeTheorems, FeedTheorems, Startup, Console, Instrumentation and this theory: the properties. Samples,
    ExchangeSamples: concrete instances of the library parameters and small runs for the accompanying examples.

  \<^bold>\<open>What is shown.\<close> C1 to C6: the six operations of the two books implement the contract, on every branch,
  under the assumptions below. C7: price-time priority. C8 to C18: the whole exchange under every interleaving: it is safe and is
  where a single thread would be (C8, C9), what it has done when nothing is left to do (C10), that its threads never
  deadlock while they run (C11), what is read from its wires, from a snapshot and from a replay (C12 to C14), the types of its messages
  (C15), that a stop can hang or leave requests behind (C16, C17), and which threads exist when (C18).
  C19 to C22: conservation of quantity, agreement of the two books, who is told of which trade. C23 to C25: three inputs for
  which the code has no defined behaviour. C26: the gateway over all its runs. C27, C28: the two kinds of request after which the market
  data path does not show the engine's books. C29: what a client gets of snapshot and replay over a socket that fails. C30 to C36: sequencer,
  tokens, framing, routing. C37: a difference between the books that clients see. C38 to C40: the table of threads, the
  cycle records, the console. Theorems without a number state parts of these on single components (the market data path alone, one
  message type of a wire format, the usage text, the sizes of the structs).

  \<^bold>\<open>What is assumed.\<close> The map book is correct only if a read of an erased map node yields the value last stored there (\<open>LastValue\<close> of
  \<open>erased_read\<close> in MapBook). All statements in which the map book matches assume it: C1, C3, C7, C8, C10 to C15, C19 to C22 and C28. C23 shows
  that without it \<^verbatim>\<open>match\<close> has no defined behaviour when it fills an order that is alone at the best price. Statements on whole runs of the exchange (C8 to C15) are for runs within
  the limits \<open>in_limits\<close>: every request the gateway accepted names a ticker that has a book, with vector books every price lies inside
  the arrays, and all requests together introduce no more orders than the pool of one book holds. The code enforces none of these: C24 and C25 show
  what happens with other prices and tickers, and what the pool does when it is exhausted is not documented, so that no theorem speaks of it.
  On single operations the same conditions are \<open>add_ok\<close> and \<open>replace_ok\<close>, on runs of the engine \<open>polls_ok\<close>. Counters of 64 bits are kept as words; statements on whole runs bound the number of events below \<open>2 ^ 64 - 1\<close>.

  In the exchange the order in which the engine sends the messages of one request is any interleaving of its responses and its updates,
  of which the order of the code is one: the books log the two kinds apart.

  \<^bold>\<open>Not modelled.\<close> The library outside the repository (\<^verbatim>\<open>QuantLink\<close>): what is inside its queues, pool, sockets and logger. Of the
  repository's own code the text of log messages, core pinning, socket set-up, the subscriptions of the UDP fan-out, the destructors,
  which stop and join again what \<^verbatim>\<open>main\<close> has stopped, the measurements outside the engine, which are of the same form, memory that runs out when a container grows, and the way a socket's deadline
  is enforced (a call past it fails). Memory is sequentially consistent: the flags and queues are atomic in the code.
  A vector book without an engine is modelled, but the theorems speak of
  books with one.
\<close>

section \<open>Clients to engine\<close>

text \<open>
  C26. The gateway is safe, whatever its clients send: from its initial state it runs without undefined
  behaviour through any connects, disconnects, partial messages and full queues; every request
  it hands to the engine names only orders of the client it came from, no two requests introduce
  the same order id, and there are never more orders than the token pool has entries.
\<close>

theorem gateway_safe:
  assumes "sort_spec srt" and "queue_spec push view" and "view q = []" and "tokenPoolSz + 1 < 2 ^ 64"
    and "length (concat (map turn_events turns)) < 2 ^ 64 - 1"
  shows "\<exists>s. order_server_run lib srt push turns (order_server_init fifoPending tokenPoolSz q) = Some s \<and>
    conns_ok s \<and> fifo_ok (os_fifo s) \<and>
    list_all (owned_request (tokenManager s)) (view (fifo_requests (os_fifo s))) \<and>
    distinct (introduced_ids (view (fifo_requests (os_fifo s)))) \<and>
    length (introduced_ids (view (fifo_requests (os_fifo s)))) \<le> tokenPoolSz"
proof -
  obtain s where s: "order_server_run lib srt push turns (order_server_init fifoPending tokenPoolSz q) = Some s"
    "gw_inv srt push view tokenPoolSz 0 s"
    using gateway_run_inv [OF assms] by blast
  then have ids: "ids_ok tokenPoolSz (tokenManager s) (view (fifo_requests (os_fifo s)))"
    using ids_ok_prefix by (auto simp: gw_inv_def accepted_def)
  with s introduced_bound [OF ids] show ?thesis by (auto simp: gw_inv_def ids_ok_def)
qed

definition sample_turns :: "((MEClientResponse \<times> uint64) list \<times> gw_event list) list" where
  "sample_turns = [([], [ServerRecv (1, 4) 9 (take 7 sample_enter), ServerRecvFinished]),
     ([], [ServerRecv (1, 4) 11 (drop 7 sample_enter), ServerRecvFinished, ServerDisconnect (1, 4)])]"

theorem gateway_safe_witness:
  "\<exists>s. order_server_run sample_ouch sample_sort sample_push sample_turns (order_server_init 4 100 []) = Some s \<and> conns_ok s"
  using gateway_safe [OF sample_sort_spec sample_queue_spec, of "[]" 100 sample_turns sample_ouch 4]
  by (auto simp: sample_turns_def turn_events_def)

text \<open>
  Gateway and engine together: whatever the clients sent, the engine with map books processes any
  prefix of what the gateway queued without undefined behaviour, keeping every book's invariant,
  provided the tickers the clients named have books and no more orders were introduced than a
  book's pool can hold. Freshness of ids, which the books rely on, is the gateway's doing.
\<close>

theorem gateway_engine_safe:
  assumes "sort_spec srt" and "queue_spec push view" and "view q = []" and "tokenPoolSz + 1 < 2 ^ 64"
    and "length (concat (map turn_events turns)) < 2 ^ 64 - 1"
    and run: "order_server_run lib srt push turns (order_server_init fifoPending tokenPoolSz q) = Some s"
    and pool: "pool_spec ops pv" "pv_inv pv pool" "pv_live pv pool = {}"
    and polls: "polled polls = take k (view (fifo_requests (os_fifo s)))"
    and tickers: "list_all (\<lambda>r. unat (rq_ticker_id r) < n) (polled polls)"
    and room: "length (introduced_ids (polled polls)) \<le> pv_cap pv pool"
  shows "\<exists>e. engine_run (map_book_ops LastValue ops) polls (engine_init (\<lambda>i. map_book_init sz i pool) n) = Some e \<and>
    (\<forall>b\<in>set (ticker_order_book e). \<exists>A. map_represents ops pv b A \<and> abook_ok A)"
proof -
  have "gw_inv srt push view tokenPoolSz 0 s"
    using gateway_run_inv [OF assms(1-5), of lib fifoPending] run by simp
  moreover have "accepted view (os_fifo s) =
      polled polls @ drop k (view (fifo_requests (os_fifo s))) @ map snd (pending (os_fifo s))"
    by (simp add: accepted_def polls flip: append_assoc)
  ultimately have "ids_ok tokenPoolSz (tokenManager s) (polled polls)"
    by (auto simp: gw_inv_def dest: ids_ok_prefix)
  then have "stream_ok n (pv_cap pv pool) (\<lambda>_. True) (polled polls)"
    using tickers room by (auto simp: stream_ok_def ids_ok_def)
  then obtain e where e: "engine_run (map_book_ops LastValue ops) polls (engine_init (\<lambda>i. map_book_init sz i pool) n) = Some e"
    "engine_rep (map_represents ops pv) (\<lambda>b. pv_cap pv (bk_pool b)) (replicate n (pv_cap pv pool)) e
      (a_run MapBook polls (replicate n a_empty, engine_io0))"
    by (rule map_engine_outcome [OF pool stream_polls_ok_init])
  then show ?thesis using engine_rep_books [OF e(2)] by blast
qed

text \<open>The sample run queues one request, an order for the first book.\<close>

lemma sample_gateway_queue:
  "map_option (\<lambda>s. map (\<lambda>r. (rq_ticker_id r, introduced r)) (fifo_requests (os_fifo s)))
    (order_server_run sample_ouch sample_sort sample_push sample_turns (order_server_init 4 3 [])) = Some [(0, [1])]"
  by code_simp

theorem gateway_engine_safe_witness:
  "\<exists>s r e. order_server_run sample_ouch sample_sort sample_push sample_turns (order_server_init 4 3 []) = Some s \<and>
    fifo_requests (os_fifo s) = [r] \<and>
    engine_run (map_book_ops LastValue free_pool) [None, Some r] (engine_init (\<lambda>i. map_book_init 4 i (fresh_pool 4)) 1) = Some e"
proof -
  obtain s r where s: "order_server_run sample_ouch sample_sort sample_push sample_turns (order_server_init 4 3 []) = Some s"
    "fifo_requests (os_fifo s) = [r]" "rq_ticker_id r = 0" "introduced r = [1]"
    using sample_gateway_queue by auto
  have "length (concat (map turn_events sample_turns)) < 2 ^ 64 - 1" by (simp add: sample_turns_def turn_events_def)
  from gateway_engine_safe [OF sample_sort_spec sample_queue_spec _ _ this s(1) free_pool_spec fresh_pool_ok(1,2) [of 4],
      where polls = "[None, Some r]" and k = 1 and n = 1 and sz = 4] s
  obtain e where "engine_run (map_book_ops LastValue free_pool) [None, Some r] (engine_init (\<lambda>i. map_book_init 4 i (fresh_pool 4)) 1) = Some e"
    by auto
  with s(1,2) show ?thesis by blast
qed

text \<open>
  C25. Nothing between the wire and the engine checks the ticker: if a client sends a complete enter-order message whose stock field, cut to 32 bits, is
  a ticker without a book, and the token table has room, the gateway accepts the request and retains it for the engine; the engine that
  takes it, in whatever state and with either book, indexes past the end of its vector of books.
\<close>

theorem unknown_ticker_accepted:
  assumes "tokens_ok m" and "fifo_ok f" and "sort_spec srt" and "queue_spec push view"
    and room: "unat (next_internal_id m) < length (id_to_token m)"
    and msg: "bytes = ol_ENTER_ORDER lib # ds" "length bytes = ol_enter_size lib"
    and tick: "N \<le> unat (ucast (ol_swap64 lib (eo_stock (ol_enter lib bytes))) :: TickerId)"
  shows "\<exists>m' f' r. recv_loop lib srt push cid t bytes (m, f) = Some ([], m', f') \<and> rq_action r = NEW \<and> rq_client_id r = cid \<and>
    mset (accepted view f') = add_mset r (mset (accepted view f)) \<and>
    (\<forall>ops e. length (ticker_order_book e) = N \<longrightarrow> processClientRequest ops r e = None)"
proof -
  let ?tok = "eo_order_token (ol_enter lib bytes)" and ?tk = "ucast (ol_swap64 lib (eo_stock (ol_enter lib bytes))) :: TickerId"
  obtain i m1 where R: "registerNewToken cid ?tok ?tk m = (i, m1)" by fastforce
  then have i: "i \<noteq> 0" using register_room [OF assms(1) room, of cid ?tok ?tk] by simp
  then obtain r where r: "decodeOuch lib bytes cid m = Some (True, r, m1)" "rq_action r = NEW" "rq_client_id r = cid" "rq_ticker_id r = ?tk"
    using R by (simp add: decodeOuch_def msg(1) Let_def default_request_def)
  have n: "ouchMsgSize lib (ol_ENTER_ORDER lib) = length bytes" "length bytes \<noteq> 0" using msg by (simp_all add: ouchMsgSize_def)
  have dec: "gw_decode lib cid bytes m = Some ([], m1, [r])"
    using gw_decode_steps(4) [of lib "ol_ENTER_ORDER lib" ds cid m] n r(1) by (simp add: gw_decode_steps(1) flip: msg(1))
  obtain rest m' rs f' out where L: "gw_decode lib cid bytes m = Some (rest, m', rs)" "recv_loop lib srt push cid t bytes (m, f) = Some (rest, m', f')"
    using recv_loop_ok [OF assms(1-4), of lib cid bytes t] by blast
  moreover have "mset (accepted view f') = mset (accepted view f) + mset rs" using recv_accepts [OF assms(1-4) L(2)] L(1) by auto
  moreover have "processClientRequest ops r e = None" if "length (ticker_order_book e) = N" for ops e
    by (rule process_unknown_ticker) (use that tick r(4) in simp)
  ultimately show ?thesis using dec r(2,3) by auto
qed

text \<open>A library that reads the ticker nine from every message, and an exchange with four tickers.\<close>

theorem unknown_ticker_accepted_witness:
  "\<exists>m' f' r. recv_loop (sample_ouch\<lparr>ol_enter := (\<lambda>d. (ol_enter sample_ouch d)\<lparr>eo_stock := 9\<rparr>)\<rparr>) sample_sort sample_push 1 0 sample_enter
      (token_manager_init 4, fifo_init 1 []) = Some ([], m', f') \<and>
    mset (accepted (\<lambda>q. q) f') = add_mset r (mset (accepted (\<lambda>q. q) (fifo_init 1 []))) \<and>
    processClientRequest (map_book_ops LastValue free_pool) r (engine_init (\<lambda>i. map_book_init 4 i (fresh_pool 4)) 4) = None"
proof -
  let ?lib = "sample_ouch\<lparr>ol_enter := (\<lambda>d. (ol_enter sample_ouch d)\<lparr>eo_stock := 9\<rparr>)\<rparr>"
  have "unat (next_internal_id (token_manager_init 4)) < length (id_to_token (token_manager_init 4))" by (simp add: token_manager_init_def)
  moreover have "sample_enter = ol_ENTER_ORDER ?lib # drop 1 sample_enter" "length sample_enter = ol_enter_size ?lib"
    by (simp_all add: sample_enter_def sample_ouch_def)
  moreover have "4 \<le> unat (ucast (ol_swap64 ?lib (eo_stock (ol_enter ?lib sample_enter))) :: TickerId)" by (simp add: sample_ouch_def)
  moreover have "length (ticker_order_book (engine_init (\<lambda>i. map_book_init 4 i (fresh_pool 4)) 4)) = 4" by (simp add: engine_init_def)
  ultimately show ?thesis
    using unknown_ticker_accepted [OF sample_token_ok fifo_init_ok(1) sample_sort_spec sample_queue_spec, of sample_enter ?lib _ 4 1 0 1 "[]"] by blast
qed

section \<open>Engine to subscribers\<close>

text \<open>
  The market data path from end to end: for a stream of requests without partial cancels and without
  replacements that trade, the engine's updates, numbered and encoded by the publisher and drained
  by the streamer in any number of turns with any client requests in between, leave shadow books
  that show exactly the resting orders of the engine's books: id, side, price and open quantity.
\<close>

theorem market_feed_mirrors_books:
  assumes pool: "pool_spec ops pv" "pv_inv pv pool" "pv_live pv pool = {}" and spec: "itch_spec lib"
    and stream: "stream_ok n (pv_cap pv pool) (\<lambda>_. True) (polled polls)"
    and safe: "feed_polls MapBook polls (replicate n a_empty, engine_io0)"
    and room: "length (marketUpdates (snd (a_run MapBook polls (replicate n a_empty, engine_io0)))) < 2 ^ 64 - 1"
  shows "\<exists>e As. engine_run (map_book_ops LastValue ops) polls (engine_init (\<lambda>i. map_book_init sz i pool) n) = Some e \<and>
    list_all2 (map_represents ops pv) (ticker_order_book e) As \<and>
    (\<forall>ups. map fst (polled ups) = marketUpdates (engine_out e) \<longrightarrow>
      (\<exists>p. publisher_run lib ups publisher_init = Some p \<and>
        (\<forall>turns iter. concat (map fst turns) = streamer_updates p \<longrightarrow>
          (\<exists>replies s. streamer_run lib iter turns (streamer_init n) = Some (replies, s) \<and> mirrored As (shadow_book s)))))"
proof -
  let ?S = "a_run MapBook polls (replicate n a_empty, engine_io0)"
  have ok: "polls_ok MapBook (replicate n (pv_cap pv pool)) (\<lambda>_. True) polls (replicate n a_empty, engine_io0)"
    by (rule stream_polls_ok_init [OF stream])
  obtain e where e: "engine_run (map_book_ops LastValue ops) polls (engine_init (\<lambda>i. map_book_init sz i pool) n) = Some e"
    "engine_rep (map_represents ops pv) (\<lambda>b. pv_cap pv (bk_pool b)) (replicate n (pv_cap pv pool)) e ?S"
    by (rule map_engine_outcome [OF pool ok])
  have path: "path_ok (replicate n []) ?S"
    by (rule run_path [OF _ ok safe]) (simp add: path_init engine_io0_def)
  have len: "length (fst ?S) = n"
    using path e(2) a_run_length [of MapBook polls "replicate n a_empty" engine_io0] by simp
  have rep: "list_all2 (map_represents ops pv) (ticker_order_book e) (fst ?S)" "engine_out e = snd ?S"
    using e(2) by (simp_all add: engine_rep_def list_all2_conv_all_nth)
  have "\<exists>p. publisher_run lib ups publisher_init = Some p \<and>
      (\<forall>turns iter. concat (map fst turns) = streamer_updates p \<longrightarrow>
        (\<exists>replies s. streamer_run lib iter turns (streamer_init n) = Some (replies, s) \<and> mirrored (fst ?S) (shadow_book s)))"
    if ups: "map fst (polled ups) = marketUpdates (snd ?S)" for ups
  proof -
    have "length (polled ups) < 2 ^ 64 - 1" using room arg_cong [OF ups, of length] by simp
    from path_published [OF spec path len ups this] show ?thesis by blast
  qed
  with e(1) rep show ?thesis by auto
qed

text \<open>A sell order of ten, a buy order that takes four, and the cancel of the rest.\<close>

definition polls1 :: "MEClientRequest option list" where
  "polls1 = [Some (request0 NEW 0 7 1 SELL 100 10), None, Some (request0 NEW 0 8 2 BUY 105 4),
             Some (request0 CANCEL 0 7 1 SELL 0 0)]"

lemma polls1_ok: "stream_ok 1 4 (\<lambda>_. True) (polled polls1)"
  by (simp add: stream_ok_def polls1_def request0_def introduced_def rec_defs)

lemma polls1_feed: "feed_polls MapBook polls1 ([a_empty], engine_io0)"
  by code_simp

lemma polls1_updates: "length (marketUpdates (snd (a_run MapBook polls1 ([a_empty], engine_io0)))) = 3"
  by code_simp

theorem market_feed_mirrors_books_witness:
  "\<exists>e As p replies s. engine_run (map_book_ops LastValue free_pool) polls1 (engine_init (\<lambda>i. map_book_init 4 i (fresh_pool 4)) 1) = Some e \<and>
    list_all2 (map_represents free_pool free_pool_view) (ticker_order_book e) As \<and>
    publisher_run sample_itch (map (\<lambda>u. Some (u, 0)) (marketUpdates (engine_out e))) publisher_init = Some p \<and>
    streamer_run sample_itch id [(streamer_updates p, [])] (streamer_init 1) = Some (replies, s) \<and> mirrored As (shadow_book s)"
proof -
  have ok: "stream_ok 1 (pv_cap free_pool_view (fresh_pool 4)) (\<lambda>_. True) (polled polls1)"
    "feed_polls MapBook polls1 (replicate 1 a_empty, engine_io0)"
    "length (marketUpdates (snd (a_run MapBook polls1 (replicate 1 a_empty, engine_io0)))) < 2 ^ 64 - 1"
    using polls1_ok polls1_feed polls1_updates by simp_all
  obtain e As where e: "engine_run (map_book_ops LastValue free_pool) polls1 (engine_init (\<lambda>i. map_book_init 4 i (fresh_pool 4)) 1) = Some e"
    "list_all2 (map_represents free_pool free_pool_view) (ticker_order_book e) As"
    and all: "\<And>ups. map fst (polled ups) = marketUpdates (engine_out e) \<Longrightarrow>
      \<exists>p. publisher_run sample_itch ups publisher_init = Some p \<and>
        (\<forall>turns iter. concat (map fst turns) = streamer_updates p \<longrightarrow>
          (\<exists>replies s. streamer_run sample_itch iter turns (streamer_init 1) = Some (replies, s) \<and> mirrored As (shadow_book s)))"
    using market_feed_mirrors_books [OF free_pool_spec fresh_pool_ok(1,2) sample_itch_spec ok, of 4] by blast
  obtain p where p: "publisher_run sample_itch (map (\<lambda>u. Some (u, 0)) (marketUpdates (engine_out e))) publisher_init = Some p"
    "\<And>turns iter. concat (map fst turns) = streamer_updates p \<Longrightarrow>
      \<exists>replies s. streamer_run sample_itch iter turns (streamer_init 1) = Some (replies, s) \<and> mirrored As (shadow_book s)"
    using all [of "map (\<lambda>u. Some (u, 0)) (marketUpdates (engine_out e))"] by (auto simp: comp_def)
  from p(2) [of "[(streamer_updates p, [])]" id] e p(1) show ?thesis by auto
qed

text \<open>
  C27. What a cancel does to the mirror: after \<^verbatim>\<open>cancelOrder\<close> on the map book, a shadow book that applies the
  published updates still shows the book exactly when the cancel was not a partial one. A partial cancel
  is published like a full one, and the shadow book drops an order that still rests.
\<close>

theorem cancel_feed:
  assumes "map_represents ops pv b A" and "abook_ok A" and "mids_ok A" and "shadow_view sh = book_view A"
  shows "\<exists>b' io' A'. map_cancelOrder ops tick c k qty tok b io = Some (b', io') \<and> map_represents ops pv b' A' \<and>
    (shadow_view (fold shadow_apply (new_updates io io') sh) = book_view A' \<longleftrightarrow> \<not> partial_cancel c k qty A)"
proof -
  let ?R = "a_cancelOrder MapBook tick c k qty tok A io"
  have "\<exists>b'. map_cancelOrder ops tick c k qty tok b io = Some (b', snd ?R) \<and> map_represents ops pv b' (fst ?R)"
    using map_ob.cancel_refines [OF assms(1), of tick c k qty tok io] by (auto simp: map_book_ops_def)
  moreover have "shadow_view (fold shadow_apply (new_updates io (snd ?R)) sh) = book_view (fst ?R) \<longleftrightarrow> \<not> partial_cancel c k qty A"
    unfolding shadow_view_fold assms(4) by (rule cancel_mirrors(2) [OF assms(2,3) refl refl])
  ultimately show ?thesis by blast
qed

definition sample_shadow :: shadow where
  "sample_shadow = [(1, mk_update 0 1 U_ADD SELL 100 10 OrderId_INVALID OrderId_INVALID)]"

lemma sample_shadow_view: "shadow_view sample_shadow = book_view sample_book"
  by (simp add: shadow_view_def sample_shadow_def book_view_def sample_book_eq a_orders_def rec_defs update_view_def
      order_view_def fun_eq_iff)

lemma sample_book_ok: "abook_ok sample_book" "mids_ok sample_book"
  by (simp_all add: abook_ok_def mids_ok_def mids_def sample_book_eq a_orders_def rec_defs order_ok_def prio_sorted_def)

theorem cancel_feed_witness:
  "\<exists>b b' io' A'. map_cancelOrder free_pool 0 7 1 4 zero_token b sample_io = Some (b', io') \<and>
    map_represents free_pool free_pool_view b' A' \<and>
    shadow_view (fold shadow_apply (new_updates sample_io io') sample_shadow) \<noteq> book_view A'"
proof -
  obtain b where b: "map_represents free_pool free_pool_view b sample_book" using map_sample_rep by blast
  have "partial_cancel 7 1 4 sample_book"
    by (simp add: partial_cancel_def sample_book_eq a_find_def a_orders_def has_key_def rec_defs)
  with cancel_feed [OF b sample_book_ok sample_shadow_view, of 0 7 1 4 zero_token sample_io] show ?thesis by blast
qed

text \<open>
  C28. What a replace does to the mirror (map book with \<open>LastValue\<close>, see C1): the shadow book still shows the book exactly when the replacement
  was not a phantom, that is unless a good-till-cancel replacement traded on arrival or a fill-and-kill
  replacement was filled completely.
\<close>

theorem replace_feed:
  assumes "map_represents ops pv b A" and "abook_ok A" and "mids_ok A" and "shadow_view sh = book_view A"
    and "replace_ok (\<lambda>_. True) c k k' ty p A" and "ab_next A \<noteq> - 1"
  shows "\<exists>b' io' A'. map_replaceOrder LastValue ops tick c k k' ty p qty tok b io = Some (b', io') \<and>
    map_represents ops pv b' A' \<and>
    (shadow_view (fold shadow_apply (new_updates io io') sh) = book_view A' \<longleftrightarrow>
      \<not> phantom_replace MapBook tick c k k' ty p qty tok A)"
proof -
  let ?R = "a_replaceOrder MapBook tick c k k' ty p qty tok A io"
  have "\<exists>b'. map_replaceOrder LastValue ops tick c k k' ty p qty tok b io = Some (b', snd ?R) \<and> map_represents ops pv b' (fst ?R)"
    using map_ob.replace_refines [OF assms(1,5), of tick qty tok io] by (auto simp: map_book_ops_def)
  moreover have "shadow_view (fold shadow_apply (new_updates io (snd ?R)) sh) = book_view (fst ?R) \<longleftrightarrow>
      \<not> phantom_replace MapBook tick c k k' ty p qty tok A"
    unfolding shadow_view_fold assms(4) by (rule replace_mirrors(2) [OF assms(2,3,6) refl refl])
  ultimately show ?thesis by blast
qed

theorem replace_feed_witness:
  "\<exists>b b' io' A'. map_replaceOrder LastValue free_pool 0 7 1 2 GoodTillCancel 101 5 zero_token b sample_io = Some (b', io') \<and>
    map_represents free_pool free_pool_view b' A' \<and>
    shadow_view (fold shadow_apply (new_updates sample_io io') sample_shadow) = book_view A'"
proof -
  obtain b where b: "map_represents free_pool free_pool_view b sample_book" using map_sample_rep by blast
  have "\<not> phantom_replace MapBook 0 7 1 2 GoodTillCancel 101 5 zero_token sample_book"
    by (simp add: phantom_replace_def sample_book_eq a_find_def a_orders_def has_key_def rec_defs replace_args_def
        in_left_def in_fills_def a_drop_def fills_total_def)
  moreover have "ab_next sample_book \<noteq> - 1" by (simp add: sample_book_eq)
  ultimately show ?thesis
    using replace_feed [OF b sample_book_ok sample_shadow_view sample_replace_ok(2), of 0 5 zero_token sample_io] by blast
qed

text \<open>
  Gap recovery: a client that has seen the feed up to sequence number \<open>c\<close> and asks for a replay is sent,
  byte for byte, the frames that followed on the incremental feed; it is told \<open>C\<close> when it missed
  nothing and \<open>N\<close> exactly when the gap exceeds the ring of 8192 frames.
\<close>

theorem replay_recovers_gap:
  assumes spec: "itch_spec lib" and upd: "list_all (\<lambda>x. in_range n (fst x)) (polled ups)" and room: "length (polled ups) < 2 ^ 64 - 1"
    and pub: "publisher_run lib ups publisher_init = Some p"
    and turns: "concat (map fst turns) = streamer_updates p"
    and run: "streamer_run lib iter turns (streamer_init n) = Some (replies, s)"
    and req: "8 \<le> length rest" "c = unat (il_swap64 lib (il_read64 lib (take 8 rest)))"
  shows "handleClient lib iter clk (CHR ''R'' # rest) s =
    Some (if length (incremental_frames p) \<le> c then ''C''
          else if c + REPLAY_CAPACITY < length (incremental_frames p) then ''N''
          else CHR ''R'' # concat (drop c (incremental_frames p)), s)"
proof -
  have enc: "list_all (\<lambda>x. encodable (fst x)) (polled ups)" using upd by (auto simp: list_all_iff in_range_def)
  have P: "streamer_updates p = feed lib (polled ups)" "incremental_frames p = map (frame lib) (feed lib (polled ups))"
    using publisher_run_ok [OF spec published_init enc] pub by (auto simp: published_def)
  have "streamer_ok lib iter ([] @ concat (map fst turns)) s"
    using streamer_run_ok [OF streamer_init_ok, of turns n lib iter] feed_seqs [OF spec enc room] upd run
    by (auto simp: turns P(1) streamer_init_def list.pred_map)
  then have ring: "ring_ok lib (streamer_updates p) s" "length (streamer_updates p) < 2 ^ 64 - 1"
    by (simp_all add: streamer_ok_def turns)
  show ?thesis
    using serveReplay_ok [OF ring req(2) [symmetric]] req(1) by (simp add: handleClient_def P drop_map)
qed

definition sample_ups :: "(MEMarketUpdate \<times> uint64) option list" where
  "sample_ups = [Some (mk_update 0 1 U_ADD SELL 100 10 OrderId_INVALID OrderId_INVALID, 7), None,
     Some (mk_update 0 1 U_TRADE SELL 100 4 OrderId_INVALID 1, 9)]"

lemma sample_ups_ok: "list_all (\<lambda>x. in_range 1 (fst x)) (polled sample_ups)" "length (polled sample_ups) < 2 ^ 64 - 1"
  by (simp_all add: sample_ups_def in_range_def encodable_def mk_update_def)

lemma sample_stream:
  "\<exists>p replies s. publisher_run sample_itch sample_ups publisher_init = Some p \<and> length (incremental_frames p) = 2 \<and>
    streamer_run sample_itch id [(streamer_updates p, [])] (streamer_init 1) = Some (replies, s)"
proof -
  have enc: "list_all (\<lambda>x. encodable (fst x)) (polled sample_ups)"
    by (simp add: sample_ups_def encodable_def mk_update_def)
  obtain p where p: "publisher_run sample_itch sample_ups publisher_init = Some p" "published sample_itch (polled sample_ups) p"
    using publisher_run_ok [OF sample_itch_spec published_init enc] by auto
  have "\<exists>replies s. streamer_run sample_itch id [(streamer_updates p, [])] (streamer_init 1) = Some (replies, s)"
    using streamer_run_ok [OF streamer_init_ok, of "[(streamer_updates p, [])]" 1 sample_itch id] p(2) sample_ups_ok
      feed_seqs [OF sample_itch_spec enc sample_ups_ok(2)]
    by (auto simp: published_def streamer_init_def list.pred_map)
  with p show ?thesis by (auto simp: published_def sample_ups_def)
qed

theorem replay_recovers_gap_witness:
  "\<exists>p replies s. publisher_run sample_itch sample_ups publisher_init = Some p \<and>
    streamer_run sample_itch id [(streamer_updates p, [])] (streamer_init 1) = Some (replies, s) \<and>
    handleClient sample_itch id (\<lambda>_. 0) (CHR ''R'' # sample_image 1) s = Some (CHR ''R'' # concat (drop 1 (incremental_frames p)), s)"
proof -
  obtain p replies s where S: "publisher_run sample_itch sample_ups publisher_init = Some p" "length (incremental_frames p) = 2"
    "streamer_run sample_itch id [(streamer_updates p, [])] (streamer_init 1) = Some (replies, s)"
    using sample_stream by blast
  have "8 \<le> length (sample_image 1)" by (simp add: sample_image_def)
  moreover have "1 = unat (il_swap64 sample_itch (il_read64 sample_itch (take 8 (sample_image 1))))" by code_simp
  ultimately have "handleClient sample_itch id (\<lambda>_. 0) (CHR ''R'' # sample_image 1) s =
      Some (CHR ''R'' # concat (drop 1 (incremental_frames p)), s)"
    using replay_recovers_gap [OF sample_itch_spec sample_ups_ok S(1) _ S(3), of "sample_image 1" 1 "\<lambda>_. 0"] S(2)
    by (simp add: REPLAY_CAPACITY_def)
  with S show ?thesis by blast
qed

text \<open>
  Snapshots are current: whatever updates and requests the streamer handled before, the answer to a
  snapshot request is a snapshot of the books as they are now, between control messages that carry
  the sequence number of the last update applied, even when it comes from the cache.
\<close>

theorem snapshot_current:
  assumes ok: "seqs_ok (concat (map fst turns))" and upd: "list_all (in_range n) (map su_update (concat (map fst turns)))"
  shows "\<exists>replies s reply s' clk'. streamer_run lib iter turns (streamer_init n) = Some (replies, s) \<and>
    handleClient lib iter clk (CHR ''S'' # rest) s = Some (reply, s') \<and>
    reply = bake_bytes lib clk' (snapshot_msgs lib iter s) \<and>
    shadow_book s = fold apply_update (map su_update (concat (map fst turns))) (replicate n []) \<and>
    last_seq_num s = of_nat (length (concat (map fst turns)))"
proof -
  obtain replies s where s: "streamer_run lib iter turns (streamer_init n) = Some (replies, s)"
    "streamer_ok lib iter (concat (map fst turns)) s"
    "shadow_book s = fold apply_update (map su_update (concat (map fst turns))) (replicate n [])"
    using streamer_run_ok [OF streamer_init_ok, of turns n lib iter] assms by (auto simp: streamer_init_def)
  obtain reply s' where S: "serveSnapshot lib iter clk s = (reply, s')" by fastforce
  then obtain clk' where "reply = bake_bytes lib clk' (snapshot_msgs lib iter s)"
    using serveSnapshot_current(1) [OF _ S] s(2) by (auto simp: streamer_ok_def)
  with s S show ?thesis by (auto simp: handleClient_def streamer_ok_def ring_ok_def)
qed

theorem snapshot_current_witness:
  "\<exists>replies s reply s' clk'. streamer_run sample_itch id [(feed sample_itch (polled sample_ups), [(\<lambda>_. 0, ''S'')])] (streamer_init 1) =
      Some (replies, s) \<and>
    handleClient sample_itch id (\<lambda>_. 5) ''S'' s = Some (reply, s') \<and>
    reply = bake_bytes sample_itch clk' (snapshot_msgs sample_itch id s)"
proof -
  have "list_all (\<lambda>x. encodable (fst x)) (polled sample_ups)"
    by (simp add: sample_ups_def encodable_def mk_update_def)
  from feed_seqs [OF sample_itch_spec this sample_ups_ok(2)]
    snapshot_current [of "[(feed sample_itch (polled sample_ups), [(\<lambda>_. 0, ''S'')])]" 1 sample_itch id "\<lambda>_. 5" "[]"]
    sample_ups_ok(1)
  show ?thesis by (auto simp: list.pred_map)
qed

text \<open>
  C29. Requests over a socket: whatever the streamer handled before, and however the network cuts request and
  reply, the handler ends; a client whose connection does not recover from a failed call is sent a prefix of the
  answer to a prefix of what it sent, and all of the answer when its connection keeps working.
\<close>

theorem reply_over_socket:
  assumes ok: "seqs_ok (concat (map fst turns))" and upd: "list_all (in_range n) (map su_update (concat (map fst turns)))"
    and dead: "dead_stays_dead (sk_caps fd)"
  shows "\<exists>replies s fd' s' req reply sent. streamer_run lib iter turns (streamer_init n) = Some (replies, s) \<and>
    handleClient_fd lib iter clk fd s = Some (fd', s') \<and> sk_out fd' = sk_out fd @ sent \<and>
    prefix req (sk_in fd) \<and> handleClient lib iter clk req s = Some (reply, s') \<and> prefix sent reply \<and>
    (\<forall>whole t. handleClient lib iter clk (sk_in fd) s = Some (whole, t) \<and> patient (9 + length whole) fd \<longrightarrow>
       sent = whole \<and> s' = t)"
proof -
  obtain replies s where s: "streamer_run lib iter turns (streamer_init n) = Some (replies, s)"
    "streamer_ok lib iter (concat (map fst turns)) s"
    using streamer_run_ok [OF streamer_init_ok, of turns n lib iter] ok upd by (auto simp: streamer_init_def)
  have "\<exists>reply. serveReplay s c = Some reply" for c
    using serveReplay_ok [of lib "concat (map fst turns)" s c] s(2) by (auto simp: streamer_ok_def)
  then obtain fd' s' where run: "handleClient_fd lib iter clk fd s = Some (fd', s')"
    using handleClient_fd_total by blast
  obtain req reply sent where sends: "prefix req (sk_in fd)" "handleClient lib iter clk req s = Some (reply, s')"
    "sk_out fd' = sk_out fd @ sent" "prefix sent reply"
    using handleClient_fd_sends [OF dead run] by blast
  moreover have "sent = whole \<and> s' = t"
    if "handleClient lib iter clk (sk_in fd) s = Some (whole, t) \<and> patient (9 + length whole) fd" for whole t
    using handleClient_fd_patient [of whole fd lib iter clk s t] that run sends(3) by auto
  ultimately show ?thesis using s(1) run by blast
qed

text \<open>A client whose request arrives in one piece and whose connection breaks after five bytes of the answer.\<close>

definition sample_socket :: socket where
  "sample_socket = \<lparr>sk_caps = [1, 5], sk_in = ''S'', sk_out = []\<rparr>"

theorem reply_over_socket_witness:
  "\<exists>replies s fd' s' req reply. streamer_run sample_itch id [(feed sample_itch (polled sample_ups), [])] (streamer_init 1) =
      Some (replies, s) \<and>
    handleClient_fd sample_itch id (\<lambda>_. 5) sample_socket s = Some (fd', s') \<and>
    prefix req ''S'' \<and> handleClient sample_itch id (\<lambda>_. 5) req s = Some (reply, s') \<and> prefix (sk_out fd') reply"
proof -
  have "list_all (\<lambda>x. encodable (fst x)) (polled sample_ups)"
    by (simp add: sample_ups_def encodable_def mk_update_def)
  then have S: "seqs_ok (concat (map fst [(feed sample_itch (polled sample_ups), [])]))"
    "list_all (in_range 1) (map su_update (concat (map fst [(feed sample_itch (polled sample_ups), [])])))"
    "dead_stays_dead (sk_caps sample_socket)"
    using feed_seqs [OF sample_itch_spec _ sample_ups_ok(2)] sample_ups_ok(1)
    by (auto simp: list.pred_map sample_socket_def)
  have "sk_in sample_socket = ''S''" "sk_out sample_socket = []" by (simp_all add: sample_socket_def)
  with reply_over_socket [OF S, of sample_itch id "\<lambda>_. 5"] show ?thesis by (metis append_Nil)
qed

end
